(* ===== verification/Prelude.thy ===== *)
theory Prelude
  imports Main "HOL-Library.Word"
begin

text \<open>
  The vocabulary shared by the whole development: the fixed-width integer types of
  \<^verbatim>\<open>include/lib/types.h\<close>, the error codes of \<^verbatim>\<open>include/kernel/errno.h\<close>, the two loop
  combinators every C loop of the kernel is written with, and the generic lemmas on
  words, lists and loops the components use.

  Conventions.  A C \<^verbatim>\<open>u32\<close> (and \<^verbatim>\<open>size_t\<close>, \<^verbatim>\<open>unsigned int\<close> and a pointer, all 32 bits
  wide on i686) is a \<open>32 word\<close>; arithmetic on it wraps.  A C \<^verbatim>\<open>int\<close> that only carries an
  error code or a flag is an \<open>int\<close>.  A pointer that the code compares with \<^verbatim>\<open>NULL\<close> is an
  \<open>option\<close>, \<open>None\<close> being \<^verbatim>\<open>NULL\<close>.
\<close>

unbundle bit_operations_syntax

section \<open>Types\<close>

type_synonym u8 = "8 word"
type_synonym u16 = "16 word"
type_synonym u32 = "32 word"
type_synonym i32 = "32 word"
type_synonym ptr = "32 word"

text \<open>
  Rule collections.  \<open>u32_nat\<close> turns comparisons and arithmetic of words into statements
  about natural numbers; \<open>loop_simps\<close> holds the unfolding of loops over concrete lists.
\<close>

named_theorems u32_nat
named_theorems loop_simps

section \<open>Error codes (include/kernel/errno.h)\<close>

definition E_NOMEM :: int where [simp]: "E_NOMEM = -1"
definition E_INVAL :: int where [simp]: "E_INVAL = -2"
definition E_FAULT :: int where [simp]: "E_FAULT = -3"
definition E_AGAIN :: int where [simp]: "E_AGAIN = -8"
definition E_NODEV :: int where [simp]: "E_NODEV = -9"
definition E_BUSY :: int where [simp]: "E_BUSY = -20"
definition E_EXISTS :: int where [simp]: "E_EXISTS = -21"
definition E_LIMIT :: int where [simp]: "E_LIMIT = -24"
definition E_PERM :: int where [simp]: "E_PERM = -30"
definition E_IRQ_NOTAVAIL :: int where [simp]: "E_IRQ_NOTAVAIL = -50"
definition E_IRQ_INUSE :: int where [simp]: "E_IRQ_INUSE = -51"
definition E_THREAD_CREATE :: int where [simp]: "E_THREAD_CREATE = -63"
definition E_NOTFOUND :: int where [simp]: "E_NOTFOUND = -90"
definition E_INTERNAL :: int where [simp]: "E_INTERNAL = -100"

section \<open>Loops\<close>

text \<open>
  \<open>for_brk is f s\<close> runs the body \<open>f\<close> for each element of \<open>is\<close> in turn, threading the state
  \<open>s\<close>.  The body continues with \<open>Inl\<close> of the next state, or leaves the loop at once with
  \<open>Inr\<close> of a result (a \<^verbatim>\<open>return\<close> or \<^verbatim>\<open>break\<close> in the C code).  A counting loop
  \<^verbatim>\<open>for (i = a; i < b; i++)\<close> runs over \<open>[a..<b]\<close>; a \<^verbatim>\<open>list_for_each\<close> runs over the list.
\<close>

fun for_brk :: "'i list \<Rightarrow> ('i \<Rightarrow> 's \<Rightarrow> 's + 'r) \<Rightarrow> 's \<Rightarrow> 's + 'r" where
  "for_brk [] f s = Inl s"
| "for_brk (i # is) f s = (case f i s of Inl s' \<Rightarrow> for_brk is f s' | Inr r \<Rightarrow> Inr r)"

lemmas [loop_simps] = for_brk.simps upt_rec

lemma for_brk_append:
  "for_brk (is @ js) f s = (case for_brk is f s of Inl s' \<Rightarrow> for_brk js f s' | Inr r \<Rightarrow> Inr r)"
  by (induction "is" arbitrary: s) (auto split: sum.splits)

text \<open>The invariant rule for loops: the loop runs through, or leaves at one element.\<close>

lemma for_brk_inv:
  assumes "I [] s"
    and "\<And>pre i post s s'. is = pre @ i # post \<Longrightarrow> I pre s \<Longrightarrow> f i s = Inl s' \<Longrightarrow> I (pre @ [i]) s'"
    and "for_brk is f s = Inl t"
  shows "I is t"
  using assms
proof (induction "is" arbitrary: t rule: rev_induct)
  case Nil
  then show ?case by simp
next
  case (snoc i "is")
  from snoc.prems(3) obtain u where u: "for_brk is f s = Inl u" and t: "f i u = Inl t"
    by (auto simp: for_brk_append split: sum.splits)
  have "I is u"
    by (rule snoc.IH [OF snoc.prems(1) _ u]) (use snoc.prems(2) in fastforce)
  then show ?case
    using snoc.prems(2) [of "is" i "[]" u t] t by simp
qed

lemma for_brk_exit:
  assumes "I [] s"
    and "\<And>pre i post s s'. is = pre @ i # post \<Longrightarrow> I pre s \<Longrightarrow> f i s = Inl s' \<Longrightarrow> I (pre @ [i]) s'"
    and "for_brk is f s = Inr r"
  obtains pre i post u where "is = pre @ i # post" and "I pre u" and "f i u = Inr r"
  using assms
proof (induction "is" arbitrary: thesis rule: rev_induct)
  case Nil
  then show ?case by simp
next
  case (snoc i "is")
  have step: "I pre s \<Longrightarrow> f k s = Inl s' \<Longrightarrow> I (pre @ [k]) s'"
    if "is = pre @ k # post" for pre k post s s'
    using snoc.prems(3) [of pre k "post @ [i]" s s'] that by simp
  show ?case
  proof (cases "for_brk is f s")
    case (Inr r')
    with snoc.prems(4) have eq: "for_brk is f s = Inr r" by (simp add: for_brk_append)
    show ?thesis
    proof (rule snoc.IH [OF _ snoc.prems(2) step eq])
      fix pre k post u
      assume "is = pre @ k # post" and "I pre u" and "f k u = Inr r"
      then show thesis using snoc.prems(1) [of pre k "post @ [i]" u] by simp
    qed
  next
    case (Inl u)
    with snoc.prems(4) have "f i u = Inr r" by (simp add: for_brk_append split: sum.splits)
    moreover have "I is u" by (rule for_brk_inv [where I = I, OF snoc.prems(2) step Inl])
    ultimately show ?thesis using snoc.prems(1) [of "is" i "[]" u] by simp
  qed
qed

text \<open>
  A search loop, the commonest loop of the kernel: leave at the first element that passes
  a test.  It is \<open>find\<close>.
\<close>

lemma for_brk_find:
  "for_brk is (\<lambda>i s. if P i s then Inr (g i s) else Inl s) s =
     (case find (\<lambda>i. P i s) is of Some i \<Rightarrow> Inr (g i s) | None \<Rightarrow> Inl s)"
  by (induction "is") auto

lemma find_Some_upt:
  "find P [0..<n] = Some i \<longleftrightarrow> i < n \<and> P i \<and> (\<forall>j<i. \<not> P j)"
  by (auto simp: find_Some_iff)

lemma find_None_upt: "find P [0..<n] = None \<longleftrightarrow> (\<forall>i<n. \<not> P i)"
  by (auto simp: find_None_iff)

lemma upt_split: "i < n \<Longrightarrow> [0..<n] = [0..<i] @ i # [Suc i..<n]"
  using upt_add_eq_append [of 0 i "n - i"] by (simp add: upt_conv_Cons)

section \<open>Words as natural numbers\<close>

lemma unat_u32_lt [simp]: "unat (x :: u32) < 4294967296"
  using unsigned_less [of x] by simp

lemmas [u32_nat] = word_le_nat_alt word_less_nat_alt

lemma unat_add_u32 [u32_nat]:
  "unat (x :: u32) + unat y < 4294967296 \<Longrightarrow> unat (x + y) = unat x + unat y"
  by (simp add: unat_word_ariths)

lemma unat_sub_u32 [u32_nat]: "unat y \<le> unat x \<Longrightarrow> unat (x - y :: u32) = unat x - unat y"
  by (simp add: unat_sub word_le_nat_alt)

lemma unat_mult_u32:
  "unat (x :: u32) * unat y < 4294967296 \<Longrightarrow> unat (x * y) = unat x * unat y"
  by (simp add: unat_word_ariths)

lemma unat_of_nat_u32 [simp]: "n < 4294967296 \<Longrightarrow> unat (of_nat n :: u32) = n"
  by (simp add: unat_of_nat)

lemma of_nat_inj_u32:
  "m < 4294967296 \<Longrightarrow> n < 4294967296 \<Longrightarrow> (of_nat m :: u32) = of_nat n \<longleftrightarrow> m = n"
  by (metis unat_of_nat_u32)

lemma unat_eq_u32: "(x :: u32) = y \<longleftrightarrow> unat x = unat y"
  by (simp add: word_unat_eq_iff)

text \<open>Clearing the low bits rounds down to a multiple of a power of two.\<close>

lemma unat_and_not_mask: "unat ((x :: u32) AND NOT (mask n)) = unat x div 2 ^ n * 2 ^ n"
proof -
  have "x AND NOT (mask n) = push_bit n (drop_bit n x)"
    by (rule bit_eqI) (auto simp: bit_simps)
  also have "\<dots> = drop_bit n x * 2 ^ n" by (simp add: push_bit_eq_mult)
  finally have eq: "x AND NOT (mask n) = drop_bit n x * 2 ^ n" .
  have d: "unat (drop_bit n x) = unat x div 2 ^ n"
    by (simp add: unsigned_drop_bit_eq take_bit_nat_eq_self flip: drop_bit_eq_div)
  show ?thesis
  proof (cases "n < 32")
    case True
    then have "(2 :: nat) ^ n < 2 ^ 32" by (rule power_strict_increasing) simp
    then have p: "unat ((2 :: u32) ^ n) = 2 ^ n" using unat_of_nat_u32 [of "2 ^ n"] by simp
    have "unat x div 2 ^ n * 2 ^ n \<le> unat x" by simp
    also have "\<dots> < 4294967296" by simp
    finally show ?thesis by (simp add: eq unat_mult_u32 d p)
  next
    case False
    then have "(4294967296 :: nat) \<le> 2 ^ n" using power_increasing [of 32 n "2::nat"] by simp
    then have "unat x < 2 ^ n" by (rule less_le_trans [OF unat_u32_lt])
    then show ?thesis using False by (simp add: eq word_exp_length_eq_0)
  qed
qed

section \<open>Allocators of handles\<close>

text \<open>
  The contract the kernel's allocators share (the lock pool, the page allocator, the two
  heaps): a request either fails and leaves the live handles alone, or returns a handle
  that is not live and makes it live; releasing a live handle takes it out of the live
  set.  The consequences the clients use are proved here once.
\<close>

locale handle_allocator =
  fixes alloc :: "'q \<Rightarrow> 's \<Rightarrow> 'h option \<times> 's"
    and release :: "'h \<Rightarrow> 's \<Rightarrow> 's"
    and live :: "'s \<Rightarrow> 'h set"
    and inv :: "'s \<Rightarrow> bool"
  assumes alloc_inv: "inv s \<Longrightarrow> alloc q s = (r, s') \<Longrightarrow> inv s'"
    and alloc_fresh: "inv s \<Longrightarrow> alloc q s = (Some h, s') \<Longrightarrow> h \<notin> live s"
    and alloc_live: "inv s \<Longrightarrow> alloc q s = (Some h, s') \<Longrightarrow> live s' = insert h (live s)"
    and alloc_fail: "inv s \<Longrightarrow> alloc q s = (None, s') \<Longrightarrow> live s' = live s"
    and release_inv: "inv s \<Longrightarrow> h \<in> live s \<Longrightarrow> inv (release h s)"
    and release_live: "inv s \<Longrightarrow> h \<in> live s \<Longrightarrow> live (release h s) = live s - {h}"
begin

lemma alloc_mono: "inv s \<Longrightarrow> alloc q s = (r, s') \<Longrightarrow> live s \<subseteq> live s'"
  using alloc_live alloc_fail by (cases r) blast+

lemma alloc_release_live:
  "inv s \<Longrightarrow> alloc q s = (Some h, s') \<Longrightarrow> live (release h s') = live s"
  using alloc_inv alloc_fresh alloc_live release_live by fastforce

lemma alloc_twice:
  "inv s \<Longrightarrow> alloc q s = (Some h, s') \<Longrightarrow> alloc q' s' = (Some h', s'') \<Longrightarrow> h' \<noteq> h"
  using alloc_inv alloc_fresh alloc_live by blast

lemma release_all:
  "inv s \<Longrightarrow> set hs \<subseteq> live s \<Longrightarrow> distinct hs \<Longrightarrow>
   inv (fold release hs s) \<and> live (fold release hs s) = live s - set hs"
proof (induction hs arbitrary: s)
  case (Cons h hs)
  then have "inv (release h s)" "live (release h s) = live s - {h}"
    using release_inv release_live by auto
  with Cons.IH [of "release h s"] Cons.prems show ?case by auto
qed simp

lemma release_others: "inv s \<Longrightarrow> h \<in> live s \<Longrightarrow> k \<in> live s \<Longrightarrow> k \<noteq> h \<Longrightarrow> k \<in> live (release h s)"
  using release_live by blast

end

end
