(* ===== verification/Memory.thy ===== *)
theory Memory
  imports Prelude
begin

text \<open>
  Byte-addressed memory and the two memory routines of \<^verbatim>\<open>kernel/lib/string.c\<close>.  Addresses
  are 32-bit and wrap, exactly as the pointer arithmetic of the C loops does.  The loops
  are given as they are written, one byte per iteration, and are then shown equal to a
  pointwise description that the page allocator and the loader reason with.
\<close>

type_synonym mem = "u32 \<Rightarrow> u8"

section \<open>memset and memcpy\<close>

definition memset :: "mem \<Rightarrow> u32 \<Rightarrow> int \<Rightarrow> u32 \<Rightarrow> mem" where
  "memset m dest chr sz =
     fold (\<lambda>i m. m(dest + of_nat i := word_of_int chr)) [0..<unat sz] m"

definition memcpy :: "mem \<Rightarrow> u32 \<Rightarrow> u32 \<Rightarrow> u32 \<Rightarrow> mem" where
  "memcpy m dest src sz =
     fold (\<lambda>i m. m(dest + of_nat i := m (src + of_nat i))) [0..<unat sz] m"

section \<open>Address ranges\<close>

text \<open>\<open>in_range a base n\<close>: address \<open>a\<close> is one of the \<open>n\<close> bytes that start at \<open>base\<close>.\<close>

definition in_range :: "u32 \<Rightarrow> u32 \<Rightarrow> nat \<Rightarrow> bool" where
  "in_range a base n \<longleftrightarrow> unat (a - base) < n"

lemma in_range_0 [simp]: "\<not> in_range a base 0"
  by (simp add: in_range_def)

lemma in_range_mono: "in_range a base m \<Longrightarrow> m \<le> n \<Longrightarrow> in_range a base n"
  by (simp add: in_range_def)

lemma in_range_Suc:
  "n < 4294967296 \<Longrightarrow> in_range a base (Suc n) \<longleftrightarrow> in_range a base n \<or> a = base + of_nat n"
proof -
  assume n: "n < 4294967296"
  have "unat (a - base) = n \<longleftrightarrow> a - base = of_nat n"
    using n by (simp add: unat_eq_u32)
  also have "\<dots> \<longleftrightarrow> a = base + of_nat n"
    by (simp add: diff_eq_eq add.commute)
  finally have "unat (a - base) = n \<longleftrightarrow> a = base + of_nat n" .
  then show ?thesis by (auto simp: in_range_def)
qed

lemma in_range_ordered:
  assumes "unat base + n \<le> 4294967296"
  shows "in_range a base n \<longleftrightarrow> unat base \<le> unat a \<and> unat a < unat base + n"
proof (cases "unat base \<le> unat a")
  case True
  then have "unat (a - base) = unat a - unat base"
    by (simp add: unat_sub word_le_nat_alt)
  with True show ?thesis by (auto simp: in_range_def)
next
  case False
  then have "unat (a - base) = 4294967296 + unat a - unat base"
    by (simp add: unat_sub_if_size word_le_nat_alt word_size)
  with False assms show ?thesis by (auto simp: in_range_def)
qed

section \<open>The loops, pointwise\<close>

lemma memset_fold:
  "n \<le> 4294967296 \<Longrightarrow>
   fold (\<lambda>i m. m(d + of_nat i := c)) [0..<n] m a = (if in_range a d n then c else m a)"
  by (induction n) (auto simp: in_range_Suc)

lemma memset_apply:
  "memset m d c n a = (if in_range a d (unat n) then word_of_int c else m a)"
  unfolding memset_def by (rule memset_fold) (simp add: less_imp_le)

text \<open>
  The forward copy is a faithful copy exactly when no source byte is overwritten before it
  is read; this covers disjoint buffers and a destination below an overlapping source.
\<close>

definition copy_safe :: "u32 \<Rightarrow> u32 \<Rightarrow> nat \<Rightarrow> bool" where
  "copy_safe d s n \<longleftrightarrow> (\<forall>i<n. \<not> in_range (s + of_nat i) d i)"

lemma memcpy_fold:
  assumes "n \<le> 4294967296" and "copy_safe d s n"
  shows "fold (\<lambda>i m. m(d + of_nat i := m (s + of_nat i))) [0..<n] m a =
     (if in_range a d n then m (s + (a - d)) else m a)"
  using assms
proof (induction n arbitrary: a)
  case 0
  then show ?case by simp
next
  case (Suc n)
  have safe: "copy_safe d s n" and src: "\<not> in_range (s + of_nat n) d n"
    using Suc.prems(2) by (auto simp: copy_safe_def)
  show ?case
    using Suc.prems(1) Suc.IH [OF _ safe] src by (auto simp: in_range_Suc)
qed

lemma memcpy_apply:
  "copy_safe d s (unat n) \<Longrightarrow>
   memcpy m d s n a = (if in_range a d (unat n) then m (s + (a - d)) else m a)"
  unfolding memcpy_def by (rule memcpy_fold) (simp_all add: less_imp_le)

lemma copy_safe_disjoint:
  assumes "\<And>a. in_range a s n \<Longrightarrow> \<not> in_range a d n" and "n \<le> 4294967296"
  shows "copy_safe d s n"
proof -
  have "in_range (s + of_nat i) s n" if "i < n" for i
    using that assms(2) by (simp add: in_range_def)
  then show ?thesis
    using assms(1) by (auto simp: copy_safe_def dest: in_range_mono [OF _ less_imp_le])
qed

end
