(* ===== verification/Spinlock.thy ===== *)
theory Spinlock
  imports Prelude
begin

text \<open>
  The lock pool and the lock operations of \<^verbatim>\<open>kernel/sync/spinlock.c\<close>, with the interrupt-flag
  pair of \<^verbatim>\<open>arch/i386/arch_irq.h\<close> they use.  A \<^verbatim>\<open>spinlock*\<close> is an index into the static pool.
\<close>

section \<open>The pool\<close>

datatype lock_state = LOCK_INVALID | LOCK_UNLOCKED | LOCK_LOCKED

type_synonym lock_pool = "lock_state list"

definition SPIN_LOCK_MAX_COUNT :: nat where "SPIN_LOCK_MAX_COUNT = 1024"

definition spinlocks :: lock_pool where
  "spinlocks = replicate SPIN_LOCK_MAX_COUNT LOCK_INVALID"

definition spinlock_alloc :: "lock_pool \<Rightarrow> nat option \<times> lock_pool" where
  "spinlock_alloc ls =
     (case for_brk [0..<SPIN_LOCK_MAX_COUNT]
             (\<lambda>i ls. if ls ! i = LOCK_INVALID then Inr (i, ls[i := LOCK_UNLOCKED]) else Inl ls) ls of
        Inr (i, ls') \<Rightarrow> (Some i, ls')
      | Inl ls' \<Rightarrow> (None, ls'))"

definition spinlock_release :: "nat option \<Rightarrow> lock_pool \<Rightarrow> lock_pool" where
  "spinlock_release lock ls =
     (case lock of None \<Rightarrow> ls | Some i \<Rightarrow> ls[i := LOCK_INVALID])"

section \<open>Acquiring and releasing one lock\<close>

text \<open>\<open>xchg\<close> is the atomic exchange: it returns the old value and stores the new one.\<close>

definition xchg :: "lock_pool \<Rightarrow> nat \<Rightarrow> lock_state \<Rightarrow> lock_state \<times> lock_pool" where
  "xchg ls i v = (ls ! i, ls[i := v])"

text \<open>
  The spin loop, with nothing else running: it returns \<open>None\<close> if it never leaves the loop.
\<close>

partial_function (option) spin :: "lock_pool \<Rightarrow> nat \<Rightarrow> lock_pool option" where
  "spin ls i = (let (old, ls') = xchg ls i LOCK_LOCKED in
                if old = LOCK_LOCKED then spin ls' i else Some ls')"

definition spinlock_lock :: "nat option \<Rightarrow> lock_pool \<Rightarrow> (int \<times> lock_pool) option" where
  "spinlock_lock lock ls =
     (case lock of
        None \<Rightarrow> Some (E_INVAL, ls)
      | Some i \<Rightarrow> Option.bind (spin ls i) (\<lambda>ls'. Some (0, ls')))"

definition spinlock_trylock :: "nat option \<Rightarrow> lock_pool \<Rightarrow> int \<times> lock_pool" where
  "spinlock_trylock lock ls =
     (case lock of
        None \<Rightarrow> (E_INVAL, ls)
      | Some i \<Rightarrow> if ls ! i = LOCK_UNLOCKED then (0, ls[i := LOCK_LOCKED]) else (1, ls))"

definition spinlock_unlock :: "nat option \<Rightarrow> lock_pool \<Rightarrow> int \<times> lock_pool" where
  "spinlock_unlock lock ls =
     (case lock of None \<Rightarrow> (E_INVAL, ls) | Some i \<Rightarrow> (0, ls[i := LOCK_UNLOCKED]))"

section \<open>The interrupt-safe pair\<close>

text \<open>The CPU state the pair works on: \<^verbatim>\<open>EFLAGS\<close> (bit 9 is the interrupt flag) and \<^verbatim>\<open>CS\<close>.\<close>

record cpu =
  cpu_eflags :: u32
  cpu_cs :: u16

definition arch_running_ring3 :: "cpu \<Rightarrow> bool" where
  "arch_running_ring3 c \<longleftrightarrow> cpu_cs c AND 3 = 3"

definition irq_enabled :: "cpu \<Rightarrow> bool" where
  "irq_enabled c \<longleftrightarrow> bit (cpu_eflags c) 9"

definition arch_irq_save :: "cpu \<Rightarrow> u32 \<times> cpu" where
  "arch_irq_save c =
     (cpu_eflags c, if \<not> arch_running_ring3 c then c\<lparr>cpu_eflags := unset_bit 9 (cpu_eflags c)\<rparr> else c)"

text \<open>At CPL0 \<^verbatim>\<open>popfl\<close> restores the flag; at CPL3 with IOPL 0 it leaves the flag as it is.\<close>

definition arch_irq_restore :: "u32 \<Rightarrow> cpu \<Rightarrow> cpu" where
  "arch_irq_restore fl c =
     (if \<not> arch_running_ring3 c then c\<lparr>cpu_eflags := fl\<rparr>
      else c\<lparr>cpu_eflags := (if irq_enabled c then set_bit 9 fl else unset_bit 9 fl)\<rparr>)"

definition spinlock_lock_irqsave ::
  "nat option \<Rightarrow> cpu \<times> lock_pool \<Rightarrow> (u32 \<times> cpu \<times> lock_pool) option" where
  "spinlock_lock_irqsave lock = (\<lambda>(c, ls).
     let (fl, c') = arch_irq_save c in
     Option.bind (spinlock_lock lock ls) (\<lambda>(_, ls'). Some (fl, c', ls')))"

definition spinlock_unlock_irqrestore ::
  "nat option \<Rightarrow> u32 \<Rightarrow> cpu \<times> lock_pool \<Rightarrow> cpu \<times> lock_pool" where
  "spinlock_unlock_irqrestore lock fl = (\<lambda>(c, ls).
     (arch_irq_restore fl c, snd (spinlock_unlock lock ls)))"

section \<open>The pool is an allocator of distinct locks\<close>

definition pool_inv :: "lock_pool \<Rightarrow> bool" where
  "pool_inv ls \<longleftrightarrow> length ls = SPIN_LOCK_MAX_COUNT"

definition live_locks :: "lock_pool \<Rightarrow> nat set" where
  "live_locks ls = {i. i < length ls \<and> ls ! i \<noteq> LOCK_INVALID}"

lemma spinlock_alloc_eq:
  "spinlock_alloc ls =
     (case find (\<lambda>i. ls ! i = LOCK_INVALID) [0..<SPIN_LOCK_MAX_COUNT] of
        Some i \<Rightarrow> (Some i, ls[i := LOCK_UNLOCKED]) | None \<Rightarrow> (None, ls))"
  unfolding spinlock_alloc_def
  by (subst for_brk_find [where P = "\<lambda>i ls. ls ! i = LOCK_INVALID"]) (auto split: option.split)

lemma spinlock_alloc_Some:
  "spinlock_alloc ls = (Some i, ls') \<longleftrightarrow>
     i < SPIN_LOCK_MAX_COUNT \<and> ls ! i = LOCK_INVALID \<and> (\<forall>j<i. ls ! j \<noteq> LOCK_INVALID) \<and>
     ls' = ls[i := LOCK_UNLOCKED]"
proof -
  have "spinlock_alloc ls = (Some i, ls') \<longleftrightarrow>
      find (\<lambda>i. ls ! i = LOCK_INVALID) [0..<SPIN_LOCK_MAX_COUNT] = Some i \<and> ls' = ls[i := LOCK_UNLOCKED]"
    by (auto simp: spinlock_alloc_eq split: option.splits)
  then show ?thesis by (simp only: find_Some_upt conj_assoc)
qed

lemma spinlock_alloc_None:
  "spinlock_alloc ls = (None, ls') \<longleftrightarrow> (\<forall>i<SPIN_LOCK_MAX_COUNT. ls ! i \<noteq> LOCK_INVALID) \<and> ls' = ls"
  by (auto simp: spinlock_alloc_eq find_Some_upt find_None_upt split: option.splits)

lemma pool_inv_ops [simp]:
  "pool_inv ls \<Longrightarrow> pool_inv (snd (spinlock_alloc ls))"
  "pool_inv ls \<Longrightarrow> pool_inv (spinlock_release l ls)"
  by (auto simp: spinlock_alloc_eq spinlock_release_def pool_inv_def split: option.split)

lemma live_locks_alloc:
  assumes "pool_inv ls" and "spinlock_alloc ls = (Some i, ls')"
  shows "i \<notin> live_locks ls" and "live_locks ls' = insert i (live_locks ls)"
  using assms by (auto simp: spinlock_alloc_Some live_locks_def pool_inv_def nth_list_update)

lemma live_locks_release:
  "live_locks (spinlock_release (Some i) ls) = live_locks ls - {i}"
  by (cases "i < length ls")
    (auto simp: spinlock_release_def live_locks_def nth_list_update list_update_beyond)

lemma live_locks_full:
  assumes "pool_inv ls" and "spinlock_alloc ls = (None, ls')"
  shows "live_locks ls = {..<SPIN_LOCK_MAX_COUNT}" and "ls' = ls"
  using assms by (auto simp: spinlock_alloc_None live_locks_def pool_inv_def)

section \<open>Spinning\<close>

lemma spin_free: "i < length ls \<Longrightarrow> ls ! i \<noteq> LOCK_LOCKED \<Longrightarrow> spin ls i = Some (ls[i := LOCK_LOCKED])"
  by (simp add: spin.simps xchg_def)

lemma spin_returned:
  assumes "spin ls i = Some ls'"
  shows "ls ! i \<noteq> LOCK_LOCKED"
proof (rule spin.raw_induct [where P = "\<lambda>ls i ls'. ls ! i \<noteq> LOCK_LOCKED", OF _ assms])
  fix f ls i ls'
  assume IH: "\<And>ls i ls'. f ls i = Some ls' \<Longrightarrow> ls ! i \<noteq> LOCK_LOCKED"
    and eq: "(let (old, ls') = xchg ls i LOCK_LOCKED in
              if old = LOCK_LOCKED then f ls' i else Some ls') = Some ls'"
  show "ls ! i \<noteq> LOCK_LOCKED"
  proof
    assume held: "ls ! i = LOCK_LOCKED"
    then have "ls[i := LOCK_LOCKED] = ls" by (metis list_update_id)
    with held eq have "f ls i = Some ls'" by (simp add: xchg_def)
    with IH held show False by blast
  qed
qed

lemma spin_held: "ls ! i = LOCK_LOCKED \<Longrightarrow> spin ls i = None"
  using spin_returned by (cases "spin ls i") auto

text \<open>The pool keeps the allocator contract: no two holders are given the same lock.\<close>

interpretation locks: handle_allocator "\<lambda>_::unit. spinlock_alloc" "\<lambda>i. spinlock_release (Some i)"
  live_locks pool_inv
proof unfold_locales
  fix s s' :: lock_pool and r
  assume "pool_inv s" and "spinlock_alloc s = (r, s')"
  then show "pool_inv s'" using pool_inv_ops(1) [of s] by simp
qed (auto simp: live_locks_release dest: live_locks_alloc live_locks_full(2))

section \<open>Mutual exclusion\<close>

text \<open>
  Any number of CPUs contend for lock \<open>l\<close>.  One step is one atomic instruction of one CPU:
  an iteration of the spin loop (the exchange), a \<^verbatim>\<open>spinlock_trylock\<close>, or the store of
  \<^verbatim>\<open>spinlock_unlock\<close> by the CPU that is inside.
\<close>

datatype where_is = Outside | Spinning | Inside

record contention =
  lpool :: lock_pool
  at_pc :: "nat \<Rightarrow> where_is"

inductive lock_step :: "nat \<Rightarrow> contention \<Rightarrow> contention \<Rightarrow> bool" for l where
  begin_lock: "at_pc s i = Outside \<Longrightarrow> lock_step l s (s\<lparr>at_pc := (at_pc s)(i := Spinning)\<rparr>)"
| spin_again: "at_pc s i = Spinning \<Longrightarrow> xchg (lpool s) l LOCK_LOCKED = (LOCK_LOCKED, ls) \<Longrightarrow>
    lock_step l s (s\<lparr>lpool := ls\<rparr>)"
| spin_done: "at_pc s i = Spinning \<Longrightarrow> xchg (lpool s) l LOCK_LOCKED = (old, ls) \<Longrightarrow> old \<noteq> LOCK_LOCKED \<Longrightarrow>
    lock_step l s (s\<lparr>lpool := ls, at_pc := (at_pc s)(i := Inside)\<rparr>)"
| try_ok: "at_pc s i = Outside \<Longrightarrow> spinlock_trylock (Some l) (lpool s) = (0, ls) \<Longrightarrow>
    lock_step l s (s\<lparr>lpool := ls, at_pc := (at_pc s)(i := Inside)\<rparr>)"
| try_busy: "at_pc s i = Outside \<Longrightarrow> spinlock_trylock (Some l) (lpool s) = (r, ls) \<Longrightarrow> r \<noteq> 0 \<Longrightarrow>
    lock_step l s (s\<lparr>lpool := ls\<rparr>)"
| unlock: "at_pc s i = Inside \<Longrightarrow> spinlock_unlock (Some l) (lpool s) = (0, ls) \<Longrightarrow>
    lock_step l s (s\<lparr>lpool := ls, at_pc := (at_pc s)(i := Outside)\<rparr>)"

inductive contends :: "nat \<Rightarrow> contention \<Rightarrow> bool" for l where
  start: "l < length ls \<Longrightarrow> ls ! l = LOCK_UNLOCKED \<Longrightarrow> contends l \<lparr>lpool = ls, at_pc = \<lambda>_. Outside\<rparr>"
| step: "contends l s \<Longrightarrow> lock_step l s t \<Longrightarrow> contends l t"

text \<open>The lock word says whether somebody is inside, and then it is one CPU only.\<close>

definition excl_inv :: "nat \<Rightarrow> contention \<Rightarrow> bool" where
  "excl_inv l s \<longleftrightarrow> l < length (lpool s) \<and>
     (if lpool s ! l = LOCK_LOCKED then \<exists>!i. at_pc s i = Inside else \<forall>i. at_pc s i \<noteq> Inside)"

lemma lock_step_excl: "lock_step l s t \<Longrightarrow> excl_inv l s \<Longrightarrow> excl_inv l t"
proof (induction rule: lock_step.induct)
  case (begin_lock s i)
  then have "((at_pc s)(i := Spinning)) k = Inside \<longleftrightarrow> at_pc s k = Inside" for k by simp
  with begin_lock show ?case by (simp add: excl_inv_def)
next
  case (spin_again s i ls)
  then have "ls = lpool s" by (auto simp: xchg_def) (metis list_update_id)
  with spin_again show ?case by simp
next
  case (spin_done s i old ls)
  then show ?case by (auto simp: excl_inv_def xchg_def)
next
  case (try_ok s i ls)
  then show ?case by (auto simp: excl_inv_def spinlock_trylock_def split: if_splits)
next
  case (try_busy s i r ls)
  then show ?case by (auto simp: spinlock_trylock_def split: if_splits)
next
  case (unlock s i ls)
  then show ?case by (auto simp: excl_inv_def spinlock_unlock_def split: if_splits)
qed

lemma contends_excl: "contends l s \<Longrightarrow> excl_inv l s"
proof (induction rule: contends.induct)
  case (start ls)
  then show ?case by (simp add: excl_inv_def)
qed (rule lock_step_excl)

section \<open>Properties\<close>

text \<open>
  Property C26: mutual exclusion.  Whatever CPUs spin on, try or release a lock in whatever
  order, two CPUs are never inside at once, and while one is inside the lock word is LOCKED.
\<close>

theorem spinlock_mutual_exclusion:
  assumes "contends l s" and "at_pc s i = Inside"
  shows "lpool s ! l = LOCK_LOCKED \<and> (\<forall>j. at_pc s j = Inside \<longrightarrow> j = i)"
  using contends_excl [OF assms(1)] assms(2) by (auto simp: excl_inv_def split: if_splits)

theorem spinlock_mutual_exclusion_witness:
  "contends 0 \<lparr>lpool = [LOCK_LOCKED], at_pc = (\<lambda>_. Outside)(7 := Inside)\<rparr> \<and>
   {j. ((\<lambda>_. Outside)(7 := Inside)) j = Inside} = {7 :: nat}"
proof -
  let ?s = "\<lparr>lpool = [LOCK_UNLOCKED], at_pc = \<lambda>_. Outside\<rparr>"
  let ?t = "\<lparr>lpool = [LOCK_LOCKED], at_pc = (\<lambda>_. Outside)(7 := Inside)\<rparr>"
  have "contends 0 ?s" by (rule contends.start) simp_all
  moreover have "lock_step 0 ?s ?t"
    using lock_step.try_ok [of ?s 7 0 "[LOCK_LOCKED]"] by (simp add: spinlock_trylock_def)
  ultimately have t: "contends 0 ?t" by (rule contends.step)
  have "at_pc ?t 7 = Inside" by simp
  from conjunct2 [OF spinlock_mutual_exclusion [OF t this]]
  have "\<forall>j. ((\<lambda>_. Outside)(7 := Inside)) j = Inside \<longrightarrow> j = (7::nat)" by (simp only: contention.simps)
  then have "{j. ((\<lambda>_. Outside)(7 := Inside)) j = Inside} \<subseteq> {7 :: nat}" by blast
  moreover have "7 \<in> {j. ((\<lambda>_. Outside)(7 := Inside)) j = Inside}" by simp
  ultimately have "{j. ((\<lambda>_. Outside)(7 := Inside)) j = Inside} = {7 :: nat}" by blast
  with t show ?thesis by (rule conjI)
qed

text \<open>
  The interrupt-safe pair at CPL0.  Taking a free lock returns, with interrupts
  masked and the lock word LOCKED; the matching release gives back the very CPU state (the
  interrupt flag included) and lock pool there was before.
\<close>

theorem irqsave_irqrestore_roundtrip:
  assumes "\<not> arch_running_ring3 c" and "l < length ls" and "ls ! l = LOCK_UNLOCKED"
  shows "\<exists>fl c' ls'. spinlock_lock_irqsave (Some l) (c, ls) = Some (fl, c', ls') \<and>
           \<not> irq_enabled c' \<and> ls' ! l = LOCK_LOCKED \<and>
           spinlock_unlock_irqrestore (Some l) fl (c', ls') = (c, ls)"
proof -
  have "ls[l := LOCK_UNLOCKED] = ls" using assms by (metis list_update_id)
  then show ?thesis using assms
    by (auto simp: spinlock_lock_irqsave_def arch_irq_save_def spinlock_lock_def spin_free
      spinlock_unlock_irqrestore_def arch_irq_restore_def spinlock_unlock_def irq_enabled_def
      arch_running_ring3_def bit_simps)
qed

theorem irqsave_irqrestore_roundtrip_witness:
  "\<exists>fl c' ls'.
     spinlock_lock_irqsave (Some 1) (\<lparr>cpu_eflags = 0x202, cpu_cs = 8\<rparr>, [LOCK_INVALID, LOCK_UNLOCKED]) = Some (fl, c', ls') \<and>
     \<not> irq_enabled c' \<and> ls' ! 1 = LOCK_LOCKED \<and>
     spinlock_unlock_irqrestore (Some 1) fl (c', ls') = (\<lparr>cpu_eflags = 0x202, cpu_cs = 8\<rparr>, [LOCK_INVALID, LOCK_UNLOCKED])"
  by (rule irqsave_irqrestore_roundtrip) (simp_all add: arch_running_ring3_def)

text \<open>
  The lock pool is an allocator of distinct locks.  A lock that is handed out is in
  the pool, was not in use, and is in use from then on beside all the others, until it is
  released; allocation fails only when all SPIN_LOCK_MAX_COUNT locks are in use, and then
  changes nothing.
\<close>

theorem spinlock_alloc_distinct:
  assumes "pool_inv ls" and "spinlock_alloc ls = (r, ls')"
  shows "case r of
      Some i \<Rightarrow> i < SPIN_LOCK_MAX_COUNT \<and> i \<notin> live_locks ls \<and> live_locks ls' = insert i (live_locks ls) \<and>
        live_locks (spinlock_release (Some i) ls') = live_locks ls
    | None \<Rightarrow> live_locks ls = {..<SPIN_LOCK_MAX_COUNT} \<and> ls' = ls"
proof (cases r)
  case None
  then show ?thesis using live_locks_full assms by simp
next
  case (Some i)
  with assms have a: "spinlock_alloc ls = (Some i, ls')" by simp
  with locks.alloc_fresh [OF assms(1) a] locks.alloc_live [OF assms(1) a]
    locks.alloc_release_live [OF assms(1) a] Some
  show ?thesis by (simp add: spinlock_alloc_Some)
qed

theorem spinlock_alloc_distinct_witness:
  "spinlock_alloc spinlocks = (Some 0, spinlocks[0 := LOCK_UNLOCKED]) \<and>
   0 \<notin> live_locks spinlocks \<and>
   live_locks (spinlocks[0 := LOCK_UNLOCKED]) = insert 0 (live_locks spinlocks)"
proof -
  have inv: "pool_inv spinlocks" by (simp add: pool_inv_def spinlocks_def)
  have "0 < SPIN_LOCK_MAX_COUNT" by (simp add: SPIN_LOCK_MAX_COUNT_def)
  then have a: "spinlock_alloc spinlocks = (Some 0, spinlocks[0 := LOCK_UNLOCKED])"
    by (simp add: spinlock_alloc_Some spinlocks_def)
  show ?thesis using spinlock_alloc_distinct [OF inv a] a by simp
qed

end
