(* ===== verification/Pmm.thy ===== *)
theory Pmm
  imports Memory Spinlock
begin

text \<open>
  The physical page allocator of \<^verbatim>\<open>kernel/mm/pmm.c\<close>.  The bitmap is kept where the code keeps it,
  in memory, one bit per 4 KB block, so that zero-filling a page and updating the bitmap are
  writes to the same \<^verbatim>\<open>mem\<close> and that they do not interfere is a theorem.
\<close>

section \<open>State\<close>

definition block_size :: u32 where "block_size = 4096"

definition PAGE_ALIGN :: "u32 \<Rightarrow> u32" where
  "PAGE_ALIGN x = (x + 4096 - 1) AND NOT (4096 - 1)"

definition DIV_ROUND_UP :: "u32 \<Rightarrow> u32 \<Rightarrow> u32" where
  "DIV_ROUND_UP n d = (n + d - 1) div d"

record pmm =
  bitmap_4k :: u32
  total_blocks :: u32
  free_blocks :: u32
  pmm_lock :: "nat option"
  pmm_initialized :: bool
  pmem :: mem
  plocks :: lock_pool

section \<open>The bitmap\<close>

definition bitmap_set :: "u32 \<Rightarrow> pmm \<Rightarrow> pmm" where
  "bitmap_set block s =
     (let a = bitmap_4k s + block div 8 in
      s\<lparr>pmem := (pmem s)(a := pmem s a OR push_bit (unat (block mod 8)) 1)\<rparr>)"

definition bitmap_clear :: "u32 \<Rightarrow> pmm \<Rightarrow> pmm" where
  "bitmap_clear block s =
     (let a = bitmap_4k s + block div 8 in
      s\<lparr>pmem := (pmem s)(a := pmem s a AND NOT (push_bit (unat (block mod 8)) 1))\<rparr>)"

definition bitmap_test :: "u32 \<Rightarrow> pmm \<Rightarrow> bool" where
  "bitmap_test block s \<longleftrightarrow>
     drop_bit (unat (block mod 8)) (pmem s (bitmap_4k s + block div 8)) AND 1 = 1"

section \<open>Operations\<close>

definition reserve_blocks :: "u32 \<Rightarrow> u32 \<Rightarrow> u32" where
  "reserve_blocks bitmap blocks =
     bitmap div block_size + DIV_ROUND_UP (DIV_ROUND_UP blocks 8) block_size"

definition pmm_init :: "u32 \<Rightarrow> u32 \<Rightarrow> pmm \<Rightarrow> pmm" where
  "pmm_init total_memory bitmap_pa s =
     (if pmm_initialized s then s
      else if bitmap_pa = 0 then s
      else let (l, ls) = spinlock_alloc (plocks s); s = s\<lparr>pmm_lock := l, plocks := ls\<rparr> in
        if l = None then s
        else let s = s\<lparr>total_blocks := total_memory div block_size, bitmap_4k := PAGE_ALIGN bitmap_pa\<rparr>;
                 s = s\<lparr>pmem := memset (pmem s) (bitmap_4k s) 0xFF (DIV_ROUND_UP (total_blocks s) 8)\<rparr>;
                 rb = reserve_blocks (bitmap_4k s) (total_blocks s);
                 s = s\<lparr>free_blocks := 0\<rparr>;
                 s = fold (\<lambda>i s. (bitmap_clear (of_nat i) s)\<lparr>free_blocks := free_blocks s + 1\<rparr>)
                       [unat rb..<unat (total_blocks s)] s
             in s\<lparr>pmm_initialized := True\<rparr>)"

definition pmm_mark_used :: "u32 \<Rightarrow> u32 \<Rightarrow> pmm \<Rightarrow> pmm" where
  "pmm_mark_used paddr sz s =
     (if \<not> pmm_initialized s \<or> paddr = 0 \<or> sz = 0 then s
      else let block = paddr div block_size;
               end_block = (paddr + sz + block_size - 1) div block_size;
               end_block = (if total_blocks s < end_block then total_blocks s else end_block)
           in fold (\<lambda>i s. if \<not> bitmap_test (of_nat i) s
                          then (bitmap_set (of_nat i) s)\<lparr>free_blocks := free_blocks s - 1\<rparr> else s)
                [unat block..<unat end_block] s)"

definition pmm_alloc_page :: "pmm \<Rightarrow> u32 \<times> pmm" where
  "pmm_alloc_page s =
     (if \<not> pmm_initialized s then (0, s)
      else case for_brk [0..<unat (total_blocks s)]
             (\<lambda>i s. if \<not> bitmap_test (of_nat i) s
                then let t = (bitmap_set (of_nat i) s)\<lparr>free_blocks := free_blocks s - 1\<rparr>;
                         t = t\<lparr>pmem := memset (pmem t) (of_nat i * block_size) 0 block_size\<rparr>
                     in Inr (of_nat i * block_size, t)
                else Inl s) s of
             Inr r \<Rightarrow> r | Inl s \<Rightarrow> (0, s))"

definition pmm_free_page :: "u32 \<Rightarrow> pmm \<Rightarrow> pmm" where
  "pmm_free_page paddr s =
     (let block = paddr div block_size in
      if \<not> pmm_initialized s \<or> total_blocks s \<le> block then s
      else if bitmap_test block s then (bitmap_clear block s)\<lparr>free_blocks := free_blocks s + 1\<rparr> else s)"

definition pmm_get_free_page_count :: "pmm \<Rightarrow> u32" where
  "pmm_get_free_page_count s = (if \<not> pmm_initialized s then 0 else free_blocks s)"

text \<open>One iteration of the scan for a run: the body of the loop in \<^verbatim>\<open>pmm_alloc_pages\<close>.\<close>

definition scan_body :: "u32 \<Rightarrow> nat \<Rightarrow> u32 \<times> u32 \<times> pmm \<Rightarrow> (u32 \<times> u32 \<times> pmm) + (u32 \<times> pmm)" where
  "scan_body num_pages i = (\<lambda>(start_block, found_blocks, s).
     if \<not> bitmap_test (of_nat i) s
     then let start_block = (if found_blocks = 0 then of_nat i else start_block);
              found_blocks = found_blocks + 1 in
       if found_blocks = num_pages
       then let t = fold (\<lambda>j. bitmap_set (of_nat j))
                      [unat start_block..<unat (start_block + num_pages)] s;
                t = t\<lparr>free_blocks := free_blocks t - num_pages\<rparr>;
                t = t\<lparr>pmem := memset (pmem t) (start_block * block_size) 0 (num_pages * block_size)\<rparr>
            in Inr (start_block * block_size, t)
       else Inl (start_block, found_blocks, s)
     else Inl (start_block, 0, s))"

definition pmm_alloc_pages :: "u32 \<Rightarrow> pmm \<Rightarrow> u32 \<times> pmm" where
  "pmm_alloc_pages num_pages s =
     (if \<not> pmm_initialized s \<or> num_pages = 0 then (0, s)
      else case for_brk [0..<unat (total_blocks s)] (scan_body num_pages) (0, 0, s) of
             Inr r \<Rightarrow> r | Inl (_, _, s) \<Rightarrow> (0, s))"

definition pmm_free_pages :: "u32 \<Rightarrow> u32 \<Rightarrow> pmm \<Rightarrow> pmm" where
  "pmm_free_pages paddr num_pages s =
     (if \<not> pmm_initialized s \<or> num_pages = 0 then s
      else let start_block = paddr div block_size in
        fold (\<lambda>i s. if of_nat i < total_blocks s \<and> bitmap_test (of_nat i) s
                    then (bitmap_clear (of_nat i) s)\<lparr>free_blocks := free_blocks s + 1\<rparr> else s)
          [unat start_block..<unat (start_block + num_pages)] s)"

section \<open>The bitmap as a set of blocks\<close>

text \<open>
  \<open>used_block s i\<close>: the bit of block \<open>i\<close> is set.  Blocks are numbered below \<open>2 ^ 20\<close>, so their
  bits are in different places.
\<close>

definition used_block :: "pmm \<Rightarrow> nat \<Rightarrow> bool" where
  "used_block s i \<longleftrightarrow> bit (pmem s (bitmap_4k s + of_nat (i div 8))) (i mod 8)"

abbreviation nblocks :: "pmm \<Rightarrow> nat" where
  "nblocks s \<equiv> unat (total_blocks s)"

lemma block_index:
  assumes "i < 1048576"
  shows "unat ((of_nat i :: u32) mod 8) = i mod 8" and "(of_nat i :: u32) div 8 = of_nat (i div 8)"
proof -
  have i: "unat (of_nat i :: u32) = i" using assms by simp
  show "unat ((of_nat i :: u32) mod 8) = i mod 8" using i by (simp add: unat_mod)
  have "unat ((of_nat i :: u32) div 8) = i div 8" using i by (simp add: unat_div)
  then show "(of_nat i :: u32) div 8 = of_nat (i div 8)" using assms by (simp add: unat_eq_u32)
qed

lemma byte_inj:
  "i < 1048576 \<Longrightarrow> j < 1048576 \<Longrightarrow>
   (of_nat (i div 8) :: u32) = of_nat (j div 8) \<longleftrightarrow> i div 8 = j div 8"
  by (simp add: of_nat_inj_u32)

lemma block_eq: "(i :: nat) = j \<longleftrightarrow> i div 8 = j div 8 \<and> i mod 8 = j mod 8"
  by (metis div_mult_mod_eq)

lemma bitmap_test_used: "i < 1048576 \<Longrightarrow> bitmap_test (of_nat i) s = used_block s i"
  by (simp add: bitmap_test_def used_block_def block_index bit_iff_odd_drop_bit and_one_eq odd_iff_mod_2_eq_one)

lemma used_bitmap_set:
  "i < 1048576 \<Longrightarrow> j < 1048576 \<Longrightarrow> used_block (bitmap_set (of_nat j) s) i \<longleftrightarrow> i = j \<or> used_block s i"
  by (auto simp: used_block_def bitmap_set_def block_index byte_inj Let_def bit_simps block_eq [of i j])

lemma used_bitmap_clear:
  "i < 1048576 \<Longrightarrow> j < 1048576 \<Longrightarrow> used_block (bitmap_clear (of_nat j) s) i \<longleftrightarrow> i \<noteq> j \<and> used_block s i"
  by (auto simp: used_block_def bitmap_clear_def block_index byte_inj Let_def bit_simps block_eq [of i j])

lemma bitmap_fields [simp]:
  "bitmap_4k (bitmap_set b s) = bitmap_4k s" "bitmap_4k (bitmap_clear b s) = bitmap_4k s"
  "total_blocks (bitmap_set b s) = total_blocks s" "total_blocks (bitmap_clear b s) = total_blocks s"
  "free_blocks (bitmap_set b s) = free_blocks s" "free_blocks (bitmap_clear b s) = free_blocks s"
  "pmm_initialized (bitmap_set b s) = pmm_initialized s" "pmm_initialized (bitmap_clear b s) = pmm_initialized s"
  "pmm_lock (bitmap_set b s) = pmm_lock s" "pmm_lock (bitmap_clear b s) = pmm_lock s"
  by (simp_all add: bitmap_set_def bitmap_clear_def Let_def)

text \<open>The number of bitmap bytes and the first block that is not reserved, as natural numbers.\<close>

definition bitmap_bytes :: "pmm \<Rightarrow> nat" where
  "bitmap_bytes s = (nblocks s + 7) div 8"

definition rsv :: "pmm \<Rightarrow> nat" where
  "rsv s = unat (bitmap_4k s) div 4096 + (bitmap_bytes s + 4095) div 4096"

definition free_set :: "pmm \<Rightarrow> nat set" where
  "free_set s = {i. i < nblocks s \<and> \<not> used_block s i}"

definition pmm_inv :: "pmm \<Rightarrow> bool" where
  "pmm_inv s \<longleftrightarrow> pmm_initialized s \<and> nblocks s < 1048576 \<and>
     4096 \<le> unat (bitmap_4k s) \<and> 4096 dvd unat (bitmap_4k s) \<and>
     unat (bitmap_4k s) + bitmap_bytes s \<le> 4294967296 \<and>
     (\<forall>i<rsv s. i < nblocks s \<longrightarrow> used_block s i) \<and> unat (free_blocks s) = card (free_set s)"

lemma finite_free_set [simp]: "finite (free_set s)"
  by (simp add: free_set_def)

lemma card_free_set: "card (free_set s) \<le> nblocks s"
  using card_mono [of "{..<nblocks s}" "free_set s"] by (auto simp: free_set_def)

lemma div_round_up_8: "unat n < 1048576 \<Longrightarrow> unat (DIV_ROUND_UP n 8) = (unat n + 7) div 8"
proof -
  assume "unat n < 1048576"
  then have "unat (7 + n) = unat n + 7" by (simp add: unat_add_u32)
  then show ?thesis by (simp add: DIV_ROUND_UP_def unat_div)
qed

lemma unat_reserve_blocks:
  assumes "nblocks s < 1048576"
  shows "unat (reserve_blocks (bitmap_4k s) (total_blocks s)) = rsv s"
proof -
  let ?d = "DIV_ROUND_UP (total_blocks s) 8"
  have d: "unat ?d = bitmap_bytes s" using div_round_up_8 assms by (simp add: bitmap_bytes_def)
  have b: "bitmap_bytes s \<le> 131072" using assms by (simp add: bitmap_bytes_def)
  have "unat (4095 + ?d) = bitmap_bytes s + 4095" using b d by (simp add: unat_add_u32)
  then have "unat (DIV_ROUND_UP ?d block_size) = (bitmap_bytes s + 4095) div 4096"
    by (simp add: DIV_ROUND_UP_def [of ?d] block_size_def unat_div)
  moreover have "unat (bitmap_4k s div block_size) = unat (bitmap_4k s) div 4096"
    by (simp add: block_size_def unat_div)
  moreover have "unat (bitmap_4k s) div 4096 \<le> 1048576"
    using unat_u32_lt [of "bitmap_4k s"] by linarith
  ultimately show ?thesis using b by (simp add: reserve_blocks_def rsv_def unat_add_u32)
qed

lemma bitmap_below_rsv: "pmm_inv s \<Longrightarrow> unat (bitmap_4k s) + bitmap_bytes s \<le> rsv s * 4096"
  by (auto simp: pmm_inv_def rsv_def algebra_simps elim!: dvdE)

lemma rsv_pos: "pmm_inv s \<Longrightarrow> 0 < rsv s"
  by (auto simp: pmm_inv_def rsv_def div_greater_zero_iff)

lemma free_set_rsv: "pmm_inv s \<Longrightarrow> i \<in> free_set s \<Longrightarrow> rsv s \<le> i \<and> i < nblocks s \<and> i < 1048576"
  by (auto simp: pmm_inv_def free_set_def not_less [symmetric])

lemma unat_block_addr: "i < 1048576 \<Longrightarrow> unat (of_nat i * block_size) = i * 4096"
  by (simp add: block_size_def unat_mult_u32)

text \<open>The bitmap lies in reserved blocks, so page contents and bitmap do not interfere.\<close>

lemma bitmap_byte_lt:
  assumes "pmm_inv s" and "j < nblocks s"
  shows "unat (bitmap_4k s + of_nat (j div 8)) < rsv s * 4096"
proof -
  have "j div 8 < bitmap_bytes s" using assms(2) by (simp add: bitmap_bytes_def)
  moreover have "unat (bitmap_4k s) + bitmap_bytes s \<le> 4294967296" "nblocks s < 1048576"
    using assms(1) by (simp_all add: pmm_inv_def)
  ultimately have "unat (bitmap_4k s + of_nat (j div 8)) = unat (bitmap_4k s) + j div 8"
    using assms(2) by (simp add: unat_add_u32)
  also have "\<dots> < rsv s * 4096" using bitmap_below_rsv [OF assms(1)] \<open>j div 8 < bitmap_bytes s\<close> by linarith
  finally show ?thesis .
qed

lemma used_memset:
  assumes "pmm_inv s" and "bitmap_4k t = bitmap_4k s"
    and "rsv s \<le> i" and "i + n \<le> nblocks s" and "j < nblocks s" and "unat len = n * 4096"
  shows "used_block (t\<lparr>pmem := memset (pmem t) (of_nat i * block_size) 0 len\<rparr>) j = used_block t j"
proof -
  have n: "nblocks s < 1048576" using assms(1) by (simp add: pmm_inv_def)
  have "rsv s * 4096 \<le> i * 4096" using assms(3) by simp
  with bitmap_byte_lt [OF assms(1,5)] have "unat (bitmap_4k s + of_nat (j div 8)) < i * 4096" by linarith
  moreover have "unat (of_nat i * block_size) = i * 4096" using unat_block_addr assms(4) n by simp
  moreover have "i * 4096 + n * 4096 \<le> 4294967296" using assms(4) n by linarith
  ultimately have "\<not> in_range (bitmap_4k s + of_nat (j div 8)) (of_nat i * block_size) (unat len)"
    using in_range_ordered [of "of_nat i * block_size" "unat len"] assms(6) by simp
  then show ?thesis using assms(2) by (simp add: used_block_def memset_apply)
qed

lemma bitmap_frame:
  assumes "pmm_inv s" and "bitmap_4k t = bitmap_4k s" and "j < nblocks s" and "rsv s \<le> unat a div 4096"
  shows "pmem (bitmap_set (of_nat j) t) a = pmem t a" and "pmem (bitmap_clear (of_nat j) t) a = pmem t a"
proof -
  have "rsv s * 4096 \<le> unat a" using assms(4) by linarith
  then have "a \<noteq> bitmap_4k s + of_nat (j div 8)" using bitmap_byte_lt [OF assms(1,3)] by auto
  moreover have "j < 1048576" using assms(1,3) by (simp add: pmm_inv_def)
  ultimately show "pmem (bitmap_set (of_nat j) t) a = pmem t a" and "pmem (bitmap_clear (of_nat j) t) a = pmem t a"
    using assms(2) by (simp_all add: bitmap_set_def bitmap_clear_def Let_def block_index)
qed

section \<open>Single pages\<close>

lemma for_brk_cong:
  "(\<And>i s. i \<in> set is \<Longrightarrow> f i s = g i s) \<Longrightarrow> for_brk is f s = for_brk is g s"
  by (induction "is" arbitrary: s) (auto split: sum.splits)

lemma pmm_alloc_page_eq:
  assumes "pmm_inv s"
  shows "pmm_alloc_page s = (case find (\<lambda>i. \<not> used_block s i) [0..<nblocks s] of
      None \<Rightarrow> (0, s)
    | Some i \<Rightarrow> (of_nat i * block_size, (bitmap_set (of_nat i) s)\<lparr>free_blocks := free_blocks s - 1,
         pmem := memset (pmem (bitmap_set (of_nat i) s)) (of_nat i * block_size) 0 block_size\<rparr>))"
proof -
  have n: "nblocks s < 1048576" and "pmm_initialized s" using assms by (simp_all add: pmm_inv_def)
  have "find (\<lambda>i. \<not> bitmap_test (of_nat i) s) [0..<nblocks s] = find (\<lambda>i. \<not> used_block s i) [0..<nblocks s]"
    using n by (intro find_cong) (auto simp: bitmap_test_used)
  then show ?thesis
    using \<open>pmm_initialized s\<close> unfolding pmm_alloc_page_def Let_def
    by (subst for_brk_find) (auto split: option.split)
qed

lemma pmm_alloc_page_cases:
  assumes "pmm_inv s"
  obtains (none) "free_set s = {}" "pmm_alloc_page s = (0, s)"
  | (page) i t where "i \<in> free_set s" "\<forall>j\<in>free_set s. i \<le> j" "pmm_alloc_page s = (of_nat i * block_size, t)"
      "free_set t = free_set s - {i}" "pmm_inv t" "bitmap_4k t = bitmap_4k s" "total_blocks t = total_blocks s"
      "\<And>a. unat a div 4096 = i \<Longrightarrow> pmem t a = 0"
      "\<And>a. unat a div 4096 \<noteq> i \<Longrightarrow> unat a div 4096 \<ge> rsv s \<Longrightarrow> pmem t a = pmem s a"
proof (cases "find (\<lambda>i. \<not> used_block s i) [0..<nblocks s]")
  case None
  then have "free_set s = {}" by (auto simp: find_None_upt free_set_def)
  moreover have "pmm_alloc_page s = (0, s)" using None assms by (simp add: pmm_alloc_page_eq)
  ultimately show ?thesis by (rule none)
next
  case (Some i)
  let ?u = "(bitmap_set (of_nat i) s)\<lparr>free_blocks := free_blocks s - 1\<rparr>"
  let ?t = "?u\<lparr>pmem := memset (pmem ?u) (of_nat i * block_size) 0 block_size\<rparr>"
  have i: "i \<in> free_set s" "\<forall>j\<in>free_set s. i \<le> j"
    using Some by (auto simp: find_Some_upt free_set_def not_less [symmetric])
  note b = free_set_rsv [OF assms i(1)]
  have u: "used_block ?t j = (j = i \<or> used_block s j)" if "j < nblocks s" for j
  proof -
    have "used_block ?t j = used_block ?u j"
      by (rule used_memset [OF assms, where n = 1]) (use b that in \<open>auto simp: block_size_def\<close>)
    also have "\<dots> = used_block (bitmap_set (of_nat i) s) j" by (simp add: used_block_def)
    finally show ?thesis using used_bitmap_set [of j i s] that b assms by (simp add: pmm_inv_def)
  qed
  have fs: "free_set ?t = free_set s - {i}" using u by (auto simp: free_set_def)
  have "unat (free_blocks s) = card (free_set s)" "0 < card (free_set s)"
    using assms i(1) by (auto simp: pmm_inv_def card_gt_0_iff)
  then have fb: "unat (free_blocks s - 1) = card (free_set s - {i})"
    using i(1) by (simp add: unat_sub_u32 card_Diff_singleton)
  have inv: "pmm_inv ?t" using assms u fs fb by (auto simp: pmm_inv_def rsv_def bitmap_bytes_def)
  have rng: "in_range a (of_nat i * block_size) 4096 \<longleftrightarrow> unat a div 4096 = i" for a
    using b by (subst in_range_ordered) (auto simp: unat_block_addr)
  show ?thesis
  proof (rule page [OF i _ fs inv])
    show "pmm_alloc_page s = (of_nat i * block_size, ?t)" using assms Some by (simp add: pmm_alloc_page_eq)
    show "pmem ?t a = 0" if "unat a div 4096 = i" for a
      using that rng by (simp add: memset_apply block_size_def)
    show "pmem ?t a = pmem s a" if "unat a div 4096 \<noteq> i" "unat a div 4096 \<ge> rsv s" for a
      using that rng bitmap_frame(1) [OF assms refl, of i a] b by (simp add: memset_apply block_size_def)
  qed simp_all
qed

section \<open>Steps on the invariant\<close>

lemma clear_step:
  assumes "pmm_inv s" and "rsv s \<le> i" and "i < nblocks s" and "used_block s i"
  defines "t \<equiv> (bitmap_clear (of_nat i) s)\<lparr>free_blocks := free_blocks s + 1\<rparr>"
  shows "pmm_inv t" and "free_set t = insert i (free_set s)" and "rsv t = rsv s"
    and "total_blocks t = total_blocks s" and "bitmap_4k t = bitmap_4k s"
proof -
  show tb: "total_blocks t = total_blocks s" "bitmap_4k t = bitmap_4k s" by (simp_all add: t_def)
  show r: "rsv t = rsv s" by (simp add: rsv_def bitmap_bytes_def t_def)
  have u: "used_block t j = (j \<noteq> i \<and> used_block s j)" if "j < nblocks s" for j
    using used_bitmap_clear [of j i s] that assms(1,3) by (simp add: t_def used_block_def pmm_inv_def)
  show fs: "free_set t = insert i (free_set s)"
    using u assms(3) by (auto simp: free_set_def tb)
  have "card (free_set t) = card (free_set s) + 1" using fs assms(4) by (simp add: free_set_def)
  moreover have "card (free_set t) \<le> nblocks s" using card_free_set [of t] by (simp add: t_def)
  ultimately have "unat (free_blocks t) = card (free_set t)"
    using assms(1) by (simp add: t_def pmm_inv_def unat_add_u32)
  then show "pmm_inv t" using assms(1,2) u r by (auto simp: pmm_inv_def t_def bitmap_bytes_def)
qed

lemma set_step:
  assumes "pmm_inv s" and "i < nblocks s" and "\<not> used_block s i"
  defines "t \<equiv> (bitmap_set (of_nat i) s)\<lparr>free_blocks := free_blocks s - 1\<rparr>"
  shows "pmm_inv t" and "free_set t = free_set s - {i}" and "rsv t = rsv s"
    and "total_blocks t = total_blocks s" and "bitmap_4k t = bitmap_4k s"
proof -
  show tb: "total_blocks t = total_blocks s" "bitmap_4k t = bitmap_4k s" by (simp_all add: t_def)
  show r: "rsv t = rsv s" by (simp add: rsv_def bitmap_bytes_def t_def)
  have u: "used_block t j = (j = i \<or> used_block s j)" if "j < nblocks s" for j
    using used_bitmap_set [of j i s] that assms(1,2) by (simp add: t_def used_block_def pmm_inv_def)
  show fs: "free_set t = free_set s - {i}" using u by (auto simp: free_set_def tb)
  have "i \<in> free_set s" using assms(2,3) by (simp add: free_set_def)
  then have "card (free_set t) = card (free_set s) - 1" "0 < card (free_set s)"
    using fs by (auto simp: card_gt_0_iff)
  then have "unat (free_blocks t) = card (free_set t)"
    using assms(1) by (simp add: t_def pmm_inv_def unat_sub_u32)
  then show "pmm_inv t" using assms(1) u r by (auto simp: pmm_inv_def t_def bitmap_bytes_def)
qed

lemma pmm_free_page_live:
  assumes "pmm_inv s" and "rsv s \<le> i" and "i < nblocks s"
  shows "pmm_inv (pmm_free_page (of_nat i * block_size) s)"
    and "free_set (pmm_free_page (of_nat i * block_size) s) = insert i (free_set s)"
    and "rsv (pmm_free_page (of_nat i * block_size) s) = rsv s"
    and "nblocks (pmm_free_page (of_nat i * block_size) s) = nblocks s"
proof -
  have n: "nblocks s < 1048576" "pmm_initialized s" using assms(1) by (simp_all add: pmm_inv_def)
  then have "unat (of_nat i * block_size div block_size) = i"
    using assms(3) unat_block_addr [of i] by (simp add: unat_div) (simp add: block_size_def)
  then have b: "of_nat i * block_size div block_size = of_nat i" using assms(3) n by (simp add: unat_eq_u32)
  have "\<not> total_blocks s \<le> of_nat i" using assms(3) n by (simp add: word_le_nat_alt)
  then have eq: "pmm_free_page (of_nat i * block_size) s = (if used_block s i
      then (bitmap_clear (of_nat i) s)\<lparr>free_blocks := free_blocks s + 1\<rparr> else s)"
    using n assms(3) by (simp add: pmm_free_page_def b bitmap_test_used)
  show "pmm_inv (pmm_free_page (of_nat i * block_size) s)"
    and "free_set (pmm_free_page (of_nat i * block_size) s) = insert i (free_set s)"
    and "rsv (pmm_free_page (of_nat i * block_size) s) = rsv s"
    and "nblocks (pmm_free_page (of_nat i * block_size) s) = nblocks s"
    using clear_step [OF assms] assms unfolding eq by (auto simp: free_set_def)
qed

text \<open>The loops of \<^verbatim>\<open>pmm_mark_used\<close> and \<^verbatim>\<open>pmm_free_pages\<close>.\<close>

lemma mark_loop:
  assumes "pmm_inv s" and "\<forall>i\<in>set is. i < nblocks s"
  defines "t \<equiv> fold (\<lambda>i s. if \<not> bitmap_test (of_nat i) s
      then (bitmap_set (of_nat i) s)\<lparr>free_blocks := free_blocks s - 1\<rparr> else s) is s"
  shows "pmm_inv t \<and> free_set t = free_set s - set is \<and> rsv t = rsv s \<and>
    total_blocks t = total_blocks s \<and> bitmap_4k t = bitmap_4k s"
  using assms(1,2) unfolding t_def
proof (induction "is" arbitrary: s)
  case (Cons i "is")
  let ?s = "if \<not> bitmap_test (of_nat i) s
      then (bitmap_set (of_nat i) s)\<lparr>free_blocks := free_blocks s - 1\<rparr> else s"
  have i: "i < nblocks s" "bitmap_test (of_nat i) s = used_block s i"
    using Cons.prems by (auto simp: pmm_inv_def bitmap_test_used)
  have s: "pmm_inv ?s \<and> free_set ?s = free_set s - {i} \<and> rsv ?s = rsv s \<and>
      total_blocks ?s = total_blocks s \<and> bitmap_4k ?s = bitmap_4k s"
    using set_step [OF Cons.prems(1) i(1)] Cons.prems(1) by (auto simp: i free_set_def)
  then have "\<forall>i\<in>set is. i < nblocks ?s" using Cons.prems(2) by simp
  with Cons.IH [of ?s] s show ?case by auto
qed simp

lemma free_loop:
  assumes "pmm_inv s" and "\<forall>i\<in>set is. rsv s \<le> i \<and> i < 4294967296"
  defines "t \<equiv> fold (\<lambda>i s. if of_nat i < total_blocks s \<and> bitmap_test (of_nat i) s
      then (bitmap_clear (of_nat i) s)\<lparr>free_blocks := free_blocks s + 1\<rparr> else s) is s"
  shows "pmm_inv t \<and> free_set t = free_set s \<union> {i\<in>set is. i < nblocks s} \<and> rsv t = rsv s \<and>
    total_blocks t = total_blocks s \<and> bitmap_4k t = bitmap_4k s"
  using assms(1,2) unfolding t_def
proof (induction "is" arbitrary: s)
  case (Cons i "is")
  let ?s = "if of_nat i < total_blocks s \<and> bitmap_test (of_nat i) s
      then (bitmap_clear (of_nat i) s)\<lparr>free_blocks := free_blocks s + 1\<rparr> else s"
  have i: "rsv s \<le> i" "(of_nat i < total_blocks s) = (i < nblocks s)"
    using Cons.prems(2) by (auto simp: word_less_nat_alt)
  have b: "i < nblocks s \<Longrightarrow> bitmap_test (of_nat i) s = used_block s i"
    using Cons.prems(1) by (auto simp: pmm_inv_def bitmap_test_used)
  have s: "pmm_inv ?s \<and> free_set ?s = free_set s \<union> {j. j = i \<and> j < nblocks s} \<and> rsv ?s = rsv s \<and>
      total_blocks ?s = total_blocks s \<and> bitmap_4k ?s = bitmap_4k s"
    using clear_step [OF Cons.prems(1) i(1)] Cons.prems(1) b by (auto simp: i free_set_def)
  then have "\<forall>i\<in>set is. rsv ?s \<le> i \<and> i < 4294967296" using Cons.prems(2) by simp
  with Cons.IH [of ?s] s show ?case by auto
qed simp

text \<open>A range that is marked used holds no free block any more; nothing else changes.\<close>

lemma pmm_mark_used_spec:
  assumes "pmm_inv s" and "paddr \<noteq> 0" and "sz \<noteq> 0" and "unat paddr + unat sz + 4095 < 4294967296"
  shows "pmm_inv (pmm_mark_used paddr sz s) \<and> free_set (pmm_mark_used paddr sz s) =
    free_set s - {unat paddr div 4096..<(unat paddr + unat sz + 4095) div 4096}"
proof -
  let ?e = "(paddr + sz + block_size - 1) div block_size"
  let ?b = "if total_blocks s < ?e then total_blocks s else ?e"
  have "paddr + sz + block_size - 1 = paddr + sz + 4095" by (simp add: block_size_def)
  then have e: "unat ?e = (unat paddr + unat sz + 4095) div 4096"
    using assms(4) by (simp add: block_size_def unat_div unat_add_u32)
  have b: "unat (paddr div block_size) = unat paddr div 4096" by (simp add: block_size_def unat_div)
  let ?is = "[unat (paddr div block_size)..<unat ?b]"
  have "pmm_mark_used paddr sz s = fold (\<lambda>i s. if \<not> bitmap_test (of_nat i) s
      then (bitmap_set (of_nat i) s)\<lparr>free_blocks := free_blocks s - 1\<rparr> else s) ?is s"
    using assms(1-3) by (simp add: pmm_mark_used_def pmm_inv_def Let_def)
  moreover have "\<forall>i\<in>set ?is. i < nblocks s" by (auto simp: word_less_nat_alt split: if_splits)
  ultimately have "pmm_inv (pmm_mark_used paddr sz s)" "free_set (pmm_mark_used paddr sz s) = free_set s - set ?is"
    using mark_loop [OF assms(1), of ?is] by simp_all
  moreover have "free_set s - set ?is = free_set s - {unat paddr div 4096..<unat ?e}"
    by (auto simp: free_set_def b word_less_nat_alt split: if_splits)
  ultimately show ?thesis by (simp add: e)
qed

section \<open>Runs of pages\<close>

text \<open>\<open>run s n i\<close>: the \<open>n\<close> blocks from \<open>i\<close> on exist and are free.\<close>

definition run :: "pmm \<Rightarrow> nat \<Rightarrow> nat \<Rightarrow> bool" where
  "run s n i \<longleftrightarrow> i + n \<le> nblocks s \<and> (\<forall>j. i \<le> j \<longrightarrow> j < i + n \<longrightarrow> \<not> used_block s j)"

text \<open>
  What the scan knows after \<open>k\<close> blocks: the last \<open>f\<close> of them are a maximal free run that is still
  too short, and no \<open>n\<close> consecutive free blocks end below \<open>k\<close>.
\<close>

definition scan_inv :: "pmm \<Rightarrow> nat \<Rightarrow> nat \<Rightarrow> u32 \<times> u32 \<times> pmm \<Rightarrow> bool" where
  "scan_inv s n k = (\<lambda>(start, found, t). t = s \<and> unat found \<le> k \<and> unat found < n \<and>
     (\<forall>j. k - unat found \<le> j \<longrightarrow> j < k \<longrightarrow> \<not> used_block s j) \<and>
     (unat found < k \<longrightarrow> used_block s (k - unat found - 1)) \<and>
     (0 < unat found \<longrightarrow> start = of_nat (k - unat found)) \<and>
     (\<forall>i. i + n \<le> k \<longrightarrow> (\<exists>j. i \<le> j \<and> j < i + n \<and> used_block s j)))"

definition take_run :: "u32 \<Rightarrow> nat \<Rightarrow> pmm \<Rightarrow> u32 \<times> pmm" where
  "take_run num_pages i s =
     (let t = fold (\<lambda>j. bitmap_set (of_nat j)) [i..<i + unat num_pages] s;
          t = t\<lparr>free_blocks := free_blocks t - num_pages\<rparr>
      in (of_nat i * block_size,
          t\<lparr>pmem := memset (pmem t) (of_nat i * block_size) 0 (num_pages * block_size)\<rparr>))"

lemma scan_step:
  assumes "scan_inv s (unat np) k (st, f, t)" and "k < nblocks s" and "nblocks s < 1048576"
  shows "case scan_body np k (st, f, t) of
      Inl x \<Rightarrow> scan_inv s (unat np) (Suc k) x
    | Inr r \<Rightarrow> \<exists>i. i + unat np = Suc k \<and> run s (unat np) i \<and> r = take_run np i s"
proof -
  let ?n = "unat np" and ?f = "unat f"
  have a: "t = s" "?f \<le> k" "?f < ?n" "\<And>j. k - ?f \<le> j \<Longrightarrow> j < k \<Longrightarrow> \<not> used_block s j"
    "?f < k \<Longrightarrow> used_block s (k - ?f - 1)" "0 < ?f \<Longrightarrow> st = of_nat (k - ?f)"
    "\<And>i. i + ?n \<le> k \<Longrightarrow> \<exists>j. i \<le> j \<and> j < i + ?n \<and> used_block s j"
    using assms(1) by (auto simp: scan_inv_def)
  have test: "bitmap_test (of_nat k) t = used_block s k" using assms a(1) by (simp add: bitmap_test_used)
  show ?thesis
  proof (cases "used_block s k")
    case True
    have "\<exists>j. i \<le> j \<and> j < i + ?n \<and> used_block s j" if "i + ?n \<le> Suc k" for i
      using that a(7) [of i] True a(3) by (cases "i + ?n = Suc k") (auto intro!: exI [of _ k])
    with True test show ?thesis using a(1,3) by (auto simp: scan_body_def scan_inv_def)
  next
    case False
    let ?st = "if f = 0 then of_nat k else st"
    have st: "?st = of_nat (k - ?f)" using a(6) by (cases "f = 0") (auto simp: unat_gt_0)
    have f1: "unat (f + 1) = ?f + 1" using a(2) assms(2,3) by (simp add: unat_add_u32)
    have free: "\<not> used_block s j" if "k - ?f \<le> j" "j < Suc k" for j
      using that a(4) [of j] False by (cases "j = k") auto
    show ?thesis
    proof (cases "f + 1 = np")
      case True
      then have n: "?n = ?f + 1" using f1 by simp
      define i where "i = k - ?f"
      have "run s ?n i" using free n a(2) assms(2) by (simp add: run_def i_def)
      moreover have i: "i + ?n = Suc k" "?st = of_nat i" using n a(2) st by (simp_all add: i_def)
      moreover from i have "unat (of_nat i + np) = i + ?n" "unat (of_nat i :: u32) = i"
        using assms(2,3) by (simp_all add: unat_add_u32)
      ultimately show ?thesis
        using test False True a(1) by (auto simp: scan_body_def Let_def take_run_def intro!: exI [of _ i])
    next
      case ne: False
      then have lt: "?f + 1 < ?n" using a(3) f1 by (metis Suc_eq_plus1 Suc_lessI unat_eq_u32)
      have "\<exists>j. i \<le> j \<and> j < i + ?n \<and> used_block s j" if "i + ?n \<le> Suc k" for i
        using that a(7) [of i] a(5) lt by (cases "i + ?n = Suc k") (auto intro!: exI [of _ "k - ?f - 1"])
      then show ?thesis
        using test False ne st a lt free f1 by (auto simp: scan_body_def Let_def scan_inv_def)
    qed
  qed
qed

lemma pmm_alloc_pages_eq:
  assumes "pmm_inv s" and "np \<noteq> 0"
  shows "pmm_alloc_pages np s = (case find (run s (unat np)) [0..<nblocks s] of
      None \<Rightarrow> (0, s) | Some i \<Rightarrow> take_run np i s)"
proof -
  let ?N = "nblocks s" and ?n = "unat np"
  let ?I = "\<lambda>pre. scan_inv s ?n (length pre)"
  have N: "?N < 1048576" "pmm_initialized s" and n: "0 < ?n"
    using assms by (simp_all add: pmm_inv_def unat_gt_0)
  have start: "?I [] (0, 0, s)" using n by (simp add: scan_inv_def)
  have step: "case scan_body np k x of Inl y \<Rightarrow> ?I (pre @ [k]) y
      | Inr r \<Rightarrow> \<exists>i. i + ?n = Suc k \<and> run s ?n i \<and> r = take_run np i s"
    and idx: "length pre = k" "k < ?N"
    if "[0..<?N] = pre @ k # post" "?I pre x" for pre k post x
  proof -
    have "[0..<?N] ! length pre = k" "length pre < length [0..<?N]" unfolding that(1) by simp_all
    then show k: "length pre = k" "k < ?N" by simp_all
    show "case scan_body np k x of Inl y \<Rightarrow> ?I (pre @ [k]) y
      | Inr r \<Rightarrow> \<exists>i. i + ?n = Suc k \<and> run s ?n i \<and> r = take_run np i s"
      using scan_step [of s np k "fst x" "fst (snd x)" "snd (snd x)"] that(2) k N(1) by (auto split: sum.splits)
  qed
  have cont: "?I (pre @ [k]) y" if "[0..<?N] = pre @ k # post" "?I pre x" "scan_body np k x = Inl y" for pre k post x y
    using step [OF that(1,2)] that(3) by simp
  show ?thesis
  proof (cases "for_brk [0..<?N] (scan_body np) (0, 0, s)")
    case (Inl x)
    have "?I [0..<?N] x" by (rule for_brk_inv [where I = ?I, OF start cont Inl])
    then have "snd (snd x) = s" and "\<not> run s ?n i" for i by (auto simp: scan_inv_def run_def)
    moreover from this(2) have "find (run s ?n) [0..<?N] = None" by (simp add: find_None_iff)
    ultimately show ?thesis using Inl N assms by (auto simp: pmm_alloc_pages_def split: prod.split)
  next
    case (Inr r)
    obtain pre k post x where d: "[0..<?N] = pre @ k # post" "?I pre x" "scan_body np k x = Inr r"
      by (rule for_brk_exit [where I = ?I, OF start cont Inr])
    obtain i where i: "i + ?n = Suc k" "run s ?n i" "r = take_run np i s"
      using step [OF d(1,2)] d(3) by auto
    have "\<not> run s ?n j" if "j < i" for j
      using d(2) idx [OF d(1,2)] that i(1) by (auto simp: scan_inv_def run_def)
    then have "find (run s ?n) [0..<?N] = Some i"
      using i(1,2) idx [OF d(1,2)] n by (simp add: find_Some_upt)
    then show ?thesis using Inr N assms i(3) by (simp add: pmm_alloc_pages_def)
  qed
qed

lemma fold_set_used:
  "\<forall>i\<in>set is. i < 1048576 \<Longrightarrow> j < 1048576 \<Longrightarrow>
   used_block (fold (\<lambda>i. bitmap_set (of_nat i)) is s) j \<longleftrightarrow> j \<in> set is \<or> used_block s j"
  by (induction "is" arbitrary: s) (auto simp: used_bitmap_set)

lemma fold_set_fields [simp]:
  "bitmap_4k (fold (\<lambda>i. bitmap_set (of_nat i)) is s) = bitmap_4k s"
  "total_blocks (fold (\<lambda>i. bitmap_set (of_nat i)) is s) = total_blocks s"
  "free_blocks (fold (\<lambda>i. bitmap_set (of_nat i)) is s) = free_blocks s"
  "pmm_initialized (fold (\<lambda>i. bitmap_set (of_nat i)) is s) = pmm_initialized s"
  by (induction "is" arbitrary: s) auto

lemma fold_set_frame:
  "pmm_inv s \<Longrightarrow> bitmap_4k t = bitmap_4k s \<Longrightarrow> \<forall>i\<in>set is. i < nblocks s \<Longrightarrow> rsv s \<le> unat a div 4096 \<Longrightarrow>
   pmem (fold (\<lambda>i. bitmap_set (of_nat i)) is t) a = pmem t a"
  by (induction "is" arbitrary: t) (auto simp: bitmap_frame)

lemma run_rsv:
  assumes "pmm_inv s" and "run s n i" and "0 < n"
  shows "rsv s \<le> i" and "i + n \<le> nblocks s" and "{i..<i + n} \<subseteq> free_set s"
proof -
  show "i + n \<le> nblocks s" using assms(2) by (simp add: run_def)
  show sub: "{i..<i + n} \<subseteq> free_set s" using assms(2) by (auto simp: run_def free_set_def)
  then have "i \<in> free_set s" using assms(3) by auto
  then show "rsv s \<le> i" using free_set_rsv [OF assms(1)] by blast
qed

lemma take_run_spec:
  assumes "pmm_inv s" and "run s (unat np) i" and "0 < unat np" and t: "t = snd (take_run np i s)"
  shows "pmm_inv t" and "free_set t = free_set s - {i..<i + unat np}"
    and "\<And>a. i \<le> unat a div 4096 \<Longrightarrow> unat a div 4096 < i + unat np \<Longrightarrow> pmem t a = 0"
    and "\<And>a. rsv s \<le> unat a div 4096 \<Longrightarrow> \<not> (i \<le> unat a div 4096 \<and> unat a div 4096 < i + unat np) \<Longrightarrow>
      pmem t a = pmem s a"
proof -
  let ?n = "unat np" and ?u = "fold (\<lambda>j. bitmap_set (of_nat j)) [i..<i + unat np] s"
  note r = run_rsv [OF assms(1-3)]
  have N: "nblocks s < 1048576" using assms(1) by (simp add: pmm_inv_def)
  have len: "unat (np * block_size) = ?n * 4096"
    using r(2) N by (simp add: block_size_def unat_mult_u32)
  have t': "t = ?u\<lparr>free_blocks := free_blocks s - np,
      pmem := memset (pmem ?u) (of_nat i * block_size) 0 (np * block_size)\<rparr>"
    by (simp add: t take_run_def Let_def)
  have u: "used_block t j = (j \<in> {i..<i + ?n} \<or> used_block s j)" if "j < nblocks s" for j
  proof -
    have "used_block t j = used_block (?u\<lparr>free_blocks := free_blocks s - np\<rparr>) j"
      using used_memset [OF assms(1), of "?u\<lparr>free_blocks := free_blocks s - np\<rparr>" i ?n j] r that len t' by simp
    also have "\<dots> = used_block ?u j" by (simp add: used_block_def)
    finally show ?thesis using fold_set_used [of "[i..<i + ?n]" j s] r(2) N that by auto
  qed
  have tb: "total_blocks t = total_blocks s" "bitmap_4k t = bitmap_4k s" by (simp_all add: t')
  show fs: "free_set t = free_set s - {i..<i + ?n}" using u by (auto simp: free_set_def tb)
  have "card (free_set t) = card (free_set s) - ?n" "?n \<le> card (free_set s)"
    using fs r(3) card_mono [OF _ r(3)] by (simp_all add: card_Diff_subset)
  then have "unat (free_blocks t) = card (free_set t)"
    using assms(1) by (simp add: t' pmm_inv_def unat_sub_u32)
  then show "pmm_inv t" using assms(1) u tb by (auto simp: pmm_inv_def rsv_def bitmap_bytes_def t')
  have rng: "in_range a (of_nat i * block_size) (?n * 4096) \<longleftrightarrow>
      i \<le> unat a div 4096 \<and> unat a div 4096 < i + ?n" for a
    using r(2) N unat_block_addr [of i]
    by (subst in_range_ordered) (auto simp: less_eq_div_iff_mult_less_eq div_less_iff_less_mult algebra_simps)
  show "pmem t a = 0" if "i \<le> unat a div 4096" "unat a div 4096 < i + ?n" for a
    using that rng len by (simp add: t' memset_apply)
  show "pmem t a = pmem s a"
    if "rsv s \<le> unat a div 4096" "\<not> (i \<le> unat a div 4096 \<and> unat a div 4096 < i + ?n)" for a
    using that rng len fold_set_frame [OF assms(1) refl _ that(1), of "[i..<i + ?n]"] r(2)
    by (auto simp: t' memset_apply)
qed

section \<open>Initialisation\<close>

lemma page_align_nat:
  assumes "unat x + 4095 < 4294967296"
  shows "unat (PAGE_ALIGN x) = (unat x + 4095) div 4096 * 4096"
proof -
  have "PAGE_ALIGN x = (x + 4095) AND NOT (mask 12)"
    by (simp add: PAGE_ALIGN_def mask_eq_exp_minus_1 algebra_simps)
  then show ?thesis using assms by (simp add: unat_and_not_mask unat_add_u32)
qed

lemma clear_loop:
  assumes "bitmap_4k s = b" and "total_blocks s = tb" and "\<forall>i\<in>set is. i < 1048576" and "distinct is"
    and "unat (free_blocks s) + length is < 4294967296"
  defines "t \<equiv> fold (\<lambda>i s. (bitmap_clear (of_nat i) s)\<lparr>free_blocks := free_blocks s + 1\<rparr>) is s"
  shows "bitmap_4k t = b \<and> total_blocks t = tb \<and> unat (free_blocks t) = unat (free_blocks s) + length is \<and>
    (\<forall>j<1048576. used_block t j \<longleftrightarrow> j \<notin> set is \<and> used_block s j)"
  using assms(1-5) unfolding t_def
proof (induction "is" arbitrary: s)
  case (Cons i "is")
  let ?s = "(bitmap_clear (of_nat i) s)\<lparr>free_blocks := free_blocks s + 1\<rparr>"
  have "unat (free_blocks ?s) = unat (free_blocks s) + 1" using Cons.prems(5) by (simp add: unat_add_u32)
  moreover have "used_block ?s j = (j \<noteq> i \<and> used_block s j)" if "j < 1048576" for j
    using used_bitmap_clear [of j i s] that Cons.prems(3) by (simp add: used_block_def)
  ultimately show ?case using Cons.IH [of ?s] Cons.prems by auto
qed simp

lemma all_bits_set: "k < 8 \<Longrightarrow> bit (0xFF :: u8) k"
proof -
  assume "k < 8"
  then have "bit (mask 8 :: u8) k" by (simp add: bit_simps)
  moreover have "(0xFF :: u8) = mask 8" by (simp add: mask_eq_exp_minus_1)
  ultimately show ?thesis by simp
qed

text \<open>The state a fresh allocator needs: a lock left in the pool and a bitmap address below the top.\<close>

definition pmm_placed :: "u32 \<Rightarrow> pmm \<Rightarrow> bool" where
  "pmm_placed bitmap_pa s \<longleftrightarrow> \<not> pmm_initialized s \<and> bitmap_pa \<noteq> 0 \<and>
     unat bitmap_pa + 4095 + 131072 < 4294967296 \<and> fst (spinlock_alloc (plocks s)) \<noteq> None"

lemma pmm_init_inv:
  assumes "pmm_placed bitmap_pa s" and t_def: "t = pmm_init total_memory bitmap_pa s"
  shows "pmm_inv t" and "free_set t = {rsv t..<nblocks t}"
    and "nblocks t = unat total_memory div 4096" and "bitmap_4k t = PAGE_ALIGN bitmap_pa"
proof -
  obtain l ls where l: "spinlock_alloc (plocks s) = (Some l, ls)"
    using assms(1) by (cases "spinlock_alloc (plocks s)") (auto simp: pmm_placed_def)
  define n where "n = total_memory div block_size"
  define b where "b = PAGE_ALIGN bitmap_pa"
  define u where "u = s\<lparr>pmm_lock := Some l, plocks := ls, total_blocks := n, bitmap_4k := b,
    pmem := memset (pmem s) b 0xFF (DIV_ROUND_UP n 8), free_blocks := 0\<rparr>"
  have n: "unat n = unat total_memory div 4096" "unat n < 1048576"
    using unat_u32_lt [of total_memory] by (simp_all add: n_def block_size_def unat_div div_less_iff_less_mult)
  have b: "unat b = (unat bitmap_pa + 4095) div 4096 * 4096"
    using assms(1) by (simp add: b_def page_align_nat pmm_placed_def)
  have bp: "4096 \<le> unat b" "unat b + 131072 \<le> 4294967296"
  proof -
    have "0 < unat bitmap_pa" using assms(1) by (simp add: pmm_placed_def unat_gt_0)
    then have "1 \<le> (unat bitmap_pa + 4095) div 4096" by linarith
    then show "4096 \<le> unat b" by (simp add: b)
    have "(unat bitmap_pa + 4095) div 4096 < 1048545"
      using assms(1) by (simp add: pmm_placed_def div_less_iff_less_mult)
    then show "unat b + 131072 \<le> 4294967296" by (simp add: b)
  qed
  have bb: "bitmap_bytes u = (unat n + 7) div 8" "bitmap_bytes u \<le> 131072"
    using n(2) by (simp_all add: bitmap_bytes_def u_def)
  have all: "used_block u j" if "j < unat n" for j
  proof -
    have "in_range (b + of_nat (j div 8)) b ((unat n + 7) div 8)" using that n(2) by (simp add: in_range_def)
    then show ?thesis using n(2) all_bits_set [of "j mod 8"]
      by (simp add: used_block_def u_def memset_apply div_round_up_8)
  qed
  let ?is = "[rsv u..<unat n]"
  define v where "v = fold (\<lambda>i s. (bitmap_clear (of_nat i) s)\<lparr>free_blocks := free_blocks s + 1\<rparr>) ?is u"
  have v: "bitmap_4k v = b" "total_blocks v = n" "unat (free_blocks v) = unat n - rsv u"
    "\<And>j. j < 1048576 \<Longrightarrow> used_block v j \<longleftrightarrow> j \<notin> set ?is \<and> used_block u j"
    using clear_loop [of u b n ?is] n(2) by (auto simp: v_def u_def)
  have t: "t = v\<lparr>pmm_initialized := True\<rparr>"
    using assms(1) l unat_reserve_blocks [of u] n(2)
    by (simp add: t_def pmm_init_def pmm_placed_def Let_def v_def u_def n_def b_def)
  have r: "rsv t = rsv u" by (simp add: rsv_def bitmap_bytes_def t v u_def)
  have used: "used_block t j \<longleftrightarrow> j < rsv t" if "j < unat n" for j
    using v(4) [of j] that n(2) all [OF that] r by (auto simp: t used_block_def)
  show fs: "free_set t = {rsv t..<nblocks t}" using used by (auto simp: free_set_def t v)
  show "nblocks t = unat total_memory div 4096" "bitmap_4k t = PAGE_ALIGN bitmap_pa"
    using n(1) by (simp_all add: t v b_def)
  have "unat (free_blocks t) = card (free_set t)" using v(3) r fs by (simp add: t v)
  then show "pmm_inv t"
    using used n(2) bp b bb by (auto simp: pmm_inv_def t v bitmap_bytes_def u_def)
qed

section \<open>The page allocator as an allocator\<close>

definition page_opt :: "unit \<Rightarrow> pmm \<Rightarrow> u32 option \<times> pmm" where
  "page_opt _ s = (let (r, t) = pmm_alloc_page s in (if r = 0 then None else Some r, t))"

definition live_pages :: "pmm \<Rightarrow> u32 set" where
  "live_pages s = (\<lambda>i. of_nat i * block_size) ` ({rsv s..<nblocks s} - free_set s)"

lemma block_addr_inj: "i < 1048576 \<Longrightarrow> j < 1048576 \<Longrightarrow>
    of_nat i * block_size = of_nat j * block_size \<longleftrightarrow> i = j"
  by (metis mult_right_cancel unat_block_addr zero_neq_numeral)

lemma live_pages_iff:
  "pmm_inv s \<Longrightarrow> i < 1048576 \<Longrightarrow> of_nat i * block_size \<in> live_pages s \<longleftrightarrow> i \<in> {rsv s..<nblocks s} - free_set s"
  by (auto simp: live_pages_def pmm_inv_def block_addr_inj)

lemma page_opt_cases:
  assumes "pmm_inv s"
  obtains (none) "page_opt q s = (None, s)"
  | (page) i t where "i \<in> free_set s" "page_opt q s = (Some (of_nat i * block_size), t)" "pmm_inv t"
      "free_set t = free_set s - {i}" "rsv t = rsv s" "nblocks t = nblocks s"
proof (cases rule: pmm_alloc_page_cases [OF assms, case_names none page])
  case none
  then show ?thesis using that(1) by (simp add: page_opt_def)
next
  case (page i t)
  have i: "rsv s \<le> i" "i < 1048576" using free_set_rsv [OF assms page(1)] by simp_all
  then have "0 < unat (of_nat i * block_size)" using unat_block_addr rsv_pos [OF assms] by simp
  then have "of_nat i * block_size \<noteq> 0" by auto
  then have "page_opt q s = (Some (of_nat i * block_size), t)" using page(3) by (simp add: page_opt_def)
  moreover have "rsv t = rsv s" "nblocks t = nblocks s"
    using page(6,7) by (simp_all add: rsv_def bitmap_bytes_def)
  ultimately show ?thesis using that(2) page by blast
qed

interpretation pages: handle_allocator page_opt pmm_free_page live_pages pmm_inv
proof unfold_locales
  fix s s' q r h
  assume s: "pmm_inv s"
  show "pmm_inv s'" if "page_opt q s = (r, s')"
    by (cases rule: page_opt_cases [OF s, of q, case_names none page]) (use that s in auto)
  show "h \<notin> live_pages s" if "page_opt q s = (Some h, s')"
  proof (cases rule: page_opt_cases [OF s, of q, case_names none page])
    case (page i t)
    then show ?thesis using that live_pages_iff [OF s, of i] free_set_rsv [OF s page(1)] by auto
  qed (use that in simp)
  show "live_pages s' = insert h (live_pages s)" if "page_opt q s = (Some h, s')"
  proof (cases rule: page_opt_cases [OF s, of q, case_names none page])
    case (page i t)
    have "{rsv t..<nblocks t} - free_set t = insert i ({rsv s..<nblocks s} - free_set s)"
      unfolding page(4-6) using page(1) free_set_rsv [OF s page(1)] by fastforce
    then show ?thesis using that page(2) by (simp add: live_pages_def)
  qed (use that in simp)
  show "live_pages s' = live_pages s" if "page_opt q s = (None, s')"
    by (cases rule: page_opt_cases [OF s, of q, case_names none page]) (use that in auto)
  assume "h \<in> live_pages s"
  then obtain i where i: "h = of_nat i * block_size" "rsv s \<le> i" "i < nblocks s" by (auto simp: live_pages_def)
  have n: "nblocks s < 1048576" using s by (simp add: pmm_inv_def)
  note f = pmm_free_page_live [OF s i(2,3)]
  show "pmm_inv (pmm_free_page h s)" using f(1) i(1) by simp
  let ?b = "\<lambda>i. of_nat i * block_size" and ?A = "{rsv s..<nblocks s} - free_set s"
  have "live_pages (pmm_free_page h s) = ?b ` ({rsv s..<nblocks s} - insert i (free_set s))"
    using f(2-4) i(1) by (simp only: live_pages_def)
  also have "{rsv s..<nblocks s} - insert i (free_set s) = ?A - {i}" by blast
  also have "?b ` (?A - {i}) = ?b ` ?A - ?b ` {i}"
  proof (rule inj_on_image_set_diff [where C = "{..<nblocks s}"])
    show "inj_on ?b {..<nblocks s}" using n by (intro inj_onI) (simp add: block_addr_inj)
  qed (use i in auto)
  also have "\<dots> = live_pages s - {h}" using i(1) by (simp add: live_pages_def)
  finally show "live_pages (pmm_free_page h s) = live_pages s - {h}" .
qed

section \<open>Properties\<close>

text \<open>A machine with 64 MB and the bitmap after the kernel image, for the witnesses.\<close>

definition ex_pmm0 :: pmm where
  "ex_pmm0 = \<lparr>bitmap_4k = 0, total_blocks = 0, free_blocks = 0, pmm_lock = None, pmm_initialized = False,
     pmem = \<lambda>_. 0xCC, plocks = spinlocks\<rparr>"

definition ex_pmm :: pmm where "ex_pmm = pmm_init 0x4000000 0x300000 ex_pmm0"

lemma ex_placed: "pmm_placed 0x300000 ex_pmm0"
proof -
  have "spinlock_alloc spinlocks = (Some 0, spinlocks[0 := LOCK_UNLOCKED])"
    by (simp add: spinlock_alloc_Some spinlocks_def) (simp add: SPIN_LOCK_MAX_COUNT_def)
  then show ?thesis by (simp add: pmm_placed_def ex_pmm0_def)
qed

lemma ex_pmm: "pmm_inv ex_pmm" "nblocks ex_pmm = 16384" "rsv ex_pmm = 769" "free_set ex_pmm = {769..<16384}"
proof -
  note i = pmm_init_inv [OF ex_placed ex_pmm_def]
  show "pmm_inv ex_pmm" by (rule i(1))
  show n: "nblocks ex_pmm = 16384" using i(3) by simp
  have "unat (bitmap_4k ex_pmm) = 0x300000" using i(4) page_align_nat [of "0x300000"] by simp
  then show r: "rsv ex_pmm = 769" using n by (simp add: rsv_def bitmap_bytes_def)
  show "free_set ex_pmm = {769..<16384}" using i(2) n r by simp
qed

text \<open>
  Property C27: initialisation.  With a lock available and the bitmap below the top of memory,
  pmm_init leaves exactly the blocks after the bitmap free, everything below it reserved, and
  the free count equal to the number of clear bits.
\<close>

theorem pmm_init_establishes:
  assumes "pmm_placed bitmap_pa s" and "t = pmm_init total_memory bitmap_pa s"
  shows "pmm_inv t \<and> free_set t = {rsv t..<unat total_memory div 4096} \<and>
    unat (bitmap_4k t) + bitmap_bytes t \<le> rsv t * 4096 \<and>
    unat (pmm_get_free_page_count t) = unat total_memory div 4096 - rsv t"
  using pmm_init_inv [OF assms] bitmap_below_rsv [of t]
  by (simp add: pmm_get_free_page_count_def pmm_inv_def)

theorem pmm_init_establishes_witness:
  "pmm_inv ex_pmm \<and> free_set ex_pmm = {769..<16384} \<and> unat (pmm_get_free_page_count ex_pmm) = 15615"
  using pmm_init_establishes [OF ex_placed ex_pmm_def] ex_pmm by simp

text \<open>
  Property C20: single pages.  pmm_alloc_page returns the lowest free block, never a reserved
  one, with the page filled with zeros, the rest of the unreserved memory as it was and the
  block in use; it returns 0 only when no block is free, and then changes nothing.
\<close>

theorem pmm_alloc_page_correct:
  assumes "pmm_inv s" and "pmm_alloc_page s = (r, t)"
  shows "if r = 0 then free_set s = {} \<and> t = s
    else \<exists>i\<in>free_set s. rsv s \<le> i \<and> i = Min (free_set s) \<and> unat r = i * 4096 \<and>
      free_set t = free_set s - {i} \<and> pmm_inv t \<and>
      (\<forall>a. rsv s \<le> unat a div 4096 \<longrightarrow> pmem t a = (if unat a div 4096 = i then 0 else pmem s a))"
proof (cases rule: pmm_alloc_page_cases [OF assms(1), case_names none page])
  case none
  then show ?thesis using assms(2) by simp
next
  case (page i u)
  have i: "rsv s \<le> i" "i < 1048576" using free_set_rsv [OF assms(1) page(1)] by simp_all
  have r: "unat r = i * 4096" "u = t" using page(3) assms(2) i unat_block_addr [of i] by auto
  then have "r \<noteq> 0" using rsv_pos [OF assms(1)] i by auto
  moreover have "i = Min (free_set s)" using page(1,2) by (intro Min_eqI [symmetric]) auto
  ultimately show ?thesis using page r i by auto
qed

theorem pmm_alloc_page_correct_witness:
  "\<exists>t. pmm_alloc_page ex_pmm = (769 * 4096, t) \<and> free_set t = {769..<16384} - {769} \<and> pmem t 0x301ABC = 0"
proof -
  obtain r t where a: "pmm_alloc_page ex_pmm = (r, t)" by fastforce
  have "Min (free_set ex_pmm) = 769" by (rule Min_eqI) (auto simp: ex_pmm)
  moreover have "r \<noteq> 0"
    using pmm_alloc_page_correct [OF ex_pmm(1) a] by (auto simp: ex_pmm(4) split: if_splits)
  ultimately have c: "unat r = 769 * 4096" "free_set t = free_set ex_pmm - {769}"
    "\<And>a. 769 \<le> unat a div 4096 \<Longrightarrow> pmem t a = (if unat a div 4096 = 769 then 0 else pmem ex_pmm a)"
    using pmm_alloc_page_correct [OF ex_pmm(1) a] unfolding ex_pmm(3) by auto
  have "pmem t 0x301ABC = 0" using c(3) [of "0x301ABC"] by simp
  moreover have "r = 769 * 4096" using c(1) by (simp add: unat_eq_u32)
  ultimately show ?thesis using a c(2) ex_pmm(4) by simp
qed

lemma pmm_alloc_pages_run:
  assumes "pmm_inv s" and "np \<noteq> 0" and "pmm_alloc_pages np s = (r, t)"
  shows "if r = 0 then (\<forall>i. \<not> run s (unat np) i) \<and> t = s
    else \<exists>i. run s (unat np) i \<and> (\<forall>j<i. \<not> run s (unat np) j) \<and> unat r = i * 4096 \<and> pmm_inv t \<and>
      free_set t = free_set s - {i..<i + unat np} \<and>
      (\<forall>a. i \<le> unat a div 4096 \<and> unat a div 4096 < i + unat np \<longrightarrow> pmem t a = 0)"
proof (cases "find (run s (unat np)) [0..<nblocks s]")
  case None
  have "i < nblocks s" if "run s (unat np) i" for i
    using that assms(2) unat_gt_0 [of np] by (simp add: run_def)
  then have "\<not> run s (unat np) i" for i using None by (auto simp: find_None_upt)
  then show ?thesis using None assms by (simp add: pmm_alloc_pages_eq)
next
  case (Some i)
  then have i: "run s (unat np) i" "\<forall>j<i. \<not> run s (unat np) j" by (simp_all add: find_Some_upt)
  have t: "t = snd (take_run np i s)" "r = of_nat i * block_size"
    using assms(3) Some pmm_alloc_pages_eq [OF assms(1,2)] by (auto simp: take_run_def Let_def)
  have n: "0 < unat np" using assms(2) by (simp add: unat_gt_0)
  note rs = run_rsv [OF assms(1) i(1) n]
  have "unat r = i * 4096" using rs(2) assms(1) n unat_block_addr [of i] by (simp add: t(2) pmm_inv_def)
  moreover from this have "r \<noteq> 0" using rs(1) rsv_pos [OF assms(1)] by auto
  ultimately show ?thesis using take_run_spec [OF assms(1) i(1) n t(1)] i by auto
qed

text \<open>
  Property C28: runs of pages.  The one-pass scan of pmm_alloc_pages finds the lowest run of
  the requested length whenever there is one, takes exactly that run and fills it with zeros;
  it returns 0 only when no such run exists, and then changes nothing.
\<close>

theorem pmm_alloc_pages_first_fit:
  assumes "pmm_inv s" and "np \<noteq> 0" and "pmm_alloc_pages np s = (r, t)"
  shows "if r = 0 then (\<forall>i. \<not> run s (unat np) i) \<and> t = s
    else \<exists>i. run s (unat np) i \<and> (\<forall>j<i. \<not> run s (unat np) j) \<and> unat r = i * 4096 \<and> pmm_inv t \<and>
      free_set t = free_set s - {i..<i + unat np} \<and>
      (\<forall>a. i \<le> unat a div 4096 \<and> unat a div 4096 < i + unat np \<longrightarrow> pmem t a = 0)"
  by (rule pmm_alloc_pages_run [OF assms])

lemma ex_run: "run ex_pmm 3 769" "\<And>j. j < 769 \<Longrightarrow> \<not> run ex_pmm 3 j"
proof -
  have u: "used_block ex_pmm i \<longleftrightarrow> i < 769" if "i < 16384" for i
  proof -
    have "i \<in> free_set ex_pmm \<longleftrightarrow> 769 \<le> i" unfolding ex_pmm(4) using that by simp
    then show ?thesis using that by (simp add: free_set_def ex_pmm(2) not_less [symmetric])
  qed
  show "run ex_pmm 3 769" using u by (auto simp: run_def ex_pmm(2))
  show "\<not> run ex_pmm 3 j" if "j < 769" for j using u [of j] that by (auto simp: run_def)
qed

lemma ex_alloc_pages: "\<exists>t. pmm_alloc_pages 3 ex_pmm = (769 * 4096, t)"
proof -
  have "find (run ex_pmm 3) [0..<nblocks ex_pmm] = Some 769"
    using ex_run by (simp add: find_Some_upt ex_pmm(2))
  then show ?thesis
    using pmm_alloc_pages_eq [OF ex_pmm(1), of 3] by (simp add: take_run_def Let_def block_size_def)
qed

theorem pmm_alloc_pages_first_fit_witness:
  "\<exists>t. pmm_alloc_pages 3 ex_pmm = (769 * 4096, t) \<and> pmm_inv t \<and> pmem t 0x303FFF = 0"
proof -
  obtain t where t: "pmm_alloc_pages 3 ex_pmm = (769 * 4096, t)" using ex_alloc_pages by blast
  from pmm_alloc_pages_first_fit [OF ex_pmm(1) _ t] obtain i where
    "i * 4096 = 769 * 4096" "pmm_inv t"
    "\<forall>a. i \<le> unat a div 4096 \<and> unat a div 4096 < i + 3 \<longrightarrow> pmem t a = 0" by auto
  moreover from this have "pmem t 0x303FFF = 0" by (auto dest: spec [of _ "0x303FFF"])
  ultimately show ?thesis using t by blast
qed

lemma pmm_alloc_free_run:
  assumes "pmm_inv s" and "pmm_alloc_pages np s = (r, t)" and "r \<noteq> 0"
  shows "pmm_inv (pmm_free_pages r np t) \<and> free_set (pmm_free_pages r np t) = free_set s \<and>
    pmm_get_free_page_count (pmm_free_pages r np t) = pmm_get_free_page_count s"
proof -
  let ?n = "unat np" and ?v = "pmm_free_pages r np t"
  have np: "np \<noteq> 0" using assms(2,3) by (auto simp: pmm_alloc_pages_def)
  then have n: "0 < ?n" by (simp add: unat_gt_0)
  obtain i where f: "find (run s ?n) [0..<nblocks s] = Some i"
    using assms pmm_alloc_pages_eq [OF assms(1) np] by (cases "find (run s ?n) [0..<nblocks s]") auto
  then have i: "run s ?n i" by (simp add: find_Some_upt)
  have t: "t = snd (take_run np i s)" "r = of_nat i * block_size"
    using assms(2) f pmm_alloc_pages_eq [OF assms(1) np] by (auto simp: take_run_def Let_def)
  note rs = run_rsv [OF assms(1) i n] and sp = take_run_spec [OF assms(1) i n t(1)]
  have N: "nblocks s < 1048576" "pmm_initialized t" using assms(1) sp(1) by (simp_all add: pmm_inv_def)
  have tb: "nblocks t = nblocks s" "rsv t = rsv s"
    by (simp_all add: t(1) take_run_def Let_def rsv_def bitmap_bytes_def)
  have "unat (r div block_size) = i"
    using rs(2) N(1) n unat_block_addr [of i] by (simp add: t(2) unat_div) (simp add: block_size_def)
  moreover from this have "unat (r div block_size + np) = i + ?n"
    using rs(2) N(1) by (simp add: unat_add_u32)
  ultimately have v: "pmm_inv ?v \<and> free_set ?v = free_set t \<union> {j\<in>set [i..<i + ?n]. j < nblocks t}"
    using free_loop [OF sp(1), of "[i..<i + ?n]"] np N(2) rs(1,2) N(1) tb
    by (simp add: pmm_free_pages_def Let_def)
  have "{j\<in>set [i..<i + ?n]. j < nblocks t} = {i..<i + ?n}" using rs(2) tb(1) by auto
  with v have fs: "free_set ?v = free_set s" using rs(3) unfolding sp(2) by blast
  with v assms(1) show ?thesis by (auto simp: pmm_get_free_page_count_def pmm_inv_def unat_eq_u32)
qed

text \<open>
  Property C29: allocate and free round trip.  Freeing a run of pages right after it was allocated
  gives back exactly the free blocks there were, and keeps the invariant and the free count.
\<close>

theorem pmm_alloc_free_pages_roundtrip:
  assumes "pmm_inv s" and "pmm_alloc_pages np s = (r, t)" and "r \<noteq> 0"
  shows "pmm_inv (pmm_free_pages r np t) \<and> free_set (pmm_free_pages r np t) = free_set s \<and>
    pmm_get_free_page_count (pmm_free_pages r np t) = pmm_get_free_page_count s"
  by (rule pmm_alloc_free_run [OF assms])

theorem pmm_alloc_free_pages_roundtrip_witness:
  "\<exists>t. pmm_alloc_pages 3 ex_pmm = (769 * 4096, t) \<and> free_set (pmm_free_pages (769 * 4096) 3 t) = {769..<16384}"
proof -
  obtain t where t: "pmm_alloc_pages 3 ex_pmm = (769 * 4096, t)" using ex_alloc_pages by blast
  then show ?thesis using pmm_alloc_free_pages_roundtrip [OF ex_pmm(1) t] ex_pmm(4) by simp
qed

end
