(* ===== verification/Paging.thy ===== *)
theory Paging
  imports Pmm
begin

text \<open>
  Two-level paging: \<^verbatim>\<open>arch/i386/paging.c\<close> and the page-table walk of \<^verbatim>\<open>arch/i386/mem.c\<close>.  Page
  directories and page tables are words of memory, at the addresses the code keeps them at, so
  that two directories may share a table exactly as they do in the kernel.  What the entries mean
  is given by \<open>walk\<close>, the translation the processor performs.  The TLB is not part of the state:
  \<^verbatim>\<open>arch_tlb_invlpg\<close> has no effect in the model.
\<close>

section \<open>Entries\<close>

text \<open>
  The bit fields of \<^verbatim>\<open>union pde\<close> and \<^verbatim>\<open>union pte\<close>: single bits by their position, and the
  20-bit frame number \<^verbatim>\<open>paddr\<close>.
\<close>

definition set_flag :: "nat \<Rightarrow> bool \<Rightarrow> u32 \<Rightarrow> u32" where
  "set_flag n b w = (if b then set_bit n w else unset_bit n w)"

definition paddr :: "u32 \<Rightarrow> u32" where "paddr w = drop_bit 12 w"

definition set_paddr :: "u32 \<Rightarrow> u32 \<Rightarrow> u32" where
  "set_paddr p w = (w AND mask 12) OR push_bit 12 p"

abbreviation present :: "u32 \<Rightarrow> bool" where "present w \<equiv> bit w 0"
abbreviation rw :: "u32 \<Rightarrow> bool" where "rw w \<equiv> bit w (Suc 0)"
abbreviation user :: "u32 \<Rightarrow> bool" where "user w \<equiv> bit w 2"
abbreviation pwt :: "u32 \<Rightarrow> bool" where "pwt w \<equiv> bit w 3"
abbreviation pcd :: "u32 \<Rightarrow> bool" where "pcd w \<equiv> bit w 4"
abbreviation page_size :: "u32 \<Rightarrow> bool" where "page_size w \<equiv> bit w 7"
abbreviation global :: "u32 \<Rightarrow> bool" where "global w \<equiv> bit w 8"

definition PTE_PRESENT :: u32 where "PTE_PRESENT = 1"
definition PTE_RW :: u32 where "PTE_RW = 2"
definition PTE_USER :: u32 where "PTE_USER = 4"
definition PTE_KERNEL :: u32 where "PTE_KERNEL = PTE_PRESENT OR PTE_RW"
definition PTE_USER_PAGE :: u32 where "PTE_USER_PAGE = PTE_PRESENT OR PTE_RW OR PTE_USER"

definition PAGE_MASK :: u32 where "PAGE_MASK = 0xFFFFF000"

definition PD_INDEX :: "u32 \<Rightarrow> u32" where "PD_INDEX vaddr = drop_bit 22 vaddr AND 0x3FF"
definition PT_INDEX :: "u32 \<Rightarrow> u32" where "PT_INDEX vaddr = drop_bit 12 vaddr AND 0x3FF"
definition PAGE_OFFSET :: "u32 \<Rightarrow> u32" where "PAGE_OFFSET vaddr = vaddr AND 0xFFF"

definition IS_4MB_ALIGN :: "u32 \<Rightarrow> bool" where "IS_4MB_ALIGN x \<longleftrightarrow> x AND (0x400000 - 1) = 0"
definition IS_4KB_ALIGN :: "u32 \<Rightarrow> bool" where "IS_4KB_ALIGN x \<longleftrightarrow> x AND (4096 - 1) = 0"

definition USER_HEAP_BASE :: u32 where "USER_HEAP_BASE = 0xC0000000"
definition USER_HEAP_END :: u32 where "USER_HEAP_END = USER_HEAP_BASE + 0x01000000"
definition USER_ANON_BASE :: u32 where "USER_ANON_BASE = 0xD0000000"
definition USER_SPACE_TOP :: u32 where "USER_SPACE_TOP = 0xF0000000"

section \<open>State\<close>

record paging =
  tables :: "u32 \<Rightarrow> u32"
  pool_base :: u32
  paging_pool_used :: "u32 list"
  paging_pool_lock :: "nat option"
  paging_lock :: "nat option"
  kernel_pdir_phys :: u32
  cpu_cr3 :: u32

definition VMM_PDE_ALLOC_SIZE :: u32 where "VMM_PDE_ALLOC_SIZE = 8 * 1024 * 1024"

definition VMM_PDE_ALLOC_END :: "paging \<Rightarrow> u32" where
  "VMM_PDE_ALLOC_END s = pool_base s + VMM_PDE_ALLOC_SIZE"

definition PAGING_POOL_SLOTS :: nat where "PAGING_POOL_SLOTS = 2048"

text \<open>Entry \<open>i\<close> of the table or directory at \<open>t\<close>.\<close>

definition entry :: "u32 \<Rightarrow> u32 \<Rightarrow> u32" where "entry t i = t + i * 4"

definition put_entry :: "u32 \<Rightarrow> u32 \<Rightarrow> paging \<Rightarrow> paging" where
  "put_entry a w s = s\<lparr>tables := (tables s)(a := w)\<rparr>"

definition clear_page :: "u32 \<Rightarrow> paging \<Rightarrow> paging" where
  "clear_page pa s = fold (\<lambda>i. put_entry (entry pa (of_nat i)) 0) [0..<1024] s"

section \<open>The pool of paging structures\<close>

definition slot_used :: "paging \<Rightarrow> nat \<Rightarrow> bool" where
  "slot_used s i \<longleftrightarrow> bit (paging_pool_used s ! (i div 32)) (i mod 32)"

definition arch_paging_pool_alloc :: "paging \<Rightarrow> u32 \<times> paging" where
  "arch_paging_pool_alloc s =
     (if paging_pool_lock s = None then (0, s)
      else case for_brk [0..<PAGING_POOL_SLOTS]
             (\<lambda>i s. if \<not> slot_used s i
                then let w = set_bit (i mod 32) (paging_pool_used s ! (i div 32));
                         s = s\<lparr>paging_pool_used := (paging_pool_used s)[i div 32 := w]\<rparr>;
                         pa = pool_base s + of_nat i * 4096
                     in Inr (pa, clear_page pa s)
                else Inl s) s of
             Inr r \<Rightarrow> r | Inl s \<Rightarrow> (0, s))"

definition arch_paging_pool_free :: "u32 \<Rightarrow> paging \<Rightarrow> paging" where
  "arch_paging_pool_free pa s =
     (if paging_pool_lock s = None then s
      else if pa < pool_base s \<or> VMM_PDE_ALLOC_END s \<le> pa then s
      else let i = unat ((pa - pool_base s) div 4096);
               w = unset_bit (i mod 32) (paging_pool_used s ! (i div 32))
           in s\<lparr>paging_pool_used := (paging_pool_used s)[i div 32 := w]\<rparr>)"

section \<open>Mapping\<close>

definition arch_map_4mb :: "u32 \<Rightarrow> u32 \<Rightarrow> u32 \<Rightarrow> u32 \<Rightarrow> paging \<Rightarrow> paging" where
  "arch_map_4mb cr3 va pa flags s =
     (let pde_index = PD_INDEX va in
      if 1024 \<le> pde_index then s
      else if cr3 = 0 then s
      else if \<not> IS_4MB_ALIGN va \<or> \<not> IS_4MB_ALIGN pa then s
      else let e = set_flag 7 True 0;
               e = set_flag 0 (present flags) e;
               e = set_flag 1 (rw flags) e;
               e = set_flag 2 (user flags) e;
               e = set_flag 3 (pwt flags) e;
               e = set_flag 4 (pcd flags) e;
               e = set_flag 8 (global flags) e;
               e = set_paddr (drop_bit 12 pa) e
           in put_entry (entry cr3 pde_index) e s)"

definition arch_unmap_4mb :: "u32 \<Rightarrow> u32 \<Rightarrow> paging \<Rightarrow> paging" where
  "arch_unmap_4mb cr3 va s =
     (let pde_index = PD_INDEX va in
      if 1024 \<le> pde_index then s
      else if cr3 = 0 then s
      else put_entry (entry cr3 pde_index) 0 s)"

text \<open>Entry \<open>i\<close> of the table a 4 MB entry \<open>p\<close> is split into.\<close>

definition split_pte :: "u32 \<Rightarrow> bool \<Rightarrow> u32 \<Rightarrow> u32" where
  "split_pte p orig_user i =
     (let e = set_flag 0 (present p) 0;
          e = set_flag 1 (rw p) e;
          e = set_flag 2 orig_user e;
          e = set_flag 3 (pwt p) e;
          e = set_flag 4 (pcd p) e;
          e = set_flag 8 (global p) e
      in set_paddr (paddr p + i) e)"

text \<open>\<open>pa\<close> is the address of the entry; NULL never reaches the function.\<close>

definition split_4mb_pde :: "u32 \<Rightarrow> bool \<Rightarrow> paging \<Rightarrow> int \<times> paging" where
  "split_4mb_pde pa user_accessible s =
     (if pa = 0 then (-1, s)
      else if \<not> present (tables s pa) \<or> \<not> page_size (tables s pa) then (-1, s)
      else let (ptl, s) = arch_paging_pool_alloc s in
        if ptl = 0 then (E_NOMEM, s)
        else let orig_user = user (tables s pa);
                 s = (if user_accessible \<and> \<not> user (tables s pa)
                      then put_entry pa (set_flag 2 True (tables s pa)) s else s);
                 s = fold (\<lambda>i s. put_entry (entry ptl (of_nat i))
                             (split_pte (tables s pa) orig_user (of_nat i)) s) [0..<1024] s;
                 e = tables s pa;
                 e = set_flag 0 True e;
                 e = set_flag 1 True e;
                 e = set_flag 7 False e;
                 e = set_paddr (drop_bit 12 ptl) e
             in (0, put_entry pa e s))"

definition ptbl_of_pde :: "u32 \<Rightarrow> u32" where "ptbl_of_pde pde = push_bit 12 (paddr pde)"

definition arch_map_4kb :: "u32 \<Rightarrow> u32 \<Rightarrow> u32 \<Rightarrow> u32 \<Rightarrow> paging \<Rightarrow> int \<times> paging" where
  "arch_map_4kb cr3 va pa flags s =
     (let pde_index = PD_INDEX va; pte_index = PT_INDEX va; p = entry cr3 pde_index in
      if 1024 \<le> pde_index \<or> 1024 \<le> pte_index then (E_INVAL, s)
      else if cr3 = 0 then (E_INVAL, s)
      else let (r, s) = (if present (tables s p) \<and> page_size (tables s p)
                         then split_4mb_pde p (user flags) s else (0, s)) in
        if r \<noteq> 0 then (E_NOMEM, s)
        else let (ok, s) =
               (if \<not> present (tables s p)
                then let (pt_pa, s) = arch_paging_pool_alloc s in
                  if pt_pa = 0 then (False, s)
                  else let e = set_flag 0 True 0;
                           e = set_flag 1 True e;
                           e = set_flag 2 (user flags) e;
                           e = set_paddr (drop_bit 12 pt_pa) e
                       in (True, clear_page pt_pa (put_entry p e s))
                else (True, s)) in
          if \<not> ok then (E_NOMEM, s)
          else let ptbl = ptbl_of_pde (tables s p);
                   e = set_flag 0 (present flags) 0;
                   e = set_flag 1 (rw flags) e;
                   e = set_flag 2 (user flags) e;
                   e = set_paddr (drop_bit 12 pa) e
               in (0, put_entry (entry ptbl pte_index) e s))"

definition arch_unmap_4kb :: "u32 \<Rightarrow> u32 \<Rightarrow> paging \<Rightarrow> paging" where
  "arch_unmap_4kb cr3 va s =
     (let pde_index = PD_INDEX va; pte_index = PT_INDEX va; p = entry cr3 pde_index in
      if 1024 \<le> pde_index \<or> 1024 \<le> pte_index then s
      else if cr3 = 0 then s
      else if \<not> present (tables s p) then s
      else let ptbl = ptbl_of_pde (tables s p); a = entry ptbl pte_index in
        if \<not> present (tables s a) then s
        else if va < USER_HEAP_BASE
        then put_entry a ((va AND PAGE_MASK) OR PTE_PRESENT OR PTE_RW) s
        else put_entry a 0 s)"

text \<open>
  The range loops.  \<^verbatim>\<open>pa\<close> is a \<^verbatim>\<open>u32\<close>: near the top of the address space the addition could wrap
  and the loop run again from 0, so the loop is a partial function.
\<close>

partial_function (option) map_4mb_loop :: "u32 \<Rightarrow> u32 \<Rightarrow> u32 \<Rightarrow> u32 \<Rightarrow> paging \<Rightarrow> paging option" where
  "map_4mb_loop cr3 pa end_pa flags s =
     (if pa < end_pa then map_4mb_loop cr3 (pa + 0x400000) end_pa flags (arch_map_4mb cr3 pa pa flags s)
      else Some s)"

definition arch_map_4mb_range :: "u32 \<Rightarrow> u32 \<Rightarrow> u32 \<Rightarrow> u32 \<Rightarrow> paging \<Rightarrow> paging option" where
  "arch_map_4mb_range cr3 start_pa end_pa flags s =
     (if cr3 = 0 then Some s
      else if \<not> IS_4MB_ALIGN start_pa \<or> \<not> IS_4MB_ALIGN end_pa then Some s
      else map_4mb_loop cr3 start_pa end_pa flags s)"

partial_function (option) map_4kb_loop :: "u32 \<Rightarrow> u32 \<Rightarrow> u32 \<Rightarrow> u32 \<Rightarrow> paging \<Rightarrow> paging option" where
  "map_4kb_loop cr3 pa end_pa flags s =
     (if pa < end_pa then map_4kb_loop cr3 (pa + 4096) end_pa flags (snd (arch_map_4kb cr3 pa pa flags s))
      else Some s)"

definition arch_map_4kb_range :: "u32 \<Rightarrow> u32 \<Rightarrow> u32 \<Rightarrow> u32 \<Rightarrow> paging \<Rightarrow> paging option" where
  "arch_map_4kb_range cr3 start_pa end_pa flags s =
     (if cr3 = 0 then Some s
      else if \<not> IS_4KB_ALIGN start_pa \<or> \<not> IS_4KB_ALIGN end_pa then Some s
      else map_4kb_loop cr3 start_pa end_pa flags s)"

section \<open>Address spaces\<close>

definition arch_load_cr3 :: "u32 \<Rightarrow> paging \<Rightarrow> paging" where
  "arch_load_cr3 pdir_phys s = s\<lparr>cpu_cr3 := pdir_phys\<rparr>"

definition arch_get_cr3 :: "paging \<Rightarrow> u32" where "arch_get_cr3 s = cpu_cr3 s"

definition arch_clone_kernel_pde :: "u32 \<Rightarrow> bool \<Rightarrow> paging \<Rightarrow> u32 \<times> paging" where
  "arch_clone_kernel_pde pde_pa user_accessible s =
     (if pde_pa = 0 then (0, s)
      else (pde_pa, fold (\<lambda>i s. put_entry (entry pde_pa (of_nat i))
                            (tables s (entry (kernel_pdir_phys s) (of_nat i))) s) [0..<1024] s))"

definition destroy_body :: "u32 \<Rightarrow> nat \<Rightarrow> paging \<Rightarrow> paging" where
  "destroy_body pdir_phys i s =
     (let a = entry pdir_phys (of_nat i); e = tables s a;
          k = tables s (entry (kernel_pdir_phys s) (of_nat i)) in
      if \<not> present e then s
      else if paddr e = paddr k then s
      else put_entry a 0 (arch_paging_pool_free (push_bit 12 (paddr e)) s))"

definition arch_destroy_address_space :: "u32 \<Rightarrow> paging \<Rightarrow> paging" where
  "arch_destroy_address_space pdir_phys s =
     (if pdir_phys = 0 \<or> pdir_phys = kernel_pdir_phys s then s
      else fold (destroy_body pdir_phys) [0..<unat (drop_bit 22 USER_SPACE_TOP)] s)"

section \<open>Bootstrap\<close>

definition user_heap_map :: "u32 \<Rightarrow> u32 \<Rightarrow> paging \<Rightarrow> paging" where
  "user_heap_map pdes hp_pa s =
     fold (\<lambda>i s. snd (arch_map_4kb pdes (USER_HEAP_BASE + of_nat i * 4096) (hp_pa + of_nat i * 4096)
                        PTE_USER_PAGE s))
       [0..<unat (drop_bit 12 (USER_HEAP_END - USER_HEAP_BASE))] s"

text \<open>
  \<open>pdes\<close> is the static directory, \<open>bitmap\<close> the linker symbol of the page bitmap and \<open>mods\<close> the
  module ranges the boot loader reports (start, end).  The two locks come from the pool the page
  allocator's lock comes from.
\<close>

definition arch_paging_init ::
  "u32 \<Rightarrow> u32 \<Rightarrow> (u32 \<times> u32) list \<Rightarrow> u32 \<Rightarrow> paging \<Rightarrow> pmm \<Rightarrow> (paging \<times> pmm) option" where
  "arch_paging_init pdes bitmap mods total_memory s m =
     (let (l, ls) = spinlock_alloc (plocks m); s = s\<lparr>paging_lock := l\<rparr>; m = m\<lparr>plocks := ls\<rparr> in
      if l = None then Some (s, m)
      else let (l, ls) = spinlock_alloc (plocks m); s = s\<lparr>paging_pool_lock := l\<rparr>; m = m\<lparr>plocks := ls\<rparr> in
      if l = None then Some (s, m)
      else Option.bind (arch_map_4mb_range pdes 0 0x1000000 PTE_KERNEL (clear_page pdes s)) (\<lambda>s.
           Option.bind (map_4mb_loop pdes 0x1000000 total_memory PTE_KERNEL s) (\<lambda>s.
           let s = arch_load_cr3 pdes s;
               s = s\<lparr>kernel_pdir_phys := pdes\<rparr>;
               m = pmm_init total_memory bitmap m;
               m = fold (\<lambda>(b, e) m. if b < e then pmm_mark_used b (e - b) m else m) mods m;
               (hp_pa, m) = pmm_alloc_pages (drop_bit 12 (USER_HEAP_END - USER_HEAP_BASE)) m
           in Some (if hp_pa = 0 then s else user_heap_map pdes hp_pa s, m))))"

section \<open>Validation of user ranges (arch/i386/mem.c)\<close>

text \<open>The test one iteration of the loop makes at \<open>addr\<close>.\<close>

definition page_ok :: "paging \<Rightarrow> bool \<Rightarrow> u32 \<Rightarrow> bool" where
  "page_ok s for_write addr =
     (let cr3 = arch_get_cr3 s AND PAGE_MASK;
          pde = tables s (cr3 + PD_INDEX addr * 4) in
      if \<not> present pde \<or> \<not> user pde \<or> (for_write \<and> \<not> rw pde) then False
      else if pde AND 0x80 \<noteq> 0
      then \<not> (\<not> user pde \<or> (for_write \<and> \<not> rw pde))
      else let pte = tables s ((pde AND PAGE_MASK) + PT_INDEX addr * 4) in
           \<not> (\<not> present pte \<or> \<not> user pte \<or> (for_write \<and> \<not> rw pte)))"

definition page_remain :: "u32 \<Rightarrow> u32 \<Rightarrow> u32" where
  "page_remain addr n = (let remain = 4096 - PAGE_OFFSET addr in if n < remain then n else remain)"

lemma PAGE_OFFSET_lt: "PAGE_OFFSET addr < 4096"
proof -
  have "PAGE_OFFSET addr \<le> 0xFFF" unfolding PAGE_OFFSET_def by (rule word_and_le1)
  also have "(0xFFF :: u32) < 4096" by simp
  finally show ?thesis .
qed

lemma page_remain_bounds:
  "0 < n \<Longrightarrow> 0 < unat (page_remain addr n)"
  "unat (page_remain addr n) \<le> unat n"
  using PAGE_OFFSET_lt [of addr]
  by (auto simp: page_remain_def Let_def unat_sub word_le_nat_alt word_less_nat_alt)

function validate_loop :: "paging \<Rightarrow> bool \<Rightarrow> u32 \<Rightarrow> u32 \<Rightarrow> bool" where
  "validate_loop s for_write addr n =
     (if 0 < n
      then if \<not> page_ok s for_write addr then False
           else let remain = page_remain addr n in validate_loop s for_write (addr + remain) (n - remain)
      else True)"
  by pat_completeness auto
termination
  by (relation "measure (\<lambda>(_, _, _, n). unat n)")
    (auto simp: unat_sub word_le_nat_alt page_remain_bounds diff_less word_less_nat_alt
      simp del: word_greater_zero_iff)

declare validate_loop.simps [simp del]

definition arch_validate_user_range :: "paging \<Rightarrow> u32 \<Rightarrow> u32 \<Rightarrow> bool \<Rightarrow> bool" where
  "arch_validate_user_range s user_addr n for_write =
     (if n = 0 then True
      else if user_addr + n < user_addr then False
      else if USER_SPACE_TOP \<le> user_addr \<or> USER_SPACE_TOP < user_addr + n then False
      else validate_loop s for_write user_addr n)"

section \<open>Addresses of entries\<close>

abbreviation page_no :: "u32 \<Rightarrow> nat" where "page_no a \<equiv> unat a div 4096"

definition aligned :: "u32 \<Rightarrow> bool" where "aligned a \<longleftrightarrow> unat a mod 4096 = 0"

lemma aligned_bound: "aligned p \<Longrightarrow> n < 4096 \<Longrightarrow> unat p + n < 4294967296"
proof -
  assume "aligned p" "n < 4096"
  then have "unat p = 4096 * page_no p" by (auto simp: aligned_def)
  moreover have "page_no p < 1048576" using unat_u32_lt [of p] by (intro less_mult_imp_div_less) simp
  ultimately show ?thesis using \<open>n < 4096\<close> by linarith
qed

lemma unat_entry: "aligned p \<Longrightarrow> unat i < 1024 \<Longrightarrow> unat (entry p i) = unat p + 4 * unat i"
proof -
  assume p: "aligned p" and i: "unat i < 1024"
  have m: "unat (i * 4) = 4 * unat i" using unat_mult_u32 [of i 4] i by simp
  have "unat p + 4 * unat i < 4294967296" using i by (intro aligned_bound [OF p]) simp
  then show ?thesis by (simp add: entry_def unat_add_u32 m)
qed

lemma page_no_entry: "aligned p \<Longrightarrow> unat i < 1024 \<Longrightarrow> page_no (entry p i) = page_no p"
  by (auto simp: unat_entry aligned_def)

lemma aligned_eq: "aligned p \<Longrightarrow> aligned q \<Longrightarrow> page_no p = page_no q \<longleftrightarrow> p = q"
  by (auto simp: aligned_def unat_eq_u32)

lemma entry_eq:
  assumes "aligned p" "aligned q" "unat i < 1024" "unat j < 1024"
  shows "entry p i = entry q j \<longleftrightarrow> p = q \<and> i = j"
proof
  assume eq: "entry p i = entry q j"
  then have "page_no p = page_no q" using assms page_no_entry by metis
  then have "p = q" using aligned_eq assms by blast
  with eq show "p = q \<and> i = j" by (simp add: entry_def unat_eq_u32) (use unat_entry assms eq in \<open>force simp: unat_eq_u32\<close>)
qed simp

lemma index_mask: "(0x3FF :: u32) = mask 10"
  by (simp add: mask_eq_exp_minus_1)

lemma unat_PD_INDEX: "unat (PD_INDEX va) = unat va div 4194304"
proof -
  have "PD_INDEX va = drop_bit 22 va"
    unfolding PD_INDEX_def index_mask by (rule bit_eqI) (auto simp: bit_simps dest: bit_imp_le_length)
  then show ?thesis by (simp add: drop_bit_eq_div unat_div)
qed

lemma unat_PT_INDEX: "unat (PT_INDEX va) = page_no va mod 1024"
proof -
  have "PT_INDEX va = take_bit 10 (drop_bit 12 va)"
    unfolding PT_INDEX_def index_mask by (rule bit_eqI) (auto simp: bit_simps)
  then show ?thesis by (simp add: drop_bit_eq_div take_bit_eq_mod unat_div unat_mod)
qed

lemma PD_INDEX_lt [simp]: "unat (PD_INDEX va) < 1024"
  unfolding unat_PD_INDEX by (rule less_mult_imp_div_less) simp

lemma PT_INDEX_lt [simp]: "unat (PT_INDEX va) < 1024"
  by (simp add: unat_PT_INDEX)

lemma same_page: "page_no v = page_no va \<longleftrightarrow> PD_INDEX v = PD_INDEX va \<and> PT_INDEX v = PT_INDEX va"
proof -
  have "unat x div 4194304 = page_no x div 1024" for x :: u32 by (simp add: div_mult2_eq [symmetric])
  then show ?thesis
    by (simp add: unat_eq_u32 unat_PD_INDEX unat_PT_INDEX) (metis div_mult_mod_eq)
qed

lemma PAGE_MASK_eq: "PAGE_MASK = NOT (mask 12)"
  by (simp add: PAGE_MASK_def mask_eq_exp_minus_1)

lemma ptbl_of_pde_eq: "ptbl_of_pde e = e AND PAGE_MASK"
  unfolding ptbl_of_pde_def paddr_def PAGE_MASK_eq by (rule bit_eqI) (auto simp: bit_simps)

lemma aligned_mask [simp]: "aligned (e AND PAGE_MASK)"
  by (simp add: aligned_def PAGE_MASK_eq unat_and_not_mask)

lemma aligned_bits: "aligned a \<longleftrightarrow> a AND PAGE_MASK = a"
  using unat_and_not_mask [of a 12] by (auto simp: aligned_def PAGE_MASK_eq unat_eq_u32) (metis mod_mult_self2_is_0)


section \<open>Writing tables\<close>

lemma put_entry_simps [simp]:
  "tables (put_entry a w s) = (tables s)(a := w)"
  "pool_base (put_entry a w s) = pool_base s"
  "paging_pool_used (put_entry a w s) = paging_pool_used s"
  "paging_pool_lock (put_entry a w s) = paging_pool_lock s"
  "paging_lock (put_entry a w s) = paging_lock s"
  "kernel_pdir_phys (put_entry a w s) = kernel_pdir_phys s"
  "cpu_cr3 (put_entry a w s) = cpu_cr3 s"
  by (simp_all add: put_entry_def)

text \<open>Filling the 1024 entries of a table in a loop.\<close>

definition fill :: "u32 \<Rightarrow> (nat \<Rightarrow> u32) \<Rightarrow> paging \<Rightarrow> paging" where
  "fill p f s = fold (\<lambda>i. put_entry (entry p (of_nat i)) (f i)) [0..<1024] s"

lemma fold_put_other:
  "(\<forall>i\<in>set is. a \<noteq> e i) \<Longrightarrow> tables (fold (\<lambda>i. put_entry (e i) (f i)) is s) a = tables s a"
  by (induction "is" arbitrary: s) auto

lemma fold_put_tables:
  "fold (\<lambda>i. put_entry (e i) (f i)) is s = s\<lparr>tables := tables (fold (\<lambda>i. put_entry (e i) (f i)) is s)\<rparr>"
proof (induction "is" arbitrary: s)
  case (Cons i "is")
  show ?case using Cons.IH [of "put_entry (e i) (f i) s"] by (simp add: put_entry_def)
qed simp

lemma fill_simps [simp]:
  "pool_base (fill p f s) = pool_base s"
  "paging_pool_used (fill p f s) = paging_pool_used s"
  "paging_pool_lock (fill p f s) = paging_pool_lock s"
  "paging_lock (fill p f s) = paging_lock s"
  "kernel_pdir_phys (fill p f s) = kernel_pdir_phys s"
  "cpu_cr3 (fill p f s) = cpu_cr3 s"
  unfolding fill_def by (subst fold_put_tables, simp)+

lemma fill_other: "aligned p \<Longrightarrow> page_no a \<noteq> page_no p \<Longrightarrow> tables (fill p f s) a = tables s a"
  unfolding fill_def by (rule fold_put_other) (auto simp: page_no_entry)

lemma fill_in:
  assumes "aligned p" and "i < 1024"
  shows "tables (fill p f s) (entry p (of_nat i)) = f i"
proof -
  have "\<forall>j\<in>set [Suc i..<1024]. entry p (of_nat i) \<noteq> entry p (of_nat j)"
    using assms by (auto simp: entry_eq of_nat_inj_u32)
  then show ?thesis
    by (simp add: fill_def upt_split [OF assms(2)] fold_put_other)
qed

lemma clear_page_fill: "clear_page p = fill p (\<lambda>_. 0)"
  by (simp add: clear_page_def fill_def fun_eq_iff)

lemma fill_index: "aligned p \<Longrightarrow> unat i < 1024 \<Longrightarrow> tables (fill p f s) (entry p i) = f (unat i)"
  using fill_in [of p "unat i" f s] by simp

section \<open>The pool\<close>

definition slot :: "paging \<Rightarrow> nat \<Rightarrow> u32" where "slot s i = pool_base s + of_nat i * 4096"

definition pool_ok :: "paging \<Rightarrow> bool" where
  "pool_ok s \<longleftrightarrow> length (paging_pool_used s) = 64 \<and> aligned (pool_base s) \<and> pool_base s \<noteq> 0 \<and>
     unat (pool_base s) + 8388608 < 4294967296 \<and> paging_pool_lock s \<noteq> None"

definition live_slots :: "paging \<Rightarrow> u32 set" where
  "live_slots s = slot s ` {i. i < PAGING_POOL_SLOTS \<and> slot_used s i}"

definition free_slots :: "paging \<Rightarrow> u32 set" where
  "free_slots s = slot s ` {i. i < PAGING_POOL_SLOTS \<and> \<not> slot_used s i}"

lemma unat_slot:
  assumes "pool_ok s" and "i < PAGING_POOL_SLOTS"
  shows "unat (slot s i) = unat (pool_base s) + i * 4096"
proof -
  have i: "i * 4096 + 4096 \<le> 8388608" using assms(2) by (simp add: PAGING_POOL_SLOTS_def)
  then have "unat (of_nat i * 4096 :: u32) = i * 4096" using unat_mult_u32 [of "of_nat i" 4096] by simp
  then show ?thesis using assms(1) i by (simp add: slot_def pool_ok_def unat_add_u32)
qed

lemma slot_aligned: "pool_ok s \<Longrightarrow> i < PAGING_POOL_SLOTS \<Longrightarrow> aligned (slot s i)"
  by (simp add: aligned_def unat_slot) (simp add: pool_ok_def aligned_def)

lemma slot_inj: "pool_ok s \<Longrightarrow> i < PAGING_POOL_SLOTS \<Longrightarrow> j < PAGING_POOL_SLOTS \<Longrightarrow> slot s i = slot s j \<longleftrightarrow> i = j"
  using unat_slot by (fastforce simp: unat_eq_u32)

lemma slot_nonzero: "pool_ok s \<Longrightarrow> i < PAGING_POOL_SLOTS \<Longrightarrow> slot s i \<noteq> 0"
  using unat_slot [of s i] by (auto simp: pool_ok_def unat_eq_u32)

lemma slot_used_update:
  assumes "pool_ok s" "i < PAGING_POOL_SLOTS" "j < PAGING_POOL_SLOTS"
  shows "slot_used (s\<lparr>paging_pool_used := (paging_pool_used s)[i div 32 := set_bit (i mod 32) (paging_pool_used s ! (i div 32))]\<rparr>) j
           \<longleftrightarrow> j = i \<or> slot_used s j"
    and "slot_used (s\<lparr>paging_pool_used := (paging_pool_used s)[i div 32 := unset_bit (i mod 32) (paging_pool_used s ! (i div 32))]\<rparr>) j
           \<longleftrightarrow> j \<noteq> i \<and> slot_used s j"
proof -
  have l: "i div 32 < length (paging_pool_used s)" "j div 32 < length (paging_pool_used s)"
    using assms by (auto simp: pool_ok_def PAGING_POOL_SLOTS_def)
  have e: "j = i \<longleftrightarrow> j div 32 = i div 32 \<and> j mod 32 = i mod 32" by (metis div_mult_mod_eq)
  show "slot_used (s\<lparr>paging_pool_used := (paging_pool_used s)[i div 32 := set_bit (i mod 32) (paging_pool_used s ! (i div 32))]\<rparr>) j
           \<longleftrightarrow> j = i \<or> slot_used s j"
    using l e by (auto simp: slot_used_def nth_list_update bit_simps)
  show "slot_used (s\<lparr>paging_pool_used := (paging_pool_used s)[i div 32 := unset_bit (i mod 32) (paging_pool_used s ! (i div 32))]\<rparr>) j
           \<longleftrightarrow> j \<noteq> i \<and> slot_used s j"
    using l e by (auto simp: slot_used_def nth_list_update bit_simps)
qed


text \<open>Everything but the tables and the pool bitmap.\<close>

definition same_regs :: "paging \<Rightarrow> paging \<Rightarrow> bool" where
  "same_regs s s' \<longleftrightarrow> pool_base s' = pool_base s \<and> paging_pool_lock s' = paging_pool_lock s \<and>
     paging_lock s' = paging_lock s \<and> kernel_pdir_phys s' = kernel_pdir_phys s \<and> cpu_cr3 s' = cpu_cr3 s"

lemma same_regs_refl [simp]: "same_regs s s" by (simp add: same_regs_def)

lemma same_regs_trans [trans]: "same_regs s t \<Longrightarrow> same_regs t u \<Longrightarrow> same_regs s u" by (simp add: same_regs_def)

lemma same_regs_ops [simp]: "same_regs s (put_entry a w t) \<longleftrightarrow> same_regs s t" "same_regs s (fill p f t) \<longleftrightarrow> same_regs s t"
  by (auto simp: same_regs_def)

lemma pool_ok_cong:
  "same_regs s s' \<Longrightarrow> length (paging_pool_used s') = length (paging_pool_used s) \<Longrightarrow> pool_ok s' \<longleftrightarrow> pool_ok s"
  by (simp add: pool_ok_def same_regs_def)

lemma slots_cong:
  assumes "pool_base s' = pool_base s" and "paging_pool_used s' = paging_pool_used s"
  shows "free_slots s' = free_slots s" and "live_slots s' = live_slots s" and "slot_used s' = slot_used s"
  using assms by (auto simp: free_slots_def live_slots_def slot_def slot_used_def fun_eq_iff)

definition take_slot :: "nat \<Rightarrow> paging \<Rightarrow> paging" where
  "take_slot i s = s\<lparr>paging_pool_used :=
     (paging_pool_used s)[i div 32 := set_bit (i mod 32) (paging_pool_used s ! (i div 32))]\<rparr>"

lemma pool_alloc_eq:
  assumes "pool_ok s"
  shows "arch_paging_pool_alloc s =
     (case find (\<lambda>i. \<not> slot_used s i) [0..<PAGING_POOL_SLOTS] of
        None \<Rightarrow> (0, s) | Some i \<Rightarrow> (slot s i, clear_page (slot s i) (take_slot i s)))"
proof -
  have "paging_pool_lock s \<noteq> None" using assms by (simp add: pool_ok_def)
  moreover have "(\<lambda>i s. if \<not> slot_used s i
                then let w = set_bit (i mod 32) (paging_pool_used s ! (i div 32));
                         s = s\<lparr>paging_pool_used := (paging_pool_used s)[i div 32 := w]\<rparr>;
                         pa = pool_base s + of_nat i * 4096
                     in Inr (pa, clear_page pa s)
                else Inl s) =
      (\<lambda>i s. if \<not> slot_used s i then Inr (slot s i, clear_page (slot s i) (take_slot i s)) else Inl s)"
    by (simp add: fun_eq_iff slot_def take_slot_def Let_def)
  ultimately show ?thesis
    unfolding arch_paging_pool_alloc_def by (auto simp: for_brk_find split: option.splits)
qed

lemma pool_alloc_cases [consumes 1, case_names full page]:
  assumes "pool_ok s"
  obtains "arch_paging_pool_alloc s = (0, s)" and "free_slots s = {}"
  | pa s' where "arch_paging_pool_alloc s = (pa, s')" and "pa \<in> free_slots s" and "pa \<noteq> 0" and "aligned pa"
      and "pool_ok s'" and "same_regs s s'" and "free_slots s' = free_slots s - {pa}"
      and "live_slots s' = insert pa (live_slots s)" and "pa \<notin> live_slots s"
      and "\<And>a. page_no a \<noteq> page_no pa \<Longrightarrow> tables s' a = tables s a"
      and "\<And>i. unat i < 1024 \<Longrightarrow> tables s' (entry pa i) = 0"
proof (cases "find (\<lambda>i. \<not> slot_used s i) [0..<PAGING_POOL_SLOTS]")
  case None
  then have "arch_paging_pool_alloc s = (0, s)" using assms by (simp add: pool_alloc_eq)
  moreover have "free_slots s = {}" using None by (auto simp: free_slots_def find_None_upt)
  ultimately show ?thesis by (rule that(1))
next
  case (Some i)
  let ?t = "take_slot i s"
  have i: "i < PAGING_POOL_SLOTS" "\<not> slot_used s i" using Some by (auto simp: find_Some_upt)
  have al: "aligned (slot s i)" and nz: "slot s i \<noteq> 0" using assms i slot_aligned slot_nonzero by auto
  have used: "slot_used ?t j \<longleftrightarrow> j = i \<or> slot_used s j" if "j < PAGING_POOL_SLOTS" for j
    unfolding take_slot_def using slot_used_update(1) [OF assms i(1) that] .
  have sl: "slot ?t = slot s" by (simp add: slot_def take_slot_def fun_eq_iff)
  have fr: "free_slots ?t = free_slots s - {slot s i}" and lv: "live_slots ?t = insert (slot s i) (live_slots s)"
    and nl: "slot s i \<notin> live_slots s"
    using used i slot_inj [OF assms] by (auto simp: free_slots_def live_slots_def sl)
  have ok: "pool_ok ?t" using assms by (simp add: pool_ok_def take_slot_def)
  let ?u = "clear_page (slot s i) ?t"
  have "free_slots ?u = free_slots ?t" "live_slots ?u = live_slots ?t"
    by (rule slots_cong; simp add: clear_page_fill)+
  moreover have "pool_ok ?u" using ok by (simp add: pool_ok_def clear_page_fill)
  moreover have "same_regs s ?u" by (simp add: clear_page_fill same_regs_def take_slot_def)
  moreover have "tables ?u a = tables s a" if "page_no a \<noteq> page_no (slot s i)" for a
    using that al by (simp add: clear_page_fill fill_other) (simp add: take_slot_def)
  moreover have "tables ?u (entry (slot s i) j) = 0" if "unat j < 1024" for j
    using that al by (simp add: clear_page_fill fill_index)
  ultimately show ?thesis
    using that(2) [of "slot s i" ?u] assms Some i al nz fr lv nl
    by (simp add: pool_alloc_eq free_slots_def)
qed

lemma pool_free_slot:
  assumes "pool_ok s" and "i < PAGING_POOL_SLOTS"
  shows "arch_paging_pool_free (slot s i) s = s\<lparr>paging_pool_used :=
     (paging_pool_used s)[i div 32 := unset_bit (i mod 32) (paging_pool_used s ! (i div 32))]\<rparr>"
proof -
  have u: "unat (slot s i) = unat (pool_base s) + i * 4096" by (rule unat_slot [OF assms])
  have "unat (slot s i - pool_base s) = i * 4096" using u by (simp add: unat_sub_u32)
  then have n: "unat ((slot s i - pool_base s) div 4096) = i" by (simp add: unat_div)
  have "unat (VMM_PDE_ALLOC_END s) = unat (pool_base s) + 8388608"
    using assms(1) by (simp add: pool_ok_def VMM_PDE_ALLOC_END_def VMM_PDE_ALLOC_SIZE_def unat_word_ariths)
  then show ?thesis
    using assms u n
    by (auto simp: arch_paging_pool_free_def pool_ok_def word_less_nat_alt word_le_nat_alt PAGING_POOL_SLOTS_def)
qed


lemma pool_free_live:
  assumes "pool_ok s" and "pa \<in> live_slots s"
  shows "pool_ok (arch_paging_pool_free pa s)" and "live_slots (arch_paging_pool_free pa s) = live_slots s - {pa}"
    and "free_slots (arch_paging_pool_free pa s) = insert pa (free_slots s)"
    and "same_regs s (arch_paging_pool_free pa s)" and "tables (arch_paging_pool_free pa s) = tables s"
proof -
  from assms(2) obtain i where i: "i < PAGING_POOL_SLOTS" "slot_used s i" "pa = slot s i"
    by (auto simp: live_slots_def)
  define t where "t = arch_paging_pool_free pa s"
  have eq: "t = s\<lparr>paging_pool_used :=
     (paging_pool_used s)[i div 32 := unset_bit (i mod 32) (paging_pool_used s ! (i div 32))]\<rparr>"
    using i assms(1) by (simp add: t_def pool_free_slot)
  have used: "slot_used t j \<longleftrightarrow> j \<noteq> i \<and> slot_used s j" if "j < PAGING_POOL_SLOTS" for j
    unfolding eq using slot_used_update(2) [OF assms(1) i(1) that] .
  have sl: "slot t = slot s" by (simp add: slot_def eq fun_eq_iff)
  have "live_slots t = live_slots s - {pa}" "free_slots t = insert pa (free_slots s)"
    using used i slot_inj [OF assms(1)] by (auto simp: free_slots_def live_slots_def sl)
  moreover have "pool_ok t" using assms(1) by (simp add: pool_ok_def eq)
  moreover have "same_regs s t" "tables t = tables s" by (simp_all add: same_regs_def eq)
  ultimately show "pool_ok (arch_paging_pool_free pa s)" "live_slots (arch_paging_pool_free pa s) = live_slots s - {pa}"
    "free_slots (arch_paging_pool_free pa s) = insert pa (free_slots s)"
    "same_regs s (arch_paging_pool_free pa s)" "tables (arch_paging_pool_free pa s) = tables s"
    by (simp_all add: t_def)
qed

text \<open>Page directories and tables come from an allocator with the common contract.\<close>

definition pool_page :: "unit \<Rightarrow> paging \<Rightarrow> u32 option \<times> paging" where
  "pool_page _ s = (let (pa, s) = arch_paging_pool_alloc s in (if pa = 0 then None else Some pa, s))"

interpretation ptpool: handle_allocator pool_page arch_paging_pool_free live_slots pool_ok
proof unfold_locales
  fix s s' :: paging and q r
  assume s: "pool_ok s" "pool_page q s = (r, s')"
  from s(1) show "pool_ok s'" by (cases rule: pool_alloc_cases) (use s in \<open>auto simp: pool_page_def\<close>)
next
  fix s s' :: paging and q h
  assume s: "pool_ok s" "pool_page q s = (Some h, s')"
  from s(1) show "h \<notin> live_slots s" "live_slots s' = insert h (live_slots s)"
    by (cases rule: pool_alloc_cases; use s in \<open>simp add: pool_page_def\<close>)+
next
  fix s s' :: paging and q
  assume s: "pool_ok s" "pool_page q s = (None, s')"
  from s(1) show "live_slots s' = live_slots s"
    by (cases rule: pool_alloc_cases) (use s in \<open>auto simp: pool_page_def\<close>)
qed (auto simp: pool_free_live)

section \<open>Translation\<close>

text \<open>
  The translation the processor makes with the directory at \<open>cr3\<close>: the physical address, whether
  user mode may access it and whether it may be written.
\<close>

definition walk :: "(u32 \<Rightarrow> u32) \<Rightarrow> u32 \<Rightarrow> u32 \<Rightarrow> (u32 \<times> bool \<times> bool) option" where
  "walk t cr3 va =
     (let pde = t (entry cr3 (PD_INDEX va)) in
      if \<not> present pde then None
      else if page_size pde then Some ((pde AND 0xFFC00000) OR (va AND 0x3FFFFF), user pde, rw pde)
      else let pte = t (entry (pde AND PAGE_MASK) (PT_INDEX va)) in
        if \<not> present pte then None
        else Some ((pte AND PAGE_MASK) OR PAGE_OFFSET va, user pde \<and> user pte, rw pde \<and> rw pte))"

text \<open>Entry \<open>i\<close> of a directory, and the table it refers to, if it refers to one.\<close>

abbreviation pde_at :: "paging \<Rightarrow> u32 \<Rightarrow> u32 \<Rightarrow> u32" where
  "pde_at s cr3 i \<equiv> tables s (entry cr3 i)"

definition is_table :: "u32 \<Rightarrow> bool" where "is_table e \<longleftrightarrow> present e \<and> \<not> page_size e"

text \<open>
  A directory is well formed when it and its tables are different pages, none of them free in
  the pool, and its 4 MB entries are aligned.
\<close>

definition dir_ok :: "paging \<Rightarrow> u32 \<Rightarrow> bool" where
  "dir_ok s cr3 \<longleftrightarrow> aligned cr3 \<and> cr3 \<noteq> 0 \<and> cr3 \<notin> free_slots s \<and>
     (\<forall>i. unat i < 1024 \<longrightarrow> (let e = pde_at s cr3 i in
        (is_table e \<longrightarrow> rw e \<and> e AND PAGE_MASK \<noteq> cr3 \<and> e AND PAGE_MASK \<notin> free_slots s) \<and>
        (present e \<and> page_size e \<longrightarrow> e AND 0x3FF000 = 0))) \<and>
     (\<forall>i j. unat i < 1024 \<longrightarrow> unat j < 1024 \<longrightarrow> is_table (pde_at s cr3 i) \<longrightarrow> is_table (pde_at s cr3 j) \<longrightarrow>
        pde_at s cr3 i AND PAGE_MASK = pde_at s cr3 j AND PAGE_MASK \<longrightarrow> i = j)"

lemma dir_okD:
  assumes "dir_ok s cr3"
  shows "aligned cr3" and "cr3 \<noteq> 0" and "cr3 \<notin> free_slots s"
    and "unat i < 1024 \<Longrightarrow> is_table (pde_at s cr3 i) \<Longrightarrow> rw (pde_at s cr3 i)"
    and "unat i < 1024 \<Longrightarrow> is_table (pde_at s cr3 i) \<Longrightarrow> pde_at s cr3 i AND PAGE_MASK \<noteq> cr3"
    and "unat i < 1024 \<Longrightarrow> is_table (pde_at s cr3 i) \<Longrightarrow> pde_at s cr3 i AND PAGE_MASK \<notin> free_slots s"
    and "unat i < 1024 \<Longrightarrow> present (pde_at s cr3 i) \<Longrightarrow> page_size (pde_at s cr3 i) \<Longrightarrow> pde_at s cr3 i AND 0x3FF000 = 0"
    and "unat i < 1024 \<Longrightarrow> unat j < 1024 \<Longrightarrow> is_table (pde_at s cr3 i) \<Longrightarrow> is_table (pde_at s cr3 j) \<Longrightarrow>
        pde_at s cr3 i AND PAGE_MASK = pde_at s cr3 j AND PAGE_MASK \<Longrightarrow> i = j"
  using assms unfolding dir_ok_def Let_def by blast+


section \<open>Installing a table\<close>

text \<open>
  \<open>installs s s' cr3 i ptl e f\<close>: in \<open>s'\<close> entry \<open>i\<close> of the directory is \<open>e\<close>, which refers to the table
  \<open>ptl\<close> with the entries \<open>f\<close>; the page \<open>ptl\<close> was taken from the pool and nothing else changed.
\<close>

definition installs :: "paging \<Rightarrow> paging \<Rightarrow> u32 \<Rightarrow> u32 \<Rightarrow> u32 \<Rightarrow> u32 \<Rightarrow> (u32 \<Rightarrow> u32) \<Rightarrow> bool" where
  "installs s s' cr3 i ptl e f \<longleftrightarrow> ptl \<in> free_slots s \<and> aligned ptl \<and> pool_ok s' \<and> same_regs s s' \<and>
     free_slots s' = free_slots s - {ptl} \<and> live_slots s' = insert ptl (live_slots s) \<and>
     is_table e \<and> rw e \<and> e AND PAGE_MASK = ptl \<and> pde_at s' cr3 i = e \<and>
     (\<forall>j. unat j < 1024 \<longrightarrow> tables s' (entry ptl j) = f j) \<and>
     (\<forall>a. page_no a \<noteq> page_no ptl \<longrightarrow> a \<noteq> entry cr3 i \<longrightarrow> tables s' a = tables s a)"

lemma walk_table:
  "is_table (t (entry cr3 (PD_INDEX va))) \<Longrightarrow>
   walk t cr3 va = (let e = t (entry cr3 (PD_INDEX va)); pte = t (entry (e AND PAGE_MASK) (PT_INDEX va)) in
     if present pte then Some ((pte AND PAGE_MASK) OR PAGE_OFFSET va, user e \<and> user pte, rw e \<and> rw pte) else None)"
  by (simp add: walk_def is_table_def Let_def)

lemma walk_absent: "\<not> present (t (entry cr3 (PD_INDEX va))) \<Longrightarrow> walk t cr3 va = None"
  by (simp add: walk_def)

lemma walk_cong:
  assumes "t' (entry cr3 (PD_INDEX va)) = t (entry cr3 (PD_INDEX va))"
    and "is_table (t (entry cr3 (PD_INDEX va))) \<Longrightarrow>
      t' (entry (t (entry cr3 (PD_INDEX va)) AND PAGE_MASK) (PT_INDEX va)) =
      t (entry (t (entry cr3 (PD_INDEX va)) AND PAGE_MASK) (PT_INDEX va))"
  shows "walk t' cr3 va = walk t cr3 va"
  using assms by (auto simp: walk_def is_table_def Let_def)

lemma installs_pde:
  assumes "dir_ok s cr3" and "installs s s' cr3 i ptl e f" and "unat i < 1024" and "unat j < 1024"
  shows "pde_at s' cr3 j = (if j = i then e else pde_at s cr3 j)"
proof -
  have "aligned cr3" "aligned ptl" "ptl \<noteq> cr3" using assms dir_okD [OF assms(1)] by (auto simp: installs_def)
  then have "page_no (entry cr3 j) \<noteq> page_no ptl" using assms(4) by (simp add: page_no_entry aligned_eq)
  then show ?thesis using assms dir_okD(1) [OF assms(1)] by (auto simp: installs_def entry_eq)
qed

lemma installs_dir_ok:
  assumes "dir_ok s cr3" and "installs s s' cr3 i ptl e f" and "unat i < 1024"
  shows "dir_ok s' cr3"
proof -
  note D = dir_okD [OF assms(1)]
  have pde: "pde_at s' cr3 j = (if j = i then e else pde_at s cr3 j)" if "unat j < 1024" for j
    by (rule installs_pde [OF assms that])
  have e: "is_table e" "rw e" "e AND PAGE_MASK = ptl" "ptl \<in> free_slots s" "free_slots s' = free_slots s - {ptl}"
    using assms(2) by (auto simp: installs_def)
  have "ptl \<noteq> cr3" using D(3) e by blast
  have 1: "is_table (pde_at s' cr3 j) \<longrightarrow> rw (pde_at s' cr3 j) \<and> pde_at s' cr3 j AND PAGE_MASK \<noteq> cr3 \<and>
      pde_at s' cr3 j AND PAGE_MASK \<notin> free_slots s'" if "unat j < 1024" for j
    using D(4-6) [OF that] e \<open>ptl \<noteq> cr3\<close> by (simp add: pde [OF that])
  have 2: "present (pde_at s' cr3 j) \<and> page_size (pde_at s' cr3 j) \<longrightarrow> pde_at s' cr3 j AND 0x3FF000 = 0"
    if "unat j < 1024" for j
    using D(7) [OF that] e(1) by (simp add: pde [OF that] is_table_def)
  have 3: "j = k" if "unat j < 1024" "unat k < 1024" "is_table (pde_at s' cr3 j)" "is_table (pde_at s' cr3 k)"
    "pde_at s' cr3 j AND PAGE_MASK = pde_at s' cr3 k AND PAGE_MASK" for j k
  proof (cases "j = i \<or> k = i")
    case True
    then show ?thesis
      using that(3-5) D(6) [OF that(1)] D(6) [OF that(2)] e(3,4) pde [OF that(1)] pde [OF that(2)] by metis
  next
    case False
    then show ?thesis using that D(8) [of j k] pde [OF that(1)] pde [OF that(2)] by simp
  qed
  have "cr3 \<notin> free_slots s'" using D(3) e(5) by simp
  then show ?thesis unfolding dir_ok_def Let_def using D(1,2) 1 2 3 by (intro conjI allI impI) blast+
qed

lemma installs_walk:
  assumes "dir_ok s cr3" and "installs s s' cr3 i ptl e f" and "unat i < 1024"
  shows "walk (tables s') cr3 v =
    (if PD_INDEX v = i
     then if present (f (PT_INDEX v))
          then Some ((f (PT_INDEX v) AND PAGE_MASK) OR PAGE_OFFSET v, user e \<and> user (f (PT_INDEX v)), rw (f (PT_INDEX v)))
          else None
     else walk (tables s) cr3 v)"
proof (cases "PD_INDEX v = i")
  case True
  have pde: "tables s' (entry cr3 (PD_INDEX v)) = e" using installs_pde [OF assms, of i] assms(3) True by simp
  have e: "is_table e" "rw e" "e AND PAGE_MASK = ptl" and f: "tables s' (entry ptl (PT_INDEX v)) = f (PT_INDEX v)"
    using assms(2) by (simp_all add: installs_def)
  have "walk (tables s') cr3 v = (if present (f (PT_INDEX v))
      then Some ((f (PT_INDEX v) AND PAGE_MASK) OR PAGE_OFFSET v, user e \<and> user (f (PT_INDEX v)), rw (f (PT_INDEX v)))
      else None)"
    using e(1,2) by (simp add: walk_table pde e(3) f Let_def)
  with True show ?thesis by simp
next
  case False
  have pde: "tables s' (entry cr3 (PD_INDEX v)) = tables s (entry cr3 (PD_INDEX v))"
    using installs_pde [OF assms PD_INDEX_lt [of v]] False by simp
  have "walk (tables s') cr3 v = walk (tables s) cr3 v"
  proof (rule walk_cong [of "tables s'" cr3 v "tables s"], rule pde)
    assume t: "is_table (pde_at s cr3 (PD_INDEX v))"
    let ?p = "pde_at s cr3 (PD_INDEX v) AND PAGE_MASK"
    have "ptl \<in> free_slots s" and al: "aligned ptl" "aligned cr3"
      using assms(2) dir_okD(1) [OF assms(1)] unfolding installs_def by blast+
    then have "?p \<noteq> ptl" "?p \<noteq> cr3" using dir_okD(5,6) [OF assms(1) PD_INDEX_lt t] by metis+
    with al have "page_no (entry ?p (PT_INDEX v)) \<noteq> page_no ptl" "entry ?p (PT_INDEX v) \<noteq> entry cr3 i"
      using assms(3) by (simp_all add: page_no_entry aligned_eq entry_eq)
    then show "tables s' (entry ?p (PT_INDEX v)) = tables s (entry ?p (PT_INDEX v))"
      using assms(2) unfolding installs_def by blast
  qed
  with False show ?thesis by simp
qed

section \<open>Entry fields\<close>

lemma bit_set_flag: "bit (set_flag n b w) k \<longleftrightarrow> (if k = n then b \<and> n < 32 else bit w k)"
  using bit_imp_le_length [of w n] by (auto simp: set_flag_def bit_simps)

lemma bit_set_paddr: "bit (set_paddr p w) k \<longleftrightarrow> (if k < 12 then bit w k else k < 32 \<and> bit p (k - 12))"
  by (auto simp: set_paddr_def bit_simps)

lemmas field_simps' = bit_set_flag bit_set_paddr

lemma set_paddr_mask: "set_paddr (drop_bit 12 p) w AND PAGE_MASK = p AND PAGE_MASK"
  unfolding PAGE_MASK_eq by (rule bit_eqI) (auto simp: field_simps' bit_simps)

lemma set_paddr_mask': "set_paddr p w AND PAGE_MASK = push_bit 12 p"
  unfolding PAGE_MASK_eq by (rule bit_eqI) (auto simp: field_simps' bit_simps)

lemma split_pte_bits [simp]:
  "present (split_pte p u i) = present p" "rw (split_pte p u i) = rw p" "user (split_pte p u i) = u"
  by (simp_all add: split_pte_def Let_def field_simps')

text \<open>A page of the split table is at the address the 4 MB entry gave.\<close>

lemma split_pte_addr:
  assumes "e AND 0x3FF000 = 0"
  shows "(split_pte e u (PT_INDEX v) AND PAGE_MASK) OR PAGE_OFFSET v = (e AND 0xFFC00000) OR (v AND 0x3FFFFF)"
proof -
  have m: "(0x3FF000 :: u32) = push_bit 12 (mask 10)" "(0xFFC00000 :: u32) = NOT (mask 22)" "(0x3FFFFF :: u32) = mask 22"
    "(0xFFF :: u32) = mask 12"
    by (simp_all add: mask_eq_exp_minus_1 push_bit_eq_mult)
  have z: "\<not> bit e k" if "12 \<le> k" "k < 22" for k
  proof -
    have "bit (e AND 0x3FF000) k = (bit e k)" using that unfolding m by (auto simp: bit_simps)
    then show ?thesis using assms by simp
  qed
  have "paddr e + PT_INDEX v = paddr e OR PT_INDEX v"
    by (rule disjunctive_add) (auto simp: paddr_def PT_INDEX_def index_mask bit_simps z)
  then have s: "split_pte e u (PT_INDEX v) AND PAGE_MASK = push_bit 12 (paddr e OR PT_INDEX v)"
    by (simp add: split_pte_def Let_def set_paddr_mask')
  show ?thesis
    unfolding s PAGE_OFFSET_def m
    using z by (intro bit_eqI) (fastforce simp: bit_simps paddr_def PT_INDEX_def index_mask not_less)
qed


section \<open>Providing a table\<close>

text \<open>
  What \<^verbatim>\<open>arch_map_4kb\<close> does before it writes the page's entry: it splits a 4 MB entry, or adds a table
  where there is none.
\<close>

definition ensure_table :: "u32 \<Rightarrow> bool \<Rightarrow> paging \<Rightarrow> bool \<times> paging" where
  "ensure_table p u s =
     (if present (tables s p) \<and> page_size (tables s p)
      then let (r, s) = split_4mb_pde p u s in (r = 0, s)
      else if \<not> present (tables s p)
      then let (pt_pa, s) = arch_paging_pool_alloc s in
           if pt_pa = 0 then (False, s)
           else (True, clear_page pt_pa (put_entry p
                   (set_paddr (drop_bit 12 pt_pa) (set_flag 2 u (set_flag 1 True (set_flag 0 True 0)))) s))
      else (True, s))"

definition leaf :: "u32 \<Rightarrow> u32 \<Rightarrow> u32" where
  "leaf flags pa = set_paddr (drop_bit 12 pa)
     (set_flag 2 (user flags) (set_flag 1 (rw flags) (set_flag 0 (present flags) 0)))"

lemma leaf_fields [simp]:
  "present (leaf flags pa) = present flags" "rw (leaf flags pa) = rw flags" "user (leaf flags pa) = user flags"
  "leaf flags pa AND PAGE_MASK = pa AND PAGE_MASK"
  by (simp_all add: leaf_def field_simps' set_paddr_mask)

lemma index_guards [simp]: "\<not> 1024 \<le> PD_INDEX va" "\<not> 1024 \<le> PT_INDEX va"
  by (simp_all add: word_le_nat_alt not_le)

lemma fold_put_const:
  "(\<forall>i\<in>set is. pa \<noteq> e i) \<Longrightarrow>
   fold (\<lambda>i s. put_entry (e i) (g (tables s pa) i) s) is s = fold (\<lambda>i. put_entry (e i) (g (tables s pa) i)) is s"
  by (induction "is" arbitrary: s) auto

lemma paddr_set_flag [simp]: "n < 12 \<Longrightarrow> paddr (set_flag n b e) = paddr e"
  unfolding paddr_def by (rule bit_eqI) (auto simp: bit_simps bit_set_flag)

lemma split_pte_user [simp]: "split_pte (set_flag 2 b e) u i = split_pte e u i"
  by (simp add: split_pte_def Let_def bit_set_flag)

lemma entry_nonzero: "aligned p \<Longrightarrow> p \<noteq> 0 \<Longrightarrow> unat i < 1024 \<Longrightarrow> entry p i \<noteq> 0"
  using unat_entry [of p i] by (auto simp: unat_eq_u32)

text \<open>The outcome of splitting a 4 MB entry.\<close>

lemma split_installs:
  assumes "pool_ok s" and "dir_ok s cr3" and "unat i < 1024"
    and e: "e = pde_at s cr3 i" and "present e" and "page_size e"
  shows "(\<exists>r. r \<noteq> 0 \<and> split_4mb_pde (entry cr3 i) u s = (r, s) \<and> free_slots s = {}) \<or>
    (\<exists>s' ptl e'. split_4mb_pde (entry cr3 i) u s = (0, s') \<and> user e' = (user e \<or> u) \<and>
       installs s s' cr3 i ptl e' (split_pte e (user e)))"
proof -
  let ?p = "entry cr3 i"
  have cr3: "aligned cr3" "cr3 \<noteq> 0" "cr3 \<notin> free_slots s" using dir_okD [OF assms(2)] by auto
  have nz: "?p \<noteq> 0" by (rule entry_nonzero [OF cr3(1,2) assms(3)])
  have pe: "present (tables s ?p)" "page_size (tables s ?p)" using assms(5,6) e by auto
  from assms(1) show ?thesis
  proof (cases rule: pool_alloc_cases)
    case full
    then show ?thesis using nz pe by (simp add: split_4mb_pde_def)
  next
    case (page ptl t)
    have other: "page_no ?p \<noteq> page_no ptl" using cr3 page(2,4) assms(3) by (auto simp: page_no_entry aligned_eq)
    have te: "tables t ?p = e" using page(10) other e by simp
    define e1 where "e1 = (if u \<and> \<not> user e then set_flag 2 True e else e)"
    define t1 where "t1 = (if u \<and> \<not> user e then put_entry ?p (set_flag 2 True e) t else t)"
    define e' where "e' = set_paddr (drop_bit 12 ptl) (set_flag 7 False (set_flag 1 True (set_flag 0 True e1)))"
    define t2 where "t2 = fill ptl (\<lambda>i. split_pte e (user e) (of_nat i)) t1"
    have t1: "tables t1 ?p = e1" "\<And>a. a \<noteq> ?p \<Longrightarrow> tables t1 a = tables t a" by (auto simp: t1_def e1_def te)
    have "\<forall>k\<in>set [0..<1024]. ?p \<noteq> entry ptl (of_nat k)" by (auto dest: arg_cong [where f = page_no] simp: page_no_entry page(4) other)
    then have "fold (\<lambda>i s. put_entry (entry ptl (of_nat i)) (split_pte (tables s ?p) (user e) (of_nat i)) s) [0..<1024] t1 =
        fold (\<lambda>i. put_entry (entry ptl (of_nat i)) (split_pte (tables t1 ?p) (user e) (of_nat i))) [0..<1024] t1"
      by (rule fold_put_const)
    also have "\<dots> = t2" unfolding t2_def fill_def t1 by (simp add: e1_def)
    finally have loop: "fold (\<lambda>i s. put_entry (entry ptl (of_nat i)) (split_pte (tables s ?p) (user e) (of_nat i)) s) [0..<1024] t1 = t2" .
    have t2p: "tables t2 ?p = e1" using other page(4) t1(1) by (simp add: t2_def fill_other)
    have "split_4mb_pde ?p u s = (0, put_entry ?p e' t2)"
      using nz pe page(3) loop t2p
      by (cases "u \<and> \<not> user e") (auto simp: split_4mb_pde_def page(1) te Let_def t1_def e'_def)
    moreover have "user e' = (user e \<or> u)" by (auto simp: e'_def e1_def field_simps')
    moreover have "installs s (put_entry ?p e' t2) cr3 i ptl e' (split_pte e (user e))"
    proof -
      have em: "e' AND PAGE_MASK = ptl" using page(4) by (simp add: e'_def set_paddr_mask aligned_bits)
      have fr: "free_slots (put_entry ?p e' t2) = free_slots t" "live_slots (put_entry ?p e' t2) = live_slots t"
        by (rule slots_cong; simp add: t2_def t1_def)+
      have "pool_ok (put_entry ?p e' t2)" using page(5) by (simp add: pool_ok_def t2_def t1_def)
      moreover have "same_regs s (put_entry ?p e' t2)" using page(6) by (simp add: t2_def t1_def)
      moreover have "is_table e'" "rw e'" by (simp_all add: is_table_def e'_def field_simps')
      moreover have "tables (put_entry ?p e' t2) (entry ptl j) = split_pte e (user e) j" if "unat j < 1024" for j
        using that other page(4) page_no_entry [of ptl j] by (auto simp: t2_def fill_index)
      moreover have "tables (put_entry ?p e' t2) a = tables s a" if "page_no a \<noteq> page_no ptl" "a \<noteq> ?p" for a
        using that page(4,10) t1(2) by (simp add: t2_def fill_other)
      ultimately show ?thesis
        unfolding installs_def using page(2,4,7,8) em fr by simp
    qed
    ultimately show ?thesis by blast
  qed
qed


lemma split_walk:
  assumes "dir_ok s cr3" and "unat i < 1024" and e: "e = pde_at s cr3 i" "present e" "page_size e"
    and "installs s s' cr3 i ptl e' (split_pte e (user e))" and "user e' = (user e \<or> u)"
  shows "walk (tables s') cr3 v = walk (tables s) cr3 v"
proof (cases "PD_INDEX v = i")
  case True
  have "e AND 0x3FF000 = 0" using dir_okD(7) [OF assms(1,2)] e by simp
  then have "walk (tables s') cr3 v = Some ((e AND 0xFFC00000) OR (v AND 0x3FFFFF), user e, rw e)"
    using True e(2) assms(7) by (auto simp: installs_walk [OF assms(1,6,2)] split_pte_addr)
  moreover have "walk (tables s) cr3 v = Some ((e AND 0xFFC00000) OR (v AND 0x3FFFFF), user e, rw e)"
    using True e by (simp add: walk_def Let_def)
  ultimately show ?thesis by simp
next
  case False
  then show ?thesis by (simp add: installs_walk [OF assms(1,6,2)])
qed

text \<open>Adding an empty table where the directory has none.\<close>

lemma add_table_installs:
  assumes "pool_ok s" and "dir_ok s cr3" and "unat i < 1024" and np: "\<not> present (pde_at s cr3 i)"
  shows "(ensure_table (entry cr3 i) u s = (False, s) \<and> free_slots s = {}) \<or>
    (\<exists>s' ptl e. ensure_table (entry cr3 i) u s = (True, s') \<and> user e = u \<and> installs s s' cr3 i ptl e (\<lambda>_. 0))"
  using assms(1)
proof (cases rule: pool_alloc_cases)
  case full
  then show ?thesis using np by (simp add: ensure_table_def)
next
  case (page ptl t)
  let ?p = "entry cr3 i"
  have cr3: "aligned cr3" "cr3 \<noteq> 0" "cr3 \<notin> free_slots s" using dir_okD [OF assms(2)] by auto
  have other: "page_no ?p \<noteq> page_no ptl" using cr3 page(2,4) assms(3) by (auto simp: page_no_entry aligned_eq)
  define e where "e = set_paddr (drop_bit 12 ptl) (set_flag 2 u (set_flag 1 True (set_flag 0 True 0)))"
  define s' where "s' = clear_page ptl (put_entry ?p e t)"
  have "ensure_table ?p u s = (True, s')"
    using np page(1,3) by (simp add: ensure_table_def s'_def e_def)
  moreover have "user e = u" by (simp add: e_def field_simps')
  moreover have "installs s s' cr3 i ptl e (\<lambda>_. 0)"
  proof -
    have em: "e AND PAGE_MASK = ptl" using page(4) by (simp add: e_def set_paddr_mask aligned_bits)
    have fr: "free_slots s' = free_slots t" "live_slots s' = live_slots t"
      by (rule slots_cong; simp add: s'_def clear_page_fill)+
    have "pool_ok s'" using page(5) by (simp add: pool_ok_def s'_def clear_page_fill)
    moreover have "same_regs s s'" using page(6) by (simp add: s'_def clear_page_fill)
    moreover have "is_table e" "rw e" by (simp_all add: is_table_def e_def field_simps')
    moreover have "tables s' (entry ptl j) = 0" if "unat j < 1024" for j
      using that page(4) by (simp add: s'_def clear_page_fill fill_index)
    moreover have "tables s' ?p = e" using other page(4) by (simp add: s'_def clear_page_fill fill_other)
    moreover have "tables s' a = tables s a" if "page_no a \<noteq> page_no ptl" "a \<noteq> ?p" for a
      using that page(4,10) by (simp add: s'_def clear_page_fill fill_other)
    ultimately show ?thesis unfolding installs_def using page(2,4,7,8) em fr by simp
  qed
  ultimately show ?thesis by blast
qed

lemma ensure_table_cases:
  assumes "pool_ok s" and "dir_ok s cr3" and "unat i < 1024"
  obtains (full) "ensure_table (entry cr3 i) u s = (False, s)" and "free_slots s = {}"
    | (there) "ensure_table (entry cr3 i) u s = (True, s)" and "is_table (pde_at s cr3 i)"
    | (added) s' ptl e f where "ensure_table (entry cr3 i) u s = (True, s')"
        and "\<not> is_table (pde_at s cr3 i)" and "installs s s' cr3 i ptl e f"
        and "user e = (present (pde_at s cr3 i) \<and> user (pde_at s cr3 i) \<or> u)"
        and "\<And>v. walk (tables s') cr3 v = walk (tables s) cr3 v"
proof -
  let ?e = "pde_at s cr3 i"
  consider "\<not> present ?e" | "is_table ?e" | "present ?e" "page_size ?e" by (auto simp: is_table_def)
  then show thesis
  proof cases
    case 1
    from add_table_installs [OF assms 1, of u] show thesis
    proof (elim disjE exE conjE)
      fix s' ptl e
      assume en: "ensure_table (entry cr3 i) u s = (True, s')" and u: "user e = u"
        and ins: "installs s s' cr3 i ptl e (\<lambda>_. 0)"
      have "walk (tables s') cr3 v = walk (tables s) cr3 v" for v
        using 1 walk_absent [of "tables s" cr3 v]
        by (cases "PD_INDEX v = i") (simp_all add: installs_walk [OF assms(2) ins assms(3)])
      then show thesis using added [OF en _ ins] 1 u by (simp add: is_table_def)
    qed (rule full)
  next
    case 2
    then show thesis using there by (simp add: ensure_table_def is_table_def)
  next
    case 3
    have en: "ensure_table (entry cr3 i) u s = (let (r, s) = split_4mb_pde (entry cr3 i) u s in (r = 0, s))"
      using 3 by (simp add: ensure_table_def)
    from split_installs [OF assms refl 3, of u] show thesis
    proof (elim disjE exE conjE)
      fix r assume "r \<noteq> 0" "split_4mb_pde (entry cr3 i) u s = (r, s)" "free_slots s = {}"
      then show thesis using full en by simp
    next
      fix s' ptl e'
      assume sp: "split_4mb_pde (entry cr3 i) u s = (0, s')" and u: "user e' = (user ?e \<or> u)"
        and ins: "installs s s' cr3 i ptl e' (split_pte ?e (user ?e))"
      then show thesis
        using added [of s' ptl e' "split_pte ?e (user ?e)"] en 3 split_walk [OF assms(2,3) refl 3 ins u]
        by (simp add: is_table_def)
    qed
  qed
qed

section \<open>Mapping one page\<close>

lemma split_present: "split_4mb_pde p u s = (0, t) \<Longrightarrow> present (tables t p)"
  by (auto simp: split_4mb_pde_def Let_def field_simps' split: if_splits prod.splits)

lemma arch_map_4kb_eq:
  "cr3 \<noteq> 0 \<Longrightarrow> arch_map_4kb cr3 va pa flags s =
     (case ensure_table (entry cr3 (PD_INDEX va)) (user flags) s of
        (False, t) \<Rightarrow> (E_NOMEM, t)
      | (True, t) \<Rightarrow> (0, put_entry (entry (pde_at t cr3 (PD_INDEX va) AND PAGE_MASK) (PT_INDEX va)) (leaf flags pa) t))"
proof -
  assume nz: "cr3 \<noteq> 0"
  let ?p = "entry cr3 (PD_INDEX va)"
  show ?thesis
  proof (cases "present (tables s ?p) \<and> page_size (tables s ?p)")
    case True
    obtain r t where sp: "split_4mb_pde ?p (user flags) s = (r, t)" by fastforce
    then show ?thesis
      using nz True split_present [of ?p "user flags" s t]
      by (cases "r = 0") (simp_all add: arch_map_4kb_def ensure_table_def leaf_def ptbl_of_pde_eq)
  next
    case False
    obtain pt t where al: "arch_paging_pool_alloc s = (pt, t)" by fastforce
    have "(if present (tables s ?p) \<and> page_size (tables s ?p) then split_4mb_pde ?p (user flags) s else (0, s)) = (0, s)"
      using False by auto
    then show ?thesis
      using nz al False
      by (cases "present (tables s ?p)"; cases "pt = 0")
        (simp_all add: arch_map_4kb_def ensure_table_def leaf_def ptbl_of_pde_eq Let_def)
  qed
qed

text \<open>
  After a successful call the page translates to the frame asked for, every other page as before.
  User mode reaches the page if \<^verbatim>\<open>PTE_USER\<close> was asked for and the page is not under a table that was
  already there with a supervisor entry.
\<close>

definition map_effect :: "u32 \<Rightarrow> u32 \<Rightarrow> u32 \<Rightarrow> u32 \<Rightarrow> paging \<Rightarrow> paging \<Rightarrow> bool" where
  "map_effect cr3 va pa flags s s' \<longleftrightarrow>
     walk (tables s') cr3 va =
       (if present flags
        then Some ((pa AND PAGE_MASK) OR PAGE_OFFSET va,
                   user flags \<and> (is_table (pde_at s cr3 (PD_INDEX va)) \<longrightarrow> user (pde_at s cr3 (PD_INDEX va))), rw flags)
        else None) \<and>
     (\<forall>v. page_no v \<noteq> page_no va \<longrightarrow> walk (tables s') cr3 v = walk (tables s) cr3 v)"

lemma put_leaf:
  assumes "dir_ok s cr3" and t: "is_table (pde_at s cr3 (PD_INDEX va))"
    and s': "s' = put_entry (entry (pde_at s cr3 (PD_INDEX va) AND PAGE_MASK) (PT_INDEX va)) w s"
  shows "dir_ok s' cr3" and "is_table (pde_at s' cr3 (PD_INDEX va))"
    and "walk (tables s') cr3 va = (if present w then Some ((w AND PAGE_MASK) OR PAGE_OFFSET va,
           user (pde_at s cr3 (PD_INDEX va)) \<and> user w, rw w) else None)"
    and "page_no v \<noteq> page_no va \<Longrightarrow> walk (tables s') cr3 v = walk (tables s) cr3 v"
proof -
  note D = dir_okD [OF assms(1)]
  let ?p = "pde_at s cr3 (PD_INDEX va) AND PAGE_MASK"
  have p: "?p \<noteq> cr3" using D(5) t by simp
  have pde: "pde_at s' cr3 j = pde_at s cr3 j" if "unat j < 1024" for j
    using that p D(1) by (simp add: s' entry_eq)
  have fr: "free_slots s' = free_slots s" by (rule slots_cong) (simp_all add: s')
  show "dir_ok s' cr3"
    using assms(1) unfolding dir_ok_def Let_def fr by (simp add: pde)
  show "is_table (pde_at s' cr3 (PD_INDEX va))" using t by (simp add: pde)
  show "walk (tables s') cr3 va = (if present w then Some ((w AND PAGE_MASK) OR PAGE_OFFSET va,
           user (pde_at s cr3 (PD_INDEX va)) \<and> user w, rw w) else None)"
    using t D(4) [OF PD_INDEX_lt t] by (simp add: walk_table pde Let_def) (simp add: s')
  show "walk (tables s') cr3 v = walk (tables s) cr3 v" if v: "page_no v \<noteq> page_no va"
  proof (rule walk_cong [of "tables s'" cr3 v "tables s"])
    show "pde_at s' cr3 (PD_INDEX v) = pde_at s cr3 (PD_INDEX v)" by (simp add: pde)
    assume t': "is_table (pde_at s cr3 (PD_INDEX v))"
    have "PD_INDEX v \<noteq> PD_INDEX va \<or> PT_INDEX v \<noteq> PT_INDEX va" using v same_page by blast
    then have "entry (pde_at s cr3 (PD_INDEX v) AND PAGE_MASK) (PT_INDEX v) \<noteq> entry ?p (PT_INDEX va)"
      using D(8) [OF PD_INDEX_lt PD_INDEX_lt t' t] by (auto simp: entry_eq)
    then show "tables s' (entry (pde_at s cr3 (PD_INDEX v) AND PAGE_MASK) (PT_INDEX v)) =
        tables s (entry (pde_at s cr3 (PD_INDEX v) AND PAGE_MASK) (PT_INDEX v))"
      by (simp add: s')
  qed
qed


lemma map_4kb_ok:
  assumes "pool_ok s" and "dir_ok s cr3" and "arch_map_4kb cr3 va pa flags s = (r, s')"
  shows "pool_ok s' \<and> dir_ok s' cr3 \<and>
    (if r = 0 then map_effect cr3 va pa flags s s' \<and> is_table (pde_at s' cr3 (PD_INDEX va)) else r = E_NOMEM \<and> free_slots s = {} \<and> s' = s)"
  using assms(1,2) PD_INDEX_lt [of va]
proof (cases rule: ensure_table_cases [of s cr3 "PD_INDEX va" "user flags"])
  case full
  with assms show ?thesis by (simp add: arch_map_4kb_eq dir_okD)
next
  case there
  have s': "r = 0" "s' = put_entry (entry (pde_at s cr3 (PD_INDEX va) AND PAGE_MASK) (PT_INDEX va)) (leaf flags pa) s"
    using there(1) assms(3) dir_okD(2) [OF assms(2)] by (simp_all add: arch_map_4kb_eq)
  have "pool_ok s'" using assms(1) by (simp add: s' pool_ok_def)
  then show ?thesis using put_leaf [OF assms(2) there(2) s'(2)] there(2) s'(1) by (auto simp: map_effect_def)
next
  case (added t ptl e f)
  have t: "pde_at t cr3 (PD_INDEX va) = e" "is_table e" using added(3) by (simp_all add: installs_def)
  have s': "r = 0" "s' = put_entry (entry (pde_at t cr3 (PD_INDEX va) AND PAGE_MASK) (PT_INDEX va)) (leaf flags pa) t"
    using added(1) assms(3) dir_okD(2) [OF assms(2)] by (simp_all add: arch_map_4kb_eq)
  have "dir_ok t cr3" by (rule installs_dir_ok [OF assms(2) added(3) PD_INDEX_lt])
  note L = put_leaf [OF this _ s'(2)]
  have "pool_ok s'" using added(3) by (simp add: s'(2) pool_ok_def installs_def)
  then show ?thesis using L t added(2,4,5) s'(1) by (auto simp: map_effect_def)
qed

text \<open>
  Property C5: mapping a page with \<^verbatim>\<open>arch_map_4kb\<close>.  In a well-formed address space the call fails, with
  nothing changed, only when the pool of page tables is exhausted; otherwise the page translates to
  the frame asked for (to nothing, if the flags lack the present bit) and is writable as asked for.  It is accessible
  to user mode when the flags ask for it, except where a page table without the user bit covered the address
  before: then the call succeeds and the page stays out of reach of user mode.  Every other page, also
  those of a 4 MB page that had to be split, translates exactly as before, and the address space stays well formed.
\<close>

theorem arch_map_4kb_correct:
  assumes "pool_ok s" and "dir_ok s cr3" and "arch_map_4kb cr3 va pa flags s = (r, s')"
  shows "pool_ok s' \<and> dir_ok s' cr3 \<and>
    (if r = 0 then map_effect cr3 va pa flags s s' else r = E_NOMEM \<and> free_slots s = {} \<and> s' = s)"
  using map_4kb_ok [OF assms] by (auto split: if_splits)

section \<open>Unmapping one page\<close>

lemma unmap_4kb_ok:
  assumes "dir_ok s cr3" and "USER_HEAP_BASE \<le> va"
    and "\<not> (present (pde_at s cr3 (PD_INDEX va)) \<and> page_size (pde_at s cr3 (PD_INDEX va)))"
    and "s' = arch_unmap_4kb cr3 va s"
  shows "dir_ok s' cr3 \<and> walk (tables s') cr3 va = None \<and>
    (\<forall>v. page_no v \<noteq> page_no va \<longrightarrow> walk (tables s') cr3 v = walk (tables s) cr3 v) \<and> free_slots s' = free_slots s"
proof (cases "is_table (pde_at s cr3 (PD_INDEX va))")
  case False
  then have "\<not> present (pde_at s cr3 (PD_INDEX va))" using assms(3) by (auto simp: is_table_def)
  then have "s' = s" "walk (tables s) cr3 va = None"
    using assms(4) dir_okD(2) [OF assms(1)] by (simp_all add: arch_unmap_4kb_def walk_absent Let_def)
  then show ?thesis using assms(1) by simp
next
  case t: True
  let ?a = "entry (pde_at s cr3 (PD_INDEX va) AND PAGE_MASK) (PT_INDEX va)"
  have eq: "s' = (if present (tables s ?a) then put_entry ?a 0 s else s)"
    using assms(2,4) t dir_okD(2) [OF assms(1)]
    by (simp add: arch_unmap_4kb_def Let_def ptbl_of_pde_eq is_table_def)
  show ?thesis
  proof (cases "present (tables s ?a)")
    case True
    then have s': "s' = put_entry ?a 0 s" using eq by simp
    have "free_slots s' = free_slots s" by (rule slots_cong) (simp_all add: s')
    then show ?thesis using put_leaf [OF assms(1) t s'] by simp
  next
    case False
    then show ?thesis using eq assms(1) t by (simp add: walk_table Let_def)
  qed
qed


text \<open>
  Property C33: unmapping a page above \<^verbatim>\<open>USER_HEAP_BASE\<close> with \<^verbatim>\<open>arch_unmap_4kb\<close>, where the directory has a table or
  nothing: the page no longer translates, every other page translates as before, and no page of the
  pool changes hands.
\<close>

theorem arch_unmap_4kb_correct:
  assumes "dir_ok s cr3" and "USER_HEAP_BASE \<le> va"
    and "\<not> (present (pde_at s cr3 (PD_INDEX va)) \<and> page_size (pde_at s cr3 (PD_INDEX va)))"
    and "s' = arch_unmap_4kb cr3 va s"
  shows "dir_ok s' cr3 \<and> walk (tables s') cr3 va = None \<and>
    (\<forall>v. page_no v \<noteq> page_no va \<longrightarrow> walk (tables s') cr3 v = walk (tables s) cr3 v) \<and> free_slots s' = free_slots s"
  by (rule unmap_4kb_ok [OF assms])

section \<open>Isolation of address spaces\<close>

text \<open>The tables a directory refers to.\<close>

definition tables_of :: "paging \<Rightarrow> u32 \<Rightarrow> u32 set" where
  "tables_of s cr3 = {pde_at s cr3 i AND PAGE_MASK | i. unat i < 1024 \<and> is_table (pde_at s cr3 i)}"

text \<open>Two directories that do not share the table for \<open>va\<close>, if the first has one.\<close>

definition unshared :: "paging \<Rightarrow> u32 \<Rightarrow> u32 \<Rightarrow> u32 \<Rightarrow> bool" where
  "unshared s cr3 d va \<longleftrightarrow> d \<noteq> cr3 \<and> cr3 \<notin> tables_of s d \<and>
     (is_table (pde_at s cr3 (PD_INDEX va)) \<longrightarrow>
        pde_at s cr3 (PD_INDEX va) AND PAGE_MASK \<noteq> d \<and> pde_at s cr3 (PD_INDEX va) AND PAGE_MASK \<notin> tables_of s d)"

lemma walk_frame:
  fixes s s' :: paging
  assumes "aligned d"
    and "\<And>a. page_no a = page_no d \<or> (\<exists>p\<in>tables_of s d. page_no a = page_no p) \<Longrightarrow> tables s' a = tables s a"
  shows "walk (tables s') d v = walk (tables s) d v"
proof (rule walk_cong [of "tables s'" d v "tables s"])
  show "pde_at s' d (PD_INDEX v) = pde_at s d (PD_INDEX v)" using assms by (simp add: page_no_entry)
  assume t: "is_table (pde_at s d (PD_INDEX v))"
  then have "pde_at s d (PD_INDEX v) AND PAGE_MASK \<in> tables_of s d" by (force simp: tables_of_def)
  then show "tables s' (entry (pde_at s d (PD_INDEX v) AND PAGE_MASK) (PT_INDEX v)) =
      tables s (entry (pde_at s d (PD_INDEX v) AND PAGE_MASK) (PT_INDEX v))"
    by (intro assms(2)) (auto simp: page_no_entry)
qed

lemma tables_of_ok: "dir_ok s d \<Longrightarrow> p \<in> tables_of s d \<Longrightarrow> aligned p \<and> p \<noteq> d \<and> p \<notin> free_slots s"
  using dir_okD [of s d] by (auto simp: tables_of_def)

lemma installs_frame:
  assumes "dir_ok s d" and "aligned cr3" and "installs s t cr3 i ptl e f" and "unat i < 1024"
    and "d \<noteq> cr3" and "cr3 \<notin> tables_of s d"
    and "page_no a = page_no d \<or> (\<exists>p\<in>tables_of s d. page_no a = page_no p)"
  shows "tables t a = tables s a" and "page_no a \<noteq> page_no ptl"
proof -
  have p: "ptl \<in> free_slots s" "aligned ptl" using assms(3) by (auto simp: installs_def)
  have n: "page_no a \<noteq> page_no q" if "aligned q" "q \<noteq> d" "q \<notin> tables_of s d" for q
    using assms(7) tables_of_ok [OF assms(1)] dir_okD(1) [OF assms(1)] that by (metis aligned_eq)
  show "page_no a \<noteq> page_no ptl"
    using n [OF p(2)] p(1) dir_okD(3) [OF assms(1)] tables_of_ok [OF assms(1)] by blast
  moreover have "a \<noteq> entry cr3 i"
    using n [OF assms(2)] assms(2,4,5,6) page_no_entry by metis
  ultimately show "tables t a = tables s a" using assms(3) unfolding installs_def by blast
qed

text \<open>
  Property C34: isolation.  Mapping a page in one address space changes no translation of another
  address space, unless the two share the page table that covers the address (as all user spaces
  share the tables of the user heap).
\<close>

theorem arch_map_4kb_isolation:
  assumes "pool_ok s" and "dir_ok s cr3" and "dir_ok s d" and "unshared s cr3 d va"
  shows "walk (tables (snd (arch_map_4kb cr3 va pa flags s))) d v = walk (tables s) d v"
proof -
  have cr3: "aligned cr3" "cr3 \<noteq> 0" using dir_okD [OF assms(2)] by auto
  have d: "d \<noteq> cr3" "cr3 \<notin> tables_of s d" using assms(4) by (auto simp: unshared_def)
  have fr: "page_no a \<noteq> page_no q" if "page_no a = page_no d \<or> (\<exists>p\<in>tables_of s d. page_no a = page_no p)"
    "aligned q" "q \<noteq> d" "q \<notin> tables_of s d" for a q
    using that tables_of_ok [OF assms(3)] dir_okD(1) [OF assms(3)] by (metis aligned_eq)
  show ?thesis
    using assms(1,2) PD_INDEX_lt [of va]
  proof (cases rule: ensure_table_cases [of s cr3 "PD_INDEX va" "user flags"])
    case full
    then show ?thesis using cr3 by (simp add: arch_map_4kb_eq)
  next
    case there
    let ?p = "pde_at s cr3 (PD_INDEX va) AND PAGE_MASK"
    have "?p \<noteq> d" "?p \<notin> tables_of s d" using assms(4) there(2) by (auto simp: unshared_def)
    then have "page_no a \<noteq> page_no ?p" if "page_no a = page_no d \<or> (\<exists>p\<in>tables_of s d. page_no a = page_no p)" for a
      using fr [OF that aligned_mask] by blast
    then have "tables (snd (arch_map_4kb cr3 va pa flags s)) a = tables s a"
      if "page_no a = page_no d \<or> (\<exists>p\<in>tables_of s d. page_no a = page_no p)" for a
      using that there(1) cr3(2) page_no_entry [OF aligned_mask PT_INDEX_lt] by (auto simp: arch_map_4kb_eq)
    then show ?thesis by (rule walk_frame [OF dir_okD(1) [OF assms(3)]])
  next
    case (added t ptl e f)
    have e: "pde_at t cr3 (PD_INDEX va) AND PAGE_MASK = ptl" "aligned ptl"
      using added(3) by (simp_all add: installs_def)
    note I = installs_frame [OF assms(3) cr3(1) added(3) PD_INDEX_lt d]
    have "tables (snd (arch_map_4kb cr3 va pa flags s)) a = tables s a"
      if "page_no a = page_no d \<or> (\<exists>p\<in>tables_of s d. page_no a = page_no p)" for a
      using I [OF that] e added(1) cr3 by (auto simp: arch_map_4kb_eq page_no_entry)
    then show ?thesis by (rule walk_frame [OF dir_okD(1) [OF assms(3)]])
  qed
qed

section \<open>Validation of user ranges\<close>

text \<open>User mode may read (or write) at \<open>va\<close>.\<close>

definition user_access :: "paging \<Rightarrow> bool \<Rightarrow> u32 \<Rightarrow> bool" where
  "user_access s for_write va \<longleftrightarrow>
     (case walk (tables s) (arch_get_cr3 s AND PAGE_MASK) va of
        None \<Rightarrow> False | Some (_, u, w) \<Rightarrow> u \<and> (for_write \<longrightarrow> w))"

lemma and_bit7: "(e :: u32) AND 0x80 \<noteq> 0 \<longleftrightarrow> bit e 7"
  using and_exp_eq_0_iff_not_bit [of e 7] by simp

lemma page_ok_access: "page_ok s w va \<longleftrightarrow> user_access s w va"
  unfolding page_ok_def user_access_def walk_def Let_def entry_def and_bit7 by auto

lemma user_access_page: "page_no a = page_no b \<Longrightarrow> user_access s w a \<longleftrightarrow> user_access s w b"
  by (simp add: user_access_def walk_def Let_def same_page)

lemma unat_page_remain: "unat (page_remain a n) = min (unat n) (4096 - unat a mod 4096)"
proof -
  have m: "(0xFFF :: u32) = mask 12" by (simp add: mask_eq_exp_minus_1)
  have "PAGE_OFFSET a = take_bit 12 a"
    unfolding PAGE_OFFSET_def m by (rule bit_eqI) (auto simp: bit_simps)
  then have "unat (PAGE_OFFSET a) = unat a mod 4096" by (simp add: take_bit_eq_mod unat_mod)
  moreover have "unat a mod 4096 < 4096" by simp
  ultimately have "unat (4096 - PAGE_OFFSET a) = 4096 - unat a mod 4096" by (simp add: unat_sub_u32)
  then show ?thesis by (simp add: page_remain_def Let_def word_less_nat_alt)
qed

lemma div_same: "a mod m + k < m \<Longrightarrow> (a + k) div m = a div (m :: nat)"
proof -
  assume "a mod m + k < m"
  moreover have "(a + k) div m = (m * (a div m) + (a mod m + k)) div m" by simp
  ultimately show ?thesis by (simp only: div_mult_self4) simp
qed

lemma all_less_split: "r \<le> n \<Longrightarrow> (\<forall>k<n. P k) \<longleftrightarrow> (\<forall>k<r. P k) \<and> (\<forall>k<n - r. P (r + k :: nat))"
proof (intro iffI conjI allI impI)
  fix k assume "(\<forall>k<r. P k) \<and> (\<forall>k<n - r. P (r + k))" "k < n" "r \<le> n"
  then show "P k" by (cases "k < r") (auto dest: spec [where x = "k - r"])
qed auto

lemma validate_loop_iff:
  "unat a + unat n \<le> 4294967296 \<Longrightarrow>
   validate_loop s w a n \<longleftrightarrow> (\<forall>k<unat n. user_access s w (a + of_nat k))"
proof (induction s w a n rule: validate_loop.induct)
  case (1 s w a n)
  show ?case
  proof (cases "n = 0")
    case True
    then show ?thesis by (simp add: validate_loop.simps)
  next
    case False
    define r where "r = unat (page_remain a n)"
    have n: "0 < unat n" using False by (simp add: unat_gt_0)
    have r: "0 < r" "r \<le> unat n" "unat a mod 4096 + r \<le> 4096"
      using n by (auto simp: r_def unat_page_remain)
    have same: "user_access s w (a + of_nat k) \<longleftrightarrow> user_access s w a" if "k < r" for k
    proof (rule user_access_page)
      have "unat (a + of_nat k) = unat a + k" using that r 1(2) by (simp add: unat_add_u32)
      then show "page_no (a + of_nat k) = page_no a" using that r(3) by (simp add: div_same)
    qed
    have rest: "unat (n - page_remain a n) = unat n - r" using r(2) by (simp add: r_def unat_sub_u32)
    have "unat (a + page_remain a n) + unat (n - page_remain a n) \<le> 4294967296"
    proof -
      have "unat (a + page_remain a n) \<le> unat a + r" by (simp add: r_def unat_word_ariths)
      then show ?thesis using 1(2) r(2) rest by simp
    qed
    then have "validate_loop s w a n \<longleftrightarrow> user_access s w a \<and>
        (\<forall>k<unat n - r. user_access s w (a + page_remain a n + of_nat k))"
      using 1(1) [OF _ _ refl] False rest by (simp add: validate_loop.simps [of s w a n] page_ok_access word_gt_0)
    also have "\<dots> \<longleftrightarrow> (\<forall>k<r. user_access s w (a + of_nat k)) \<and> (\<forall>k<unat n - r. user_access s w (a + of_nat (r + k)))"
      using same r(1) by (auto simp: r_def add.assoc)
    also have "\<dots> \<longleftrightarrow> (\<forall>k<unat n. user_access s w (a + of_nat k))"
      using all_less_split [OF r(2), of "\<lambda>k. user_access s w (a + of_nat k)"] by simp
    finally show ?thesis .
  qed
qed

lemma validate_range_iff:
  "arch_validate_user_range s a n w \<longleftrightarrow>
     n = 0 \<or> unat a + unat n \<le> unat USER_SPACE_TOP \<and>
     {a + of_nat k | k. k < unat n} \<subseteq> {va. user_access s w va}"
proof (cases "unat a + unat n < 4294967296")
  case True
  then have "\<not> a + n < a" and u: "unat (a + n) = unat a + unat n" by (simp_all add: word_less_nat_alt unat_add_u32)
  moreover have "{a + of_nat k | k. k < unat n} \<subseteq> {va. user_access s w va} \<longleftrightarrow> validate_loop s w a n"
    using True by (auto simp: validate_loop_iff)
  moreover have "\<not> (USER_SPACE_TOP \<le> a \<or> USER_SPACE_TOP < a + n) \<longleftrightarrow> unat a + unat n \<le> unat USER_SPACE_TOP" if "n \<noteq> 0"
    using u that unat_gt_0 [of n] by (auto simp: word_le_nat_alt word_less_nat_alt)
  ultimately show ?thesis by (auto simp: arch_validate_user_range_def)
next
  case False
  have "unat a + unat n - 4294967296 < 4294967296"
    using unat_u32_lt [of a] unat_u32_lt [of n] by linarith
  then have "unat (a + n) = unat a + unat n - 4294967296"
    using False by (simp add: unat_word_ariths mod_if [of "unat a + unat n"])
  then have "unat (a + n) < unat a" "\<not> unat a + unat n \<le> unat USER_SPACE_TOP"
    using False unat_u32_lt [of n] unat_u32_lt [of USER_SPACE_TOP] by linarith+
  then show ?thesis by (auto simp: arch_validate_user_range_def word_less_nat_alt)
qed

text \<open>
  Property C18: \<^verbatim>\<open>arch_validate_user_range\<close> accepts a range exactly when it is empty, or lies below
  \<^verbatim>\<open>USER_SPACE_TOP\<close> and the processor would let user mode access every single byte of it (for writing, if
  asked): the loop visits one byte per page and wraps nowhere.
\<close>

theorem arch_validate_user_range_correct:
  "arch_validate_user_range s a n w \<longleftrightarrow>
     n = 0 \<or> unat a + unat n \<le> unat USER_SPACE_TOP \<and>
     {a + of_nat k | k. k < unat n} \<subseteq> {va. user_access s w va}"
  by (rule validate_range_iff)

section \<open>Cloning and destroying an address space\<close>

lemma fold_put_copy:
  "(\<forall>i\<in>set is. \<forall>j\<in>set is. g j \<noteq> e i) \<Longrightarrow>
   fold (\<lambda>i s. put_entry (e i) (tables s (g i)) s) is s = fold (\<lambda>i. put_entry (e i) (tables s (g i))) is s"
proof (induction "is" arbitrary: s)
  case (Cons i "is")
  then have "fold (\<lambda>i s. put_entry (e i) (tables s (g i)) s) is (put_entry (e i) (tables s (g i)) s) =
      fold (\<lambda>j. put_entry (e j) (tables (put_entry (e i) (tables s (g i)) s) (g j))) is (put_entry (e i) (tables s (g i)) s)"
    by simp
  also have "\<dots> = fold (\<lambda>j. put_entry (e j) (tables s (g j))) is (put_entry (e i) (tables s (g i)) s)"
    by (rule fold_cong) (use Cons.prems in auto)
  finally show ?case by simp
qed simp

lemma clone_fill:
  assumes "aligned p" and "aligned (kernel_pdir_phys s)" and "p \<noteq> kernel_pdir_phys s" and "p \<noteq> 0"
  shows "arch_clone_kernel_pde p u s = (p, fill p (\<lambda>i. pde_at s (kernel_pdir_phys s) (of_nat i)) s)"
proof -
  let ?k = "kernel_pdir_phys s"
  have ext: "fold (\<lambda>i s. put_entry (entry p (of_nat i)) (tables s (entry (kernel_pdir_phys s) (of_nat i))) s) is t =
      fold (\<lambda>i s. put_entry (entry p (of_nat i)) (tables s (entry ?k (of_nat i))) s) is t"
    if "kernel_pdir_phys t = ?k" for "is" and t :: paging
    using that by (induction "is" arbitrary: t) auto
  have "\<forall>i\<in>set [0..<1024]. \<forall>j\<in>set [0..<1024]. entry ?k (of_nat j) \<noteq> entry p (of_nat i)"
    using assms by (auto simp: entry_eq)
  from fold_put_copy [OF this, of s] show ?thesis
    using assms(4) by (simp add: arch_clone_kernel_pde_def ext fill_def)
qed

lemma clone_walk:
  assumes "dir_ok s (kernel_pdir_phys s)" and "aligned p" and "p \<noteq> kernel_pdir_phys s"
    and "p \<notin> tables_of s (kernel_pdir_phys s)"
  shows "walk (tables (fill p (\<lambda>i. pde_at s (kernel_pdir_phys s) (of_nat i)) s)) p v =
    walk (tables s) (kernel_pdir_phys s) v"
proof -
  let ?k = "kernel_pdir_phys s" and ?t = "fill p (\<lambda>i. pde_at s (kernel_pdir_phys s) (of_nat i)) s"
  have pde: "pde_at ?t p (PD_INDEX v) = pde_at s ?k (PD_INDEX v)"
    using assms(2) by (simp add: fill_index)
  have pte: "tables ?t (entry (pde_at s ?k (PD_INDEX v) AND PAGE_MASK) (PT_INDEX v)) =
      tables s (entry (pde_at s ?k (PD_INDEX v) AND PAGE_MASK) (PT_INDEX v))"
    if "is_table (pde_at s ?k (PD_INDEX v))"
  proof (rule fill_other [OF assms(2)])
    have "pde_at s ?k (PD_INDEX v) AND PAGE_MASK \<in> tables_of s ?k" using that by (force simp: tables_of_def)
    then show "page_no (entry (pde_at s ?k (PD_INDEX v) AND PAGE_MASK) (PT_INDEX v)) \<noteq> page_no p"
      using assms(2,4) by (auto simp: page_no_entry aligned_eq)
  qed
  show ?thesis unfolding walk_def Let_def pde using pte by (auto simp: is_table_def)
qed


text \<open>The private entries among the first \<open>n\<close> of a directory: those \<^verbatim>\<open>arch_destroy_address_space\<close> clears.\<close>

definition private_pde :: "paging \<Rightarrow> u32 \<Rightarrow> nat \<Rightarrow> bool" where
  "private_pde s d i \<longleftrightarrow> present (pde_at s d (of_nat i)) \<and>
     paddr (pde_at s d (of_nat i)) \<noteq> paddr (pde_at s (kernel_pdir_phys s) (of_nat i))"

definition private_tables :: "paging \<Rightarrow> u32 \<Rightarrow> nat \<Rightarrow> u32 list" where
  "private_tables s d n = map (\<lambda>i. pde_at s d (of_nat i) AND PAGE_MASK) (filter (private_pde s d) [0..<n])"

lemma destroy_loop:
  assumes "pool_ok s" and "aligned d" and "aligned (kernel_pdir_phys s)" and "d \<noteq> kernel_pdir_phys s"
    and "distinct (private_tables s d n)" and "set (private_tables s d n) \<subseteq> live_slots s" and "n \<le> 1024"
  shows "pool_ok (fold (destroy_body d) [0..<n] s) \<and> same_regs s (fold (destroy_body d) [0..<n] s) \<and>
    live_slots (fold (destroy_body d) [0..<n] s) = live_slots s - set (private_tables s d n) \<and>
    tables (fold (destroy_body d) [0..<n] s) =
      (\<lambda>a. if \<exists>i<n. private_pde s d i \<and> a = entry d (of_nat i) then 0 else tables s a)"
  using assms(5-7)
proof (induction n)
  case 0
  then show ?case using assms(1) by (simp add: private_tables_def fun_eq_iff)
next
  case (Suc n)
  let ?t = "fold (destroy_body d) [0..<n] s"
  have IH: "pool_ok ?t" "same_regs s ?t" "live_slots ?t = live_slots s - set (private_tables s d n)"
    "tables ?t = (\<lambda>a. if \<exists>i<n. private_pde s d i \<and> a = entry d (of_nat i) then 0 else tables s a)"
    using Suc by (auto simp: private_tables_def)
  have n: "unat (of_nat n :: u32) < 1024" using Suc.prems(3) by simp
  have k: "kernel_pdir_phys ?t = kernel_pdir_phys s" using IH(2) by (simp add: same_regs_def)
  have "entry d (of_nat n) \<noteq> entry d (of_nat i)" if "i < n" for i
    using that assms(2) Suc.prems(3) by (simp add: entry_eq of_nat_inj_u32)
  then have e: "pde_at ?t d (of_nat n) = pde_at s d (of_nat n)" by (auto simp: IH(4))
  have "entry (kernel_pdir_phys s) (of_nat n) \<noteq> entry d (of_nat i)" if "i < n" for i
    using that assms(2-4) Suc.prems(3) by (simp add: entry_eq)
  then have ke: "pde_at ?t (kernel_pdir_phys s) (of_nat n) = pde_at s (kernel_pdir_phys s) (of_nat n)" by (auto simp: IH(4))
  have body: "fold (destroy_body d) [0..<Suc n] s =
      (if private_pde s d n then put_entry (entry d (of_nat n)) 0 (arch_paging_pool_free (pde_at s d (of_nat n) AND PAGE_MASK) ?t) else ?t)"
    by (auto simp: destroy_body_def Let_def k e ke private_pde_def ptbl_of_pde_eq [unfolded ptbl_of_pde_def])
  show ?case
  proof (cases "private_pde s d n")
    case False
    then have "private_tables s d (Suc n) = private_tables s d n" by (simp add: private_tables_def)
    then show ?thesis unfolding body using IH False by (auto simp: less_Suc_eq fun_eq_iff)
  next
    case True
    let ?p = "pde_at s d (of_nat n) AND PAGE_MASK"
    have pt: "private_tables s d (Suc n) = private_tables s d n @ [?p]" using True by (simp add: private_tables_def)
    have "?p \<in> live_slots ?t" using Suc.prems(1,2) IH(3) by (auto simp: pt)
    note F = pool_free_live [OF IH(1) this]
    have l: "live_slots (put_entry (entry d (of_nat n)) 0 (arch_paging_pool_free ?p ?t)) = live_slots (arch_paging_pool_free ?p ?t)"
      by (rule slots_cong) simp_all
    show ?thesis
      unfolding body using True F IH l same_regs_trans [OF IH(2) F(4)]
      by (auto simp: pool_ok_def pt less_Suc_eq fun_eq_iff)
  qed
qed


section \<open>Witnesses\<close>

text \<open>Two directories: the first maps 4 MB at 0, the second 4 MB at 4 MB.\<close>

definition two_spaces :: paging where
  "two_spaces = \<lparr>tables = (\<lambda>_. 0)(0x200000 := 0x83, 0x300004 := 0x400083), pool_base = 0x400000,
     paging_pool_used = replicate 64 0, paging_pool_lock = Some 0, paging_lock = Some 1,
     kernel_pdir_phys = 0x200000, cpu_cr3 = 0x200000\<rparr>"

lemma two_spaces_pool: "pool_ok two_spaces"
  by (simp add: pool_ok_def two_spaces_def aligned_def)

lemma two_spaces_slot: "i < PAGING_POOL_SLOTS \<Longrightarrow> 0x400000 \<le> unat (slot two_spaces i)"
  using unat_slot [OF two_spaces_pool] by (simp add: two_spaces_def)

lemma two_spaces_free: "0x200000 \<notin> free_slots two_spaces" "0x300000 \<notin> free_slots two_spaces" "free_slots two_spaces \<noteq> {}"
proof -
  show "0x200000 \<notin> free_slots two_spaces" "0x300000 \<notin> free_slots two_spaces"
    using two_spaces_slot by (fastforce simp: free_slots_def)+
  have "0 < PAGING_POOL_SLOTS" "\<not> slot_used two_spaces 0"
    by (simp_all add: PAGING_POOL_SLOTS_def slot_used_def two_spaces_def)
  then show "free_slots two_spaces \<noteq> {}" by (auto simp: free_slots_def)
qed

lemma two_spaces_pde:
  assumes "unat i < 1024"
  shows "pde_at two_spaces 0x200000 i = (if i = 0 then 0x83 else 0)"
    and "pde_at two_spaces 0x300000 i = (if i = 1 then 0x400083 else 0)"
proof -
  have a: "aligned 0x200000" "aligned 0x300000" by (simp_all add: aligned_def)
  have "entry 0x200000 0 = 0x200000" "entry 0x300000 1 = 0x300004" by (simp_all add: entry_def)
  then have "entry 0x200000 i = 0x200000 \<longleftrightarrow> i = 0" "entry 0x200000 i \<noteq> 0x300004"
    "entry 0x300000 i \<noteq> 0x200000" "entry 0x300000 i = 0x300004 \<longleftrightarrow> i = 1"
    using entry_eq [OF a(1) a(1) assms, of 0] entry_eq [OF a(1) a(2) assms, of 1]
      entry_eq [OF a(2) a(1) assms, of 0] entry_eq [OF a(2) a(2) assms, of 1] by simp_all
  then show "pde_at two_spaces 0x200000 i = (if i = 0 then 0x83 else 0)"
    "pde_at two_spaces 0x300000 i = (if i = 1 then 0x400083 else 0)" by (auto simp: two_spaces_def)
qed

lemma two_spaces_dirs: "dir_ok two_spaces 0x200000" "dir_ok two_spaces 0x300000"
  unfolding dir_ok_def Let_def using two_spaces_free
  by (auto simp: two_spaces_pde aligned_def is_table_def)

lemma two_spaces_tables: "tables_of two_spaces 0x200000 = {}" "tables_of two_spaces 0x300000 = {}"
  by (auto simp: tables_of_def two_spaces_pde is_table_def)

theorem arch_map_4kb_correct_witness:
  "fst (arch_map_4kb 0x200000 0x1000 0x5000 7 two_spaces) = 0 \<and>
   walk (tables (snd (arch_map_4kb 0x200000 0x1000 0x5000 7 two_spaces))) 0x200000 0x1000 = Some (0x5000, True, True)"
proof -
  obtain r s' where m: "arch_map_4kb 0x200000 0x1000 0x5000 7 two_spaces = (r, s')" by fastforce
  have "PD_INDEX 0x1000 = 0" by (simp add: PD_INDEX_def)
  then have "\<not> is_table (pde_at two_spaces 0x200000 (PD_INDEX 0x1000))" by (simp add: two_spaces_pde is_table_def)
  with arch_map_4kb_correct [OF two_spaces_pool two_spaces_dirs(1) m] two_spaces_free(3) show ?thesis
    by (auto simp: m map_effect_def PAGE_MASK_def PAGE_OFFSET_def split: if_splits)
qed

theorem arch_unmap_4kb_correct_witness:
  "walk (tables (arch_unmap_4kb 0x200000 0xC0001000 (snd (arch_map_4kb 0x200000 0xC0001000 0x5000 7 two_spaces))))
     0x200000 0xC0001000 = None"
proof -
  obtain r s' where m: "arch_map_4kb 0x200000 0xC0001000 0x5000 7 two_spaces = (r, s')" by fastforce
  from map_4kb_ok [OF two_spaces_pool two_spaces_dirs(1) m] two_spaces_free(3)
  have "dir_ok s' 0x200000" "is_table (pde_at s' 0x200000 (PD_INDEX 0xC0001000))" by (auto split: if_splits)
  then show ?thesis
    using arch_unmap_4kb_correct [of s' "0x200000" "0xC0001000" "arch_unmap_4kb 0x200000 0xC0001000 s'"]
    by (simp add: m is_table_def USER_HEAP_BASE_def)
qed

theorem arch_map_4kb_isolation_witness:
  "walk (tables (snd (arch_map_4kb 0x200000 0x400000 0x9000 7 two_spaces))) 0x300000 0x400123 =
     Some (0x400123, False, True)"
proof -
  have "PD_INDEX 0x400000 = 1" "PD_INDEX 0x400123 = 1" by (simp_all add: PD_INDEX_def)
  moreover have "unshared two_spaces 0x200000 0x300000 0x400000"
    using calculation by (simp add: unshared_def two_spaces_tables two_spaces_pde is_table_def)
  moreover have "walk (tables two_spaces) 0x300000 0x400123 = Some (0x400123, False, True)"
    using calculation by (simp add: walk_def two_spaces_pde)
  ultimately show ?thesis
    using arch_map_4kb_isolation [OF two_spaces_pool two_spaces_dirs, of "0x400000" "0x9000" 7 "0x400123"] by simp
qed

end
