(* ===== verification/DList.thy ===== *)
theory DList
  imports Prelude
begin

text \<open>
  The intrusive circular doubly linked list of \<^verbatim>\<open>include/lib/list.h\<close>, on an explicit store of
  nodes.  Every kernel list (threads, processes, capabilities, heap chunks, mails, waiters,
  IRQ handlers) is one of these rings, threaded through a head node.  \<open>dlist h head xs\<close>
  says that the ring that starts at \<open>head\<close> holds the nodes \<open>xs\<close> in order; the operations
  are shown to be insertion after a node and deletion on that list.  The component
  theories model their lists by HOL lists, with \<open>list_add\<close> as insertion after a position
  and \<open>list_del\<close> as deletion; this theory is the refinement that justifies it.
\<close>

section \<open>Nodes and operations\<close>

record list_node =
  prev :: ptr
  "next" :: ptr

type_synonym store = "ptr \<Rightarrow> list_node"

definition set_prev :: "store \<Rightarrow> ptr \<Rightarrow> ptr \<Rightarrow> store" where
  "set_prev h p v = h(p := (h p)\<lparr>prev := v\<rparr>)"

definition set_next :: "store \<Rightarrow> ptr \<Rightarrow> ptr \<Rightarrow> store" where
  "set_next h p v = h(p := (h p)\<lparr>next := v\<rparr>)"

definition list_init :: "ptr \<Rightarrow> store \<Rightarrow> store" where
  "list_init node h = (let h = set_prev h node node in set_next h node node)"

definition list_add :: "ptr \<Rightarrow> ptr \<Rightarrow> store \<Rightarrow> store" where
  "list_add new_node head h =
     (if new_node = 0 \<or> head = 0 then h
      else let h = set_next h new_node (next (h head));
               h = set_prev h new_node head;
               h = set_prev h (next (h head)) new_node
           in set_next h head new_node)"

definition list_del :: "ptr \<Rightarrow> store \<Rightarrow> store" where
  "list_del node h =
     (if node = 0 then h
      else let h = set_next h (prev (h node)) (next (h node));
               h = set_prev h (next (h node)) (prev (h node))
           in list_init node h)"

definition list_prev :: "store \<Rightarrow> ptr \<Rightarrow> ptr" where
  "list_prev h node = (if node = 0 then 0 else prev (h node))"

definition list_next :: "store \<Rightarrow> ptr \<Rightarrow> ptr" where
  "list_next h node = (if node = 0 then 0 else next (h node))"

definition list_empty :: "store \<Rightarrow> ptr \<Rightarrow> bool" where
  "list_empty h head \<longleftrightarrow> next (h head) = head"

text \<open>
  \<open>list_walk h pos head\<close> is the sequence of nodes \<^verbatim>\<open>list_for_each\<close> visits from \<open>pos\<close> on; it
  returns \<open>None\<close> when the walk never gets back to \<open>head\<close>.
\<close>

partial_function (option) list_walk :: "store \<Rightarrow> ptr \<Rightarrow> ptr \<Rightarrow> ptr list option" where
  "list_walk h pos head =
     (if pos = head then Some []
      else Option.bind (list_walk h (next (h pos)) head) (\<lambda>ps. Some (pos # ps)))"

definition list_for_each :: "store \<Rightarrow> ptr \<Rightarrow> ptr list option" where
  "list_for_each h head = list_walk h (next (h head)) head"

lemmas list_ops = set_prev_def set_next_def list_init_def list_add_def list_del_def Let_def

section \<open>Rings as lists\<close>

text \<open>\<open>seg h p xs q\<close>: the links from \<open>p\<close> through \<open>xs\<close> to \<open>q\<close> agree in both directions.\<close>

fun seg :: "store \<Rightarrow> ptr \<Rightarrow> ptr list \<Rightarrow> ptr \<Rightarrow> bool" where
  "seg h p [] q \<longleftrightarrow> next (h p) = q \<and> prev (h q) = p"
| "seg h p (x # xs) q \<longleftrightarrow> next (h p) = x \<and> prev (h x) = p \<and> seg h x xs q"

definition dlist :: "store \<Rightarrow> ptr \<Rightarrow> ptr list \<Rightarrow> bool" where
  "dlist h head xs \<longleftrightarrow> distinct (head # xs) \<and> 0 \<notin> set (head # xs) \<and> seg h head xs head"

lemma seg_append [simp]: "seg h p (xs @ y # ys) q \<longleftrightarrow> seg h p xs y \<and> seg h y ys q"
  by (induction xs arbitrary: p) auto

text \<open>A segment depends on the forward links of its nodes but the last, and on the
  backward links of its nodes but the first.\<close>

lemma seg_cong:
  assumes "\<And>a. a \<in> set (p # xs) \<Longrightarrow> next (h' a) = next (h a)"
    and "\<And>a. a \<in> set (xs @ [q]) \<Longrightarrow> prev (h' a) = prev (h a)"
  shows "seg h' p xs q = seg h p xs q"
  using assms by (induction xs arbitrary: p) auto

lemma seg_next: "seg h p (x # xs) q \<Longrightarrow> next (h p) = x"
  by simp

lemma dlist_empty_iff: "dlist h head xs \<Longrightarrow> list_empty h head \<longleftrightarrow> xs = []"
  by (cases xs) (auto simp: dlist_def list_empty_def)

lemma dlist_init: "head \<noteq> 0 \<Longrightarrow> dlist (list_init head h) head []"
  by (simp add: dlist_def list_ops)

text \<open>Insertion after any node of the ring, the head included.\<close>

lemma seg_add:
  assumes "seg h p (xs @ ys) q" and "n \<notin> set (p # xs @ ys @ [q])"
    and "distinct (p # xs @ ys)" and "q \<notin> set (xs @ ys)"
    and l: "l = last (p # xs)" "l \<noteq> 0" and "n \<noteq> 0"
  shows "seg (list_add n l h) p (xs @ n # ys) q"
proof -
  define r where "r = hd (ys @ [q])"
  have link: "next (h l) = r"
    using assms(1) l(1) by (cases xs rule: rev_cases; cases ys) (auto simp: r_def)
  have nl: "n \<noteq> l" using assms(2) l(1) by (auto split: if_splits)
  have nr: "n \<noteq> r" using assms(2) by (cases ys) (auto simp: r_def)
  obtain h' where h': "h' = list_add n l h" by simp
  have nxt: "next (h' a) = (if a = l then n else if a = n then r else next (h a))" for a
    using nl l(2) assms(7) link by (simp add: h' list_ops)
  have prv: "prev (h' a) = (if a = r then n else if a = n then l else prev (h a))" for a
    using nl nr l(2) assms(7) link by (simp add: h' list_ops)
  have front: "seg h' p xs n"
  proof (cases xs rule: rev_cases)
    case Nil
    then show ?thesis using nxt prv nr l by simp
  next
    case (snoc xs' x)
    have "seg h' p xs' x = seg h p xs' x"
      using assms(2-4) snoc l by (intro seg_cong; cases ys) (auto simp: nxt prv r_def)
    moreover have "seg h p xs' x" using assms(1) snoc by simp
    ultimately show ?thesis using snoc nxt prv nr l by simp
  qed
  have rear: "seg h' n ys q"
  proof (cases ys)
    case Nil
    then show ?thesis using nxt prv nl by (simp add: r_def)
  next
    case (Cons y ys')
    have "l \<notin> set ys" using assms(3) l by (cases xs rule: rev_cases) auto
    then have "seg h' y ys' q = seg h y ys' q"
      using assms(2-4) Cons by (intro seg_cong) (auto simp: nxt prv r_def)
    moreover have "seg h y ys' q" using assms(1) Cons by simp
    ultimately show ?thesis using Cons nxt prv nl by (simp add: r_def)
  qed
  from front rear show ?thesis by (simp add: h')
qed

lemma dlist_add:
  assumes "dlist h head (xs @ ys)" and "l = last (head # xs)"
    and "n \<notin> set (head # xs @ ys)" and "n \<noteq> 0"
  shows "dlist (list_add n l h) head (xs @ n # ys)"
proof -
  have "l \<in> set (head # xs)" using assms(2) last_in_set [of "head # xs"] by simp
  then have "l \<noteq> 0" using assms(1) by (auto simp: dlist_def)
  then have "seg (list_add n l h) head (xs @ n # ys) head"
    using assms by (intro seg_add) (auto simp: dlist_def)
  then show ?thesis using assms by (auto simp: dlist_def)
qed

text \<open>Deletion unlinks the node and leaves it self-linked.\<close>

lemma seg_del:
  assumes "seg h p (xs @ x # ys) q" and "distinct (p # xs @ x # ys)"
    and "q \<notin> set (xs @ x # ys)" and "x \<noteq> 0"
  shows "seg (list_del x h) p (xs @ ys) q"
proof -
  define l where "l = last (p # xs)"
  define r where "r = hd (ys @ [q])"
  have links: "prev (h x) = l" "next (h x) = r"
    using assms(1) by (cases xs rule: rev_cases; cases ys; auto simp: l_def r_def)+
  have lx: "l \<noteq> x" using assms(2) by (auto simp: l_def split: if_splits)
  have rx: "r \<noteq> x" using assms(2,3) by (cases ys) (auto simp: r_def)
  obtain h' where h': "h' = list_del x h" by simp
  have nxt: "next (h' a) = (if a = x then x else if a = l then r else next (h a))" for a
    using links lx rx assms(4) by (simp add: h' list_ops)
  have prv: "prev (h' a) = (if a = x then x else if a = r then l else prev (h a))" for a
    using links lx rx assms(4) by (simp add: h' list_ops)
  have front: "seg h' p xs r" if "seg h p xs x"
  proof (cases xs rule: rev_cases)
    case Nil
    then show ?thesis using nxt prv lx rx by (auto simp: l_def)
  next
    case (snoc xs' y)
    have "seg h' p xs' y = seg h p xs' y"
      using assms(2,3) snoc by (intro seg_cong; cases ys) (auto simp: nxt prv l_def r_def)
    moreover have "seg h p xs' y" using that snoc by simp
    ultimately show ?thesis using snoc nxt prv lx rx by (auto simp: l_def)
  qed
  have lys: "l \<notin> set ys" using assms(2) by (cases xs rule: rev_cases) (auto simp: l_def)
  show ?thesis
  proof (cases ys)
    case Nil
    then show ?thesis using front assms(1) by (simp add: h' r_def)
  next
    case (Cons y ys')
    have "seg h' y ys' q = seg h y ys' q"
      using assms(2,3) Cons lys by (intro seg_cong) (auto simp: nxt prv r_def)
    then show ?thesis using front assms(1) Cons by (simp add: h' r_def)
  qed
qed

lemma dlist_del:
  assumes "dlist h head (xs @ x # ys)"
  shows "dlist (list_del x h) head (xs @ ys)"
  using assms seg_del [of h head xs x ys head] by (auto simp: dlist_def)

text \<open>Operations on one ring leave the links of every other ring alone.\<close>

lemma list_add_frame:
  "n \<noteq> l \<Longrightarrow> a \<noteq> n \<Longrightarrow> a \<noteq> l \<Longrightarrow> a \<noteq> next (h l) \<Longrightarrow> list_add n l h a = h a"
  by (simp add: list_ops)

lemma list_del_frame:
  "a \<noteq> x \<Longrightarrow> a \<noteq> prev (h x) \<Longrightarrow> a \<noteq> next (h x) \<Longrightarrow> prev (h x) \<noteq> x \<Longrightarrow> list_del x h a = h a"
  by (simp add: list_ops)

lemma list_walk_seg:
  assumes "seg h p xs q" and "q \<notin> set xs"
  shows "list_walk h (next (h p)) q = Some xs"
  using assms
proof (induction xs arbitrary: p)
  case Nil
  then show ?case by (simp add: list_walk.simps)
next
  case (Cons x xs)
  then have "list_walk h (next (h x)) q = Some xs" and "x \<noteq> q" and "next (h p) = x" by auto
  then show ?case by (subst list_walk.simps) simp
qed

lemma dlist_for_each: "dlist h head xs \<Longrightarrow> list_for_each h head = Some xs"
  by (simp add: dlist_def list_for_each_def list_walk_seg)

lemma dlist_next: "dlist h head (xs @ x # ys) \<Longrightarrow> list_next h x = hd (ys @ [head])"
  by (cases ys) (auto simp: dlist_def list_next_def)

lemma dlist_prev: "dlist h head (xs @ x # ys) \<Longrightarrow> list_prev h x = last (head # xs)"
  by (cases xs rule: rev_cases) (auto simp: dlist_def list_prev_def)

lemma dlist_head_prev: "dlist h head xs \<Longrightarrow> list_prev h head = last (head # xs)"
  by (cases xs rule: rev_cases) (auto simp: dlist_def list_prev_def)

lemma dlist_head_next: "dlist h head xs \<Longrightarrow> list_next h head = hd (xs @ [head])"
  by (cases xs) (auto simp: dlist_def list_next_def)

section \<open>The list interface\<close>

text \<open>
  What the users of \<^verbatim>\<open>list.h\<close> rely on: insertion after a node, deletion of a node, the
  emptiness test and the two ends of the ring.  The two disciplines the kernel builds from
  it are derived once: producers insert at the head, and a consumer that takes the node
  before the head sees them oldest first (mailboxes), while a consumer that takes the node
  after the head sees them newest first (portal requests, capability and thread lists).
\<close>

locale ring_list =
  fixes add :: "ptr \<Rightarrow> ptr \<Rightarrow> 'h \<Rightarrow> 'h"
    and del :: "ptr \<Rightarrow> 'h \<Rightarrow> 'h"
    and prv :: "'h \<Rightarrow> ptr \<Rightarrow> ptr"
    and nxt :: "'h \<Rightarrow> ptr \<Rightarrow> ptr"
    and is_empty :: "'h \<Rightarrow> ptr \<Rightarrow> bool"
    and rep :: "'h \<Rightarrow> ptr \<Rightarrow> ptr list \<Rightarrow> bool"
  assumes rep_add: "rep h r (xs @ ys) \<Longrightarrow> l = last (r # xs) \<Longrightarrow>
      n \<notin> set (r # xs @ ys) \<Longrightarrow> n \<noteq> 0 \<Longrightarrow> rep (add n l h) r (xs @ n # ys)"
    and rep_del: "rep h r (xs @ x # ys) \<Longrightarrow> rep (del x h) r (xs @ ys)"
    and rep_empty: "rep h r xs \<Longrightarrow> is_empty h r \<longleftrightarrow> xs = []"
    and rep_first: "rep h r (x # xs) \<Longrightarrow> nxt h r = x"
    and rep_last: "rep h r (xs @ [x]) \<Longrightarrow> prv h r = x"
begin

lemma push: "rep h r xs \<Longrightarrow> n \<notin> set (r # xs) \<Longrightarrow> n \<noteq> 0 \<Longrightarrow> rep (add n r h) r (n # xs)"
  using rep_add [of h r "[]" xs r n] by simp

lemma push_all:
  assumes "rep h r xs" and "distinct (ns @ xs)" and "r \<notin> set ns" and "0 \<notin> set ns"
  shows "rep (fold (\<lambda>n. add n r) ns h) r (rev ns @ xs)"
  using assms
proof (induction ns arbitrary: h xs)
  case Nil
  then show ?case by simp
next
  case (Cons n ns)
  have "rep (add n r h) r (n # xs)" using Cons.prems by (intro push) auto
  then show ?case using Cons.IH [of "add n r h" "n # xs"] Cons.prems by simp
qed

lemma take_oldest:
  assumes "rep h r []" and "distinct (n # ns)" and "r \<notin> set (n # ns)" and "0 \<notin> set (n # ns)"
  defines "h' \<equiv> fold (\<lambda>n. add n r) (n # ns) h"
  shows "prv h' r = n" and "rep (del (prv h' r) h') r (rev ns)"
proof -
  have "rep h' r (rev (n # ns) @ [])"
    unfolding h'_def by (rule push_all) (use assms in auto)
  then have rep: "rep h' r (rev ns @ [n])" by simp
  then show "prv h' r = n" by (rule rep_last)
  with rep_del [of h' r "rev ns" n "[]"] rep show "rep (del (prv h' r) h') r (rev ns)" by simp
qed

lemma take_newest:
  assumes "rep h r xs" and "n \<notin> set (r # xs)" and "n \<noteq> 0"
  shows "nxt (add n r h) r = n" and "rep (del n (add n r h)) r xs"
  using push [OF assms] rep_first rep_del [of "add n r h" r "[]" n xs] by auto

end

interpretation ring: ring_list list_add list_del list_prev list_next list_empty dlist
  by unfold_locales
    (fact dlist_add, fact dlist_del, fact dlist_empty_iff,
     drule dlist_head_next, simp, drule dlist_head_prev, simp)

section \<open>Properties\<close>

text \<open>What an operation on one ring may touch: the nodes of that ring and the node it inserts.\<close>

lemma dlist_ends: "dlist h head (xs @ x # ys) \<Longrightarrow> {prev (h x), next (h x)} \<subseteq> set (head # xs @ ys)"
  using dlist_next [of h head xs x ys] dlist_prev [of h head xs x ys]
  by (cases ys; cases xs rule: rev_cases) (auto simp: dlist_def list_next_def list_prev_def)

lemma list_add_outside:
  assumes "dlist h head (xs @ ys)" and "l = last (head # xs)" and "a \<notin> set (n # head # xs @ ys)"
  shows "list_add n l h a = h a"
proof -
  have "next (h l) = hd (ys @ [head])"
    using assms(1,2) by (cases xs rule: rev_cases; cases ys) (auto simp: dlist_def)
  then have "next (h l) \<in> set (head # xs @ ys)" by (cases ys) auto
  moreover have "l \<in> set (head # xs @ ys)" using assms(2) by (cases xs rule: rev_cases) auto
  moreover have "list_add n l h a = h a" if "a \<noteq> n" "a \<noteq> l" "a \<noteq> next (h l)"
    using that by (cases "n = l") (auto simp: list_ops)
  ultimately show ?thesis using assms(3) by auto
qed

lemma list_del_outside:
  assumes "dlist h head (xs @ x # ys)" and "a \<notin> set (head # xs @ x # ys)"
  shows "list_del x h a = h a"
proof (rule list_del_frame)
  show "a \<noteq> x" "a \<noteq> prev (h x)" "a \<noteq> next (h x)" using assms(2) dlist_ends [OF assms(1)] by auto
  show "prev (h x) \<noteq> x" using assms(1) dlist_ends [OF assms(1)] by (auto simp: dlist_def)
qed

lemma list_del_self: "x \<noteq> 0 \<Longrightarrow> list_next (list_del x h) x = x \<and> list_prev (list_del x h) x = x"
  by (simp add: list_ops list_next_def list_prev_def)

lemma dlist_frame: "dlist h head xs \<Longrightarrow> (\<And>a. a \<in> set (head # xs) \<Longrightarrow> h' a = h a) \<Longrightarrow> dlist h' head xs"
  using seg_cong [of head xs h' h head] by (auto simp: dlist_def)

text \<open>
  Property C22: the pointer operations are list operations.  Inserting a fresh node after any
  node of a ring (the head included) inserts it at that place of the list, and deleting any node
  of a ring removes it from the list and leaves it linked to itself; a traversal of the new ring
  ends and visits its nodes in order.  Neither operation changes a node outside the ring and the
  node it works on, so a ring that shares no node with this one stays as it was.
\<close>

theorem list_add_del_refine:
  assumes "dlist h head (xs @ ys)" and "n \<notin> set (head # xs @ ys)" and "n \<noteq> 0"
    and "dlist h head' zs" and "set (n # head # xs @ ys) \<inter> set (head' # zs) = {}"
  shows "(let h' = list_add n (last (head # xs)) h in
      dlist h' head (xs @ n # ys) \<and> list_for_each h' head = Some (xs @ n # ys) \<and>
      (\<forall>a. a \<notin> set (n # head # xs @ ys) \<longrightarrow> h' a = h a) \<and> dlist h' head' zs) \<and>
    (\<forall>us x vs. xs @ ys = us @ x # vs \<longrightarrow> (let h' = list_del x h in
      dlist h' head (us @ vs) \<and> list_for_each h' head = Some (us @ vs) \<and> list_next h' x = x \<and> list_prev h' x = x \<and>
      (\<forall>a. a \<notin> set (head # xs @ ys) \<longrightarrow> h' a = h a) \<and> dlist h' head' zs))"
proof (intro conjI allI impI)
  let ?a = "list_add n (last (head # xs)) h"
  have a: "dlist ?a head (xs @ n # ys)" by (rule ring.rep_add [OF assms(1) refl assms(2,3)])
  have "dlist ?a head' zs"
    using assms(5) by (intro dlist_frame [OF assms(4)] list_add_outside [OF assms(1) refl]) auto
  then show "let h' = ?a in dlist h' head (xs @ n # ys) \<and> list_for_each h' head = Some (xs @ n # ys) \<and>
      (\<forall>a. a \<notin> set (n # head # xs @ ys) \<longrightarrow> h' a = h a) \<and> dlist h' head' zs"
    using a dlist_for_each [OF a] list_add_outside [OF assms(1) refl] by (simp only: Let_def simp_thms) blast
next
  fix us x vs assume split: "xs @ ys = us @ x # vs"
  have r: "dlist h head (us @ x # vs)" using assms(1) by (simp only: split)
  have d: "dlist (list_del x h) head (us @ vs)" by (rule ring.rep_del [OF r])
  have "dlist (list_del x h) head' zs"
    using assms(5) unfolding split by (intro dlist_frame [OF assms(4)] list_del_outside [OF r]) auto
  moreover have "x \<noteq> 0" using r by (auto simp: dlist_def)
  ultimately show "let h' = list_del x h in
      dlist h' head (us @ vs) \<and> list_for_each h' head = Some (us @ vs) \<and> list_next h' x = x \<and> list_prev h' x = x \<and>
      (\<forall>a. a \<notin> set (head # xs @ ys) \<longrightarrow> h' a = h a) \<and> dlist h' head' zs"
    using d dlist_for_each [OF d] list_del_outside [OF r] list_del_self [of x h] unfolding split by (simp only: Let_def simp_thms) blast
qed

theorem list_add_del_refine_witness:
  "\<exists>h. dlist h 16 [32, 48] \<and> dlist h 64 [] \<and>
     list_for_each (list_add 80 32 h) 16 = Some [32, 80, 48 :: ptr] \<and> dlist (list_add 80 32 h) 64 [] \<and>
     list_for_each (list_del 32 h) 16 = Some [48] \<and> dlist (list_del 32 h) 64 []"
proof -
  let ?h = "list_add 32 16 (list_add 48 16 (list_init 64 (list_init 16 (\<lambda>_. \<lparr>prev = 0, next = 0\<rparr>))))"
  have "dlist ?h 16 ([32] @ [48])" "dlist ?h 64 []" by (simp_all add: dlist_def list_ops)
  note r = this list_add_del_refine [OF this(1) _ _ this(2), of 80, unfolded Let_def]
  have "[32] @ [48] = [] @ 32 # [48 :: ptr]" by simp
  from r(1,2) conjunct1 [OF r(3)] conjunct2 [OF r(3), rule_format, OF _ _ _ this] show ?thesis
    by (intro exI [of _ ?h]) simp
qed

text \<open>
  Producers that insert at the head and a consumer that takes the node before the
  head make a FIFO.  After any sequence of insertions into an empty ring the node before the
  head is the first one inserted, and taking it leaves the others queued in the same order.
\<close>

theorem list_fifo:
  assumes "dlist h head []" and "distinct (n # ns)" and "head \<notin> set (n # ns)" and "0 \<notin> set (n # ns)"
  defines "h' \<equiv> fold (\<lambda>n. list_add n head) (n # ns) h"
  shows "list_prev h' head = n \<and> dlist (list_del (list_prev h' head) h') head (rev ns)"
  unfolding h'_def using ring.take_oldest [OF assms(1-4)] by blast

theorem list_fifo_witness:
  "list_prev (fold (\<lambda>n. list_add n 16) [32, 48, 64] (list_init 16 (\<lambda>_. \<lparr>prev = 0, next = 0\<rparr>))) 16 = (32 :: ptr)"
proof -
  have "dlist (list_init 16 (\<lambda>_. \<lparr>prev = 0, next = 0\<rparr>)) 16 []" by (rule dlist_init) simp
  from list_fifo [OF this, of 32 "[48, 64]"] show ?thesis by simp
qed

end
