(* ===== verification/Heap.thy ===== *)
theory Heap
  imports Memory DList Spinlock
begin

text \<open>
  The two chunk heaps of \<^verbatim>\<open>kernel/mm/heap.c\<close>.  The model works on the chunk headers where the
  code keeps them: the \<^verbatim>\<open>size\<close> and \<^verbatim>\<open>used\<close> fields by chunk address, and the list links by node
  address in the store of \<^verbatim>\<open>DList\<close>, so that \<^verbatim>\<open>list_add\<close> and \<^verbatim>\<open>list_del\<close> are the pointer operations.
  The payload bytes are a \<^verbatim>\<open>mem\<close>.  A pool is then shown to represent a list of chunks that
  tile it, and the operations to refine a first-fit split and a coalescing release on
  that list.
\<close>

section \<open>State\<close>

definition HEAP_TOTAL_SIZE :: u32 where "HEAP_TOTAL_SIZE = 1024 * 1024 * 16"

definition HEAP_ALIGN :: u32 where "HEAP_ALIGN = 8"

text \<open>A chunk header is two words and a list node; the node is at offset 8.\<close>

definition HEAP_HDR_SIZE :: u32 where
  "HEAP_HDR_SIZE = (16 + HEAP_ALIGN - 1) AND NOT (HEAP_ALIGN - 1)"

definition this_node :: "ptr \<Rightarrow> ptr" where "this_node chunk = chunk + 8"

definition list_entry :: "ptr \<Rightarrow> ptr" where "list_entry node = node - 8"

record heap_mem =
  hsize :: "ptr \<Rightarrow> u32"
  hused :: "ptr \<Rightarrow> bool"
  links :: store
  bytes :: mem
  lock_pool :: lock_pool

record heappool =
  pool :: ptr
  avail_size :: u32
  lock_dev :: "nat option"
  init :: bool
  head_node :: ptr

section \<open>Operations\<close>

definition kheap_init :: "heappool \<Rightarrow> heap_mem \<Rightarrow> heappool \<times> heap_mem" where
  "kheap_init P M =
     (let chunk = pool P;
          (l, ls) = spinlock_alloc (lock_pool M);
          P = P\<lparr>lock_dev := l\<rparr>; M = M\<lparr>lock_pool := ls\<rparr> in
      if l = None then (P, M)
      else let P = P\<lparr>init := True\<rparr>;
               h = set_prev (links M) (head_node P) (head_node P);
               h = set_next h (head_node P) (head_node P);
               M = M\<lparr>hsize := (hsize M)(chunk := HEAP_TOTAL_SIZE - HEAP_HDR_SIZE),
                     hused := (hused M)(chunk := False),
                     links := list_add (this_node chunk) (head_node P) h\<rparr>
           in (P, M))"

text \<open>The first-fit search, a \<^verbatim>\<open>list_for_each\<close> with a \<^verbatim>\<open>break\<close>; \<open>None\<close> if the walk never ends.\<close>

partial_function (option) first_fit :: "heap_mem \<Rightarrow> u32 \<Rightarrow> ptr \<Rightarrow> ptr \<Rightarrow> ptr option option" where
  "first_fit M rsize node head =
     (if node = head then Some None
      else let p = list_entry node in
           if rsize \<le> hsize M p \<and> \<not> hused M p then Some (Some p)
           else first_fit M rsize (next (links M node)) head)"

definition aligned_size :: "u32 \<Rightarrow> u32" where
  "aligned_size alloc_size = (alloc_size + HEAP_ALIGN - 1) AND NOT (HEAP_ALIGN - 1)"

definition req_size :: "u32 \<Rightarrow> u32" where
  "req_size alloc_size = HEAP_HDR_SIZE + aligned_size alloc_size"

definition heap_malloc :: "heappool \<Rightarrow> u32 \<Rightarrow> heap_mem \<Rightarrow> (ptr \<times> heappool \<times> heap_mem) option" where
  "heap_malloc P alloc_size M =
     (let (P, M) = (if init P then (P, M) else kheap_init P M) in
      if HEAP_TOTAL_SIZE < alloc_size then Some (0, P, M)
      else if 0xFFFFFFFF - (HEAP_ALIGN - 1) < alloc_size then Some (0, P, M)
      else let asize = aligned_size alloc_size;
               rsize = req_size alloc_size in
        if avail_size P < rsize then Some (0, P, M)
        else case first_fit M rsize (next (links M (head_node P))) (head_node P) of
          None \<Rightarrow> None
        | Some None \<Rightarrow> Some (0, P, M)
        | Some (Some chunk) \<Rightarrow>
            let new_chunk = chunk + rsize;
                M = (if new_chunk + HEAP_HDR_SIZE \<le> pool P + HEAP_TOTAL_SIZE
                     then M\<lparr>hsize := (hsize M)(new_chunk := hsize M chunk - rsize),
                            hused := (hused M)(new_chunk := False),
                            links := list_add (this_node new_chunk) (this_node chunk) (links M)\<rparr>
                     else M);
                ret_addr = chunk + HEAP_HDR_SIZE;
                M = M\<lparr>bytes := memset (bytes M) ret_addr 0 alloc_size\<rparr>;
                M = M\<lparr>hused := (hused M)(chunk := True), hsize := (hsize M)(chunk := asize)\<rparr>;
                P = P\<lparr>avail_size := avail_size P - rsize\<rparr>
            in Some (ret_addr, P, M))"

definition merge_next :: "heappool \<Rightarrow> ptr \<Rightarrow> heap_mem \<Rightarrow> heap_mem" where
  "merge_next P free_chunk M =
     (let nx = list_next (links M) (this_node free_chunk); chunk = list_entry nx in
      if nx \<noteq> head_node P \<and> \<not> hused M chunk
      then M\<lparr>hsize := (hsize M)(free_chunk := hsize M free_chunk + (HEAP_HDR_SIZE + hsize M chunk)),
             links := list_del (this_node chunk) (links M)\<rparr>
      else M)"

definition merge_prev :: "heappool \<Rightarrow> ptr \<Rightarrow> heap_mem \<Rightarrow> ptr \<times> heap_mem" where
  "merge_prev P free_chunk M =
     (let pv = list_prev (links M) (this_node free_chunk); chunk = list_entry pv in
      if pv \<noteq> head_node P \<and> \<not> hused M chunk
      then (chunk, M\<lparr>hsize := (hsize M)(chunk := hsize M chunk + (HEAP_HDR_SIZE + hsize M free_chunk)),
                     links := list_del (this_node free_chunk) (links M)\<rparr>)
      else (free_chunk, M))"

definition heap_free :: "heappool \<Rightarrow> ptr \<Rightarrow> heap_mem \<Rightarrow> heappool \<times> heap_mem" where
  "heap_free P pointer M =
     (if pointer = 0 then (P, M)
      else let free_chunk = pointer - HEAP_HDR_SIZE in
        if \<not> hused M free_chunk then (P, M)
        else let P = P\<lparr>avail_size := avail_size P + (HEAP_HDR_SIZE + hsize M free_chunk)\<rparr>;
                 M = merge_next P free_chunk M;
                 (free_chunk, M) = merge_prev P free_chunk M
             in (P, M\<lparr>hused := (hused M)(free_chunk := False)\<rparr>))"

text \<open>The two pools, over one memory.\<close>

record heaps =
  krn_pool :: heappool
  user_pool :: heappool
  hmem :: heap_mem

definition kmalloc :: "u32 \<Rightarrow> heaps \<Rightarrow> (ptr \<times> heaps) option" where
  "kmalloc alloc_size H =
     map_option (\<lambda>(r, P, M). (r, H\<lparr>krn_pool := P, hmem := M\<rparr>)) (heap_malloc (krn_pool H) alloc_size (hmem H))"

definition kfree :: "ptr \<Rightarrow> heaps \<Rightarrow> heaps" where
  "kfree pointer H =
     (let (P, M) = heap_free (krn_pool H) pointer (hmem H) in H\<lparr>krn_pool := P, hmem := M\<rparr>)"

definition malloc :: "u32 \<Rightarrow> heaps \<Rightarrow> (ptr \<times> heaps) option" where
  "malloc alloc_size H =
     map_option (\<lambda>(r, P, M). (r, H\<lparr>user_pool := P, hmem := M\<rparr>)) (heap_malloc (user_pool H) alloc_size (hmem H))"

definition free :: "ptr \<Rightarrow> heaps \<Rightarrow> heaps" where
  "free pointer H =
     (let (P, M) = heap_free (user_pool H) pointer (hmem H) in H\<lparr>user_pool := P, hmem := M\<rparr>)"

section \<open>The heap system call\<close>

record heap_ctrl_config =
  cmd :: u32
  hc_size :: u32
  hc_ptr :: ptr
  hc_ret :: int

definition HEAP_CTRL_MALLOC :: u32 where "HEAP_CTRL_MALLOC = 0"
definition HEAP_CTRL_FREE :: u32 where "HEAP_CTRL_FREE = 1"

definition heap_syscall_isr ::
  "heap_ctrl_config option \<Rightarrow> heaps \<Rightarrow> (int \<times> heap_ctrl_config option \<times> heaps) option" where
  "heap_syscall_isr data H =
     (case data of
        None \<Rightarrow> Some (E_INVAL, None, H)
      | Some cfg \<Rightarrow>
          if cmd cfg = HEAP_CTRL_MALLOC
          then map_option (\<lambda>(p, H). (0, Some (cfg\<lparr>hc_ptr := p, hc_ret := (if p \<noteq> 0 then 0 else E_NOMEM)\<rparr>), H))
                 (malloc (hc_size cfg) H)
          else if cmd cfg = HEAP_CTRL_FREE
          then Some (0, Some (cfg\<lparr>hc_ret := 0\<rparr>), free (hc_ptr cfg) H)
          else Some (E_INVAL, Some cfg, H))"

section \<open>A pool as a list of chunks\<close>

datatype chunk = Chunk (addr: ptr) (csize: u32) (cused: bool)

text \<open>\<open>tiles a cs e\<close>: the chunks (header and payload) fill the addresses from \<open>a\<close> to \<open>e\<close> in order.\<close>

fun tiles :: "nat \<Rightarrow> chunk list \<Rightarrow> nat \<Rightarrow> bool" where
  "tiles a [] e \<longleftrightarrow> a = e"
| "tiles a (c # cs) e \<longleftrightarrow> unat (addr c) = a \<and> tiles (a + 16 + unat (csize c)) cs e"

text \<open>No two free chunks are neighbours.\<close>

fun spaced :: "chunk list \<Rightarrow> bool" where
  "spaced (c # d # cs) \<longleftrightarrow> (cused c \<or> cused d) \<and> spaced (d # cs)"
| "spaced _ \<longleftrightarrow> True"

definition free_bytes :: "chunk list \<Rightarrow> nat" where
  "free_bytes cs = sum_list (map (\<lambda>c. if cused c then 0 else 16 + unat (csize c)) cs)"

definition pool_bytes :: nat where "pool_bytes = 16777216"

definition chunks_ok :: "chunk list \<Rightarrow> bool" where
  "chunks_ok cs \<longleftrightarrow> (\<forall>c\<in>set cs. 8 dvd unat (csize c)) \<and> spaced cs"

definition in_pool :: "heappool \<Rightarrow> ptr \<Rightarrow> bool" where
  "in_pool P a \<longleftrightarrow> unat (pool P) \<le> unat a \<and> unat a < unat (pool P) + pool_bytes"

text \<open>The pool lies below the top of the address space, and its head node outside it.\<close>

definition placed :: "heappool \<Rightarrow> bool" where
  "placed P \<longleftrightarrow> unat (pool P) + pool_bytes < 4294967296 \<and> head_node P \<noteq> 0 \<and> \<not> in_pool P (head_node P)"

text \<open>The headers and links in memory are those of the chunks \<open>cs\<close>, which tile the pool.\<close>

definition shape :: "heappool \<Rightarrow> heap_mem \<Rightarrow> chunk list \<Rightarrow> bool" where
  "shape P M cs \<longleftrightarrow> placed P \<and> tiles (unat (pool P)) cs (unat (pool P) + pool_bytes) \<and>
     dlist (links M) (head_node P) (map (\<lambda>c. this_node (addr c)) cs) \<and>
     (\<forall>c\<in>set cs. hsize M (addr c) = csize c \<and> hused M (addr c) = cused c)"

definition heap_rep :: "heappool \<Rightarrow> heap_mem \<Rightarrow> chunk list \<Rightarrow> bool" where
  "heap_rep P M cs \<longleftrightarrow> init P \<and> shape P M cs \<and> chunks_ok cs \<and> unat (avail_size P) = free_bytes cs"

section \<open>The specification on chunk lists\<close>

definition fits :: "u32 \<Rightarrow> chunk \<Rightarrow> bool" where
  "fits req c \<longleftrightarrow> req \<le> csize c \<and> \<not> cused c"

text \<open>First fit: the first free chunk of at least \<open>req\<close> bytes is cut in two.\<close>

fun fit_split :: "u32 \<Rightarrow> u32 \<Rightarrow> chunk list \<Rightarrow> (ptr \<times> chunk list) option" where
  "fit_split req al [] = None"
| "fit_split req al (c # cs) =
     (if fits req c
      then Some (addr c, Chunk (addr c) al True # Chunk (addr c + req) (csize c - req) False # cs)
      else map_option (\<lambda>(a, cs'). (a, c # cs')) (fit_split req al cs))"

text \<open>Release: mark the chunk free and join every run of free neighbours.\<close>

definition join :: "chunk \<Rightarrow> chunk \<Rightarrow> chunk" where
  "join c d = Chunk (addr c) (csize c + (16 + csize d)) False"

fun coalesce :: "chunk list \<Rightarrow> chunk list" where
  "coalesce (c # d # cs) =
     (if \<not> cused c \<and> \<not> cused d then coalesce (join c d # cs) else c # coalesce (d # cs))"
| "coalesce cs = cs"

definition unuse :: "ptr \<Rightarrow> chunk \<Rightarrow> chunk" where
  "unuse a c = (if addr c = a then Chunk (addr c) (csize c) False else c)"

definition release_chunk :: "ptr \<Rightarrow> chunk list \<Rightarrow> chunk list" where
  "release_chunk a cs = coalesce (map (unuse a) cs)"

lemma addr_join [simp]: "addr (join c d) = addr c" "\<not> cused (join c d)"
  by (simp_all add: join_def)

lemma fit_split_None: "fit_split req al cs = None \<longleftrightarrow> find (fits req) cs = None"
  by (induction cs) auto

lemma fit_split_Some:
  assumes "find (fits req) cs = Some c"
  obtains pre post where "cs = pre @ c # post" "fits req c"
    "fit_split req al cs =
       Some (addr c, pre @ Chunk (addr c) al True # Chunk (addr c + req) (csize c - req) False # post)"
  using assms
proof (induction cs arbitrary: thesis)
  case (Cons d cs)
  show ?case
  proof (cases "fits req d")
    case True
    with Cons.prems show ?thesis by (intro Cons.prems(1) [of "[]" cs]) auto
  next
    case False
    with Cons.prems(2) have f: "find (fits req) cs = Some c" by simp
    show ?thesis
      by (rule Cons.IH [OF _ f], rule Cons.prems(1) [of "d # _"]) (use False in auto)
  qed
qed simp

lemma coalesce_spaced: "spaced cs \<Longrightarrow> coalesce cs = cs"
  by (induction cs rule: coalesce.induct) auto

lemma coalesce_append: "spaced (pre @ [c]) \<Longrightarrow> coalesce (pre @ c # post) = pre @ coalesce (c # post)"
  by (induction pre rule: induct_list012) auto

lemma spaced_append:
  "spaced (xs @ c # ys) \<longleftrightarrow> spaced (xs @ [c]) \<and> spaced (c # ys)"
  by (induction xs rule: induct_list012) auto

lemma spaced_snoc_used: "spaced (xs @ [c]) \<longleftrightarrow> spaced xs \<and> (xs \<noteq> [] \<longrightarrow> cused (last xs) \<or> cused c)"
  by (induction xs rule: induct_list012) auto

lemma spaced_Cons: "spaced (c # ys) \<longleftrightarrow> spaced ys \<and> (ys \<noteq> [] \<longrightarrow> cused c \<or> cused (hd ys))"
  by (cases ys) auto

section \<open>Tilings\<close>

lemma tiles_append: "tiles a (xs @ ys) e \<longleftrightarrow> (\<exists>m. tiles a xs m \<and> tiles m ys e)"
  by (induction xs arbitrary: a) auto

lemma tiles_le: "tiles a cs e \<Longrightarrow> a \<le> e"
  by (induction cs arbitrary: a) fastforce+

lemma tiles_chunk:
  "tiles a cs e \<Longrightarrow> c \<in> set cs \<Longrightarrow> a \<le> unat (addr c) \<and> unat (addr c) + 16 + unat (csize c) \<le> e"
proof (induction cs arbitrary: a)
  case (Cons d cs)
  then show ?case using tiles_le by fastforce
qed simp

lemma tiles_distinct: "tiles a cs e \<Longrightarrow> distinct (map addr cs)"
proof (induction cs arbitrary: a)
  case (Cons c cs)
  then have "tiles (a + 16 + unat (csize c)) cs e" and "unat (addr c) = a" by simp_all
  then show ?case using Cons.IH tiles_chunk by fastforce
qed simp

lemma tiles_unuse: "tiles a (map (unuse x) cs) e = tiles a cs e"
  by (induction cs arbitrary: a) (auto simp: unuse_def)

lemma tiles_split:
  assumes "tiles a (pre @ c # post) e" and "e < 4294967296" and "req \<le> csize c" and "unat req = 16 + unat al"
  shows "tiles a (pre @ Chunk (addr c) al True # Chunk (addr c + req) (csize c - req) False # post) e"
proof -
  have "unat (addr c) + 16 + unat (csize c) \<le> e" using tiles_chunk [OF assms(1)] by simp
  moreover have "unat req \<le> unat (csize c)" using assms(3) by (simp add: word_le_nat_alt)
  ultimately have "unat (addr c + req) = unat (addr c) + unat req"
    and "unat (csize c - req) = unat (csize c) - unat req"
    using assms by (simp_all add: unat_add_u32 unat_sub)
  with assms \<open>unat req \<le> unat (csize c)\<close> show ?thesis
    by (auto simp: tiles_append) (metis add.assoc add.commute)
qed

lemma tiles_join:
  assumes "tiles a (pre @ c # d # post) e" and "e < 4294967296"
  shows "tiles a (pre @ join c d # post) e"
    and "unat (csize (join c d)) = unat (csize c) + 16 + unat (csize d)"
proof -
  have "unat (addr d) = unat (addr c) + 16 + unat (csize c)" using assms by (auto simp: tiles_append)
  moreover have "unat (addr d) + 16 + unat (csize d) \<le> e" using tiles_chunk [OF assms(1)] by simp
  ultimately show *: "unat (csize (join c d)) = unat (csize c) + 16 + unat (csize d)"
    using assms(2) by (simp add: join_def unat_add_u32)
  show "tiles a (pre @ join c d # post) e"
    using assms(1) by (auto simp: tiles_append *) (simp_all add: add.assoc)
qed

section \<open>Steps on the representation\<close>

lemma hdr_size [simp]: "HEAP_HDR_SIZE = 16"
  by (simp add: HEAP_HDR_SIZE_def HEAP_ALIGN_def)

lemma total_size [simp]: "unat HEAP_TOTAL_SIZE = pool_bytes"
  by (simp add: HEAP_TOTAL_SIZE_def pool_bytes_def)

lemma node_entry [simp]: "list_entry (this_node a) = a" "this_node (list_entry n) = n"
  by (simp_all add: list_entry_def this_node_def)

lemma this_node_inj [simp]: "this_node a = this_node b \<longleftrightarrow> a = b"
  by (simp add: this_node_def)

lemma shape_top: "shape P M cs \<Longrightarrow> unat (pool P) + pool_bytes < 4294967296"
  by (simp add: shape_def placed_def)

lemma shape_tiles: "shape P M cs \<Longrightarrow> tiles (unat (pool P)) cs (unat (pool P) + pool_bytes)"
  by (simp add: shape_def)

text \<open>A header inside the pool has a list node that is neither NULL nor the head of the pool.\<close>

lemma node_in_pool:
  assumes "placed P" and "unat (pool P) \<le> unat a" and "unat a + 16 \<le> unat (pool P) + pool_bytes"
  shows "this_node a \<noteq> 0" and "this_node a \<noteq> head_node P"
proof -
  have "unat (this_node a) = unat a + 8"
    using assms by (simp add: this_node_def placed_def unat_add_u32)
  then show "this_node a \<noteq> 0" and "this_node a \<noteq> head_node P"
    using assms by (auto simp: placed_def in_pool_def)
qed

text \<open>What an operation on pool \<open>P\<close> may touch: headers and nodes in the pool, and its head node.\<close>

definition agree_outside :: "heappool \<Rightarrow> heap_mem \<Rightarrow> heap_mem \<Rightarrow> bool" where
  "agree_outside P M M' \<longleftrightarrow> (\<forall>a. \<not> in_pool P a \<longrightarrow> hsize M' a = hsize M a \<and> hused M' a = hused M a \<and>
     (a \<noteq> head_node P \<longrightarrow> links M' a = links M a))"

lemma agree_refl [simp]: "agree_outside P M M"
  by (simp add: agree_outside_def)

lemma agree_trans: "agree_outside P M M' \<Longrightarrow> agree_outside P M' M'' \<Longrightarrow> agree_outside P M M''"
  by (simp add: agree_outside_def)

lemma agree_avail [simp]: "agree_outside (P\<lparr>avail_size := v\<rparr>) M M' = agree_outside P M M'"
  by (simp add: agree_outside_def in_pool_def)

lemma in_pool_chunk:
  assumes "shape P M cs" and "c \<in> set cs"
  shows "in_pool P (addr c)" and "in_pool P (this_node (addr c))"
proof -
  have b: "unat (pool P) \<le> unat (addr c)" "unat (addr c) + 16 \<le> unat (pool P) + pool_bytes"
    using tiles_chunk [OF shape_tiles [OF assms(1)] assms(2)] by simp_all
  then show "in_pool P (addr c)" by (simp add: in_pool_def)
  have "unat (this_node (addr c)) = unat (addr c) + 8"
    using b shape_top [OF assms(1)] by (simp add: this_node_def unat_add_u32)
  with b show "in_pool P (this_node (addr c))" by (simp add: in_pool_def)
qed

lemma payload_nonzero:
  assumes "shape P M cs" and "c \<in> set cs"
  shows "unat (addr c + 16) = unat (addr c) + 16" and "addr c + 16 \<noteq> 0"
proof -
  show *: "unat (addr c + 16) = unat (addr c) + 16"
    using tiles_chunk [OF shape_tiles [OF assms(1)] assms(2)] shape_top [OF assms(1)]
    by (simp add: unat_add_u32)
  then show "addr c + 16 \<noteq> 0" by auto
qed

lemma shape_next:
  "shape P M (pre @ c # post) \<Longrightarrow>
   list_next (links M) (this_node (addr c)) = hd (map (\<lambda>c. this_node (addr c)) post @ [head_node P])"
  using dlist_next by (fastforce simp: shape_def)

lemma shape_prev:
  "shape P M (pre @ c # post) \<Longrightarrow>
   list_prev (links M) (this_node (addr c)) = last (head_node P # map (\<lambda>c. this_node (addr c)) pre)"
  using dlist_prev by (fastforce simp: shape_def)

lemma shape_not_head: "shape P M cs \<Longrightarrow> c \<in> set cs \<Longrightarrow> this_node (addr c) \<noteq> head_node P"
  by (auto simp: shape_def dlist_def image_iff)

lemma shape_neighbours:
  assumes "shape P M (pre @ c # post)"
  shows "next (links M (this_node (addr c))) = head_node P \<or> in_pool P (next (links M (this_node (addr c))))"
    and "prev (links M (this_node (addr c))) = head_node P \<or> in_pool P (prev (links M (this_node (addr c))))"
proof -
  have nz: "this_node (addr c) \<noteq> 0" using assms by (auto simp: shape_def dlist_def)
  show "next (links M (this_node (addr c))) = head_node P \<or> in_pool P (next (links M (this_node (addr c))))"
    using shape_next [OF assms] nz in_pool_chunk(2) [OF assms] by (cases post) (auto simp: list_next_def)
  show "prev (links M (this_node (addr c))) = head_node P \<or> in_pool P (prev (links M (this_node (addr c))))"
    using shape_prev [OF assms] nz in_pool_chunk(2) [OF assms]
    by (cases pre rule: rev_cases) (auto simp: list_prev_def)
qed

lemma agree_merge:
  assumes "shape P M (pre @ c # d # post)"
  shows "agree_outside P M (M\<lparr>hsize := (hsize M)(addr c := s), links := list_del (this_node (addr d)) (links M)\<rparr>)"
proof -
  have sh: "shape P M ((pre @ [c]) @ d # post)" using assms by simp
  have "prev (links M (this_node (addr d))) \<noteq> this_node (addr d)"
    using sh by (auto simp: shape_def dlist_def)
  then show ?thesis
    using shape_neighbours [OF sh] in_pool_chunk [OF sh, of c] in_pool_chunk [OF sh, of d]
    by (auto simp: agree_outside_def intro!: list_del_frame)
qed

lemma agree_unuse: "shape P M cs \<Longrightarrow> c \<in> set cs \<Longrightarrow> agree_outside P M (M\<lparr>hused := (hused M)(addr c := u)\<rparr>)"
  using in_pool_chunk(1) by (fastforce simp: agree_outside_def)

lemma shape_merge:
  assumes "shape P M (pre @ c # d # post)" and s: "s = csize c + (16 + csize d)"
  shows "shape P (M\<lparr>hsize := (hsize M)(addr c := s), links := list_del (this_node (addr d)) (links M)\<rparr>)
    (pre @ Chunk (addr c) s (cused c) # post)"
proof -
  have t: "tiles (unat (pool P)) (pre @ c # d # post) (unat (pool P) + pool_bytes)"
    and top: "unat (pool P) + pool_bytes < 4294967296"
    using shape_tiles [OF assms(1)] shape_top [OF assms(1)] .
  have "tiles (unat (pool P)) (pre @ Chunk (addr c) s (cused c) # post) (unat (pool P) + pool_bytes)"
    using tiles_join(1) [OF t top] by (simp add: tiles_append join_def s)
  moreover have "distinct (map addr (pre @ c # d # post))" using tiles_distinct [OF t] .
  ultimately show ?thesis
    using assms(1) dlist_del [of "links M" "head_node P" "map (\<lambda>c. this_node (addr c)) (pre @ [c])"
        "this_node (addr d)" "map (\<lambda>c. this_node (addr c)) post"]
    by (auto simp: shape_def image_iff)
qed

lemma shape_unuse:
  assumes "shape P M (pre @ c # post)"
  shows "shape P (M\<lparr>hused := (hused M)(addr c := False)\<rparr>) (pre @ Chunk (addr c) (csize c) False # post)"
proof -
  have "distinct (map addr (pre @ c # post))" using tiles_distinct [OF shape_tiles [OF assms]] .
  then show ?thesis using assms by (auto simp: shape_def tiles_append image_iff)
qed

lemma shape_split:
  assumes "shape P M (pre @ c # post)" and "req \<le> csize c" and "unat req = 16 + unat al"
    and n: "n = addr c + req"
  shows "shape P (M\<lparr>hsize := (hsize M)(n := csize c - req, addr c := al),
      hused := (hused M)(n := False, addr c := True),
      links := list_add (this_node n) (this_node (addr c)) (links M)\<rparr>)
    (pre @ Chunk (addr c) al True # Chunk n (csize c - req) False # post)"
proof -
  let ?cs = "pre @ Chunk (addr c) al True # Chunk n (csize c - req) False # post"
  have t: "tiles (unat (pool P)) ?cs (unat (pool P) + pool_bytes)"
    using tiles_split [OF shape_tiles [OF assms(1)] shape_top [OF assms(1)] assms(2,3)] n by simp
  have d: "distinct (map addr ?cs)" using tiles_distinct [OF t] .
  have "unat (pool P) \<le> unat n \<and> unat n + 16 \<le> unat (pool P) + pool_bytes"
    using tiles_chunk [OF t, of "Chunk n (csize c - req) False"] by simp
  then have new: "this_node n \<noteq> 0" "this_node n \<noteq> head_node P"
    using node_in_pool assms(1) by (auto simp: shape_def)
  have "dlist (list_add (this_node n) (this_node (addr c)) (links M)) (head_node P)
      (map (\<lambda>c. this_node (addr c)) (pre @ [c]) @ this_node n # map (\<lambda>c. this_node (addr c)) post)"
    by (rule dlist_add) (use assms(1) d new in \<open>auto simp: shape_def\<close>)
  then show ?thesis using assms(1) t d by (auto simp: shape_def image_iff)
qed

lemma agree_split:
  assumes "shape P M (pre @ c # post)" and "req \<le> csize c" and "unat req = 16 + unat al"
    and n: "n = addr c + req"
  shows "agree_outside P M (M\<lparr>hsize := (hsize M)(n := csize c - req, addr c := al),
      hused := (hused M)(n := False, addr c := True),
      links := list_add (this_node n) (this_node (addr c)) (links M)\<rparr>)"
proof -
  note sh' = shape_split [OF assms]
  have "in_pool P (addr c)" "in_pool P (this_node (addr c))" "in_pool P n" "in_pool P (this_node n)"
    using in_pool_chunk [OF assms(1), of c] in_pool_chunk [OF sh', of "Chunk n (csize c - req) False"]
    by simp_all
  moreover have "this_node n \<noteq> this_node (addr c)"
    using tiles_distinct [OF shape_tiles [OF sh']] by auto
  ultimately show ?thesis
    using shape_neighbours(1) [OF assms(1)] by (auto simp: agree_outside_def intro!: list_add_frame)
qed

lemma shape_bytes [simp]: "shape P (M\<lparr>bytes := b\<rparr>) cs = shape P M cs"
  by (simp add: shape_def)

lemma shape_avail [simp]: "shape (P\<lparr>avail_size := v\<rparr>) M cs = shape P M cs"
  by (simp add: shape_def placed_def in_pool_def)

lemma shape_first_fit:
  assumes "shape P M cs"
  shows "first_fit M req (next (links M (head_node P))) (head_node P) =
    Some (map_option addr (find (fits req) cs))"
proof -
  have "seg (links M) p (map (\<lambda>c. this_node (addr c)) cs) h \<Longrightarrow> h \<notin> set (map (\<lambda>c. this_node (addr c)) cs) \<Longrightarrow>
      (\<forall>c\<in>set cs. hsize M (addr c) = csize c \<and> hused M (addr c) = cused c) \<Longrightarrow>
      first_fit M req (next (links M p)) h = Some (map_option addr (find (fits req) cs))" for p h
  proof (induction cs arbitrary: p)
    case Nil
    then show ?case by (simp add: first_fit.simps)
  next
    case (Cons c cs)
    then show ?case by (subst first_fit.simps) (auto simp: fits_def [of req c] Let_def)
  qed
  with assms show ?thesis by (simp add: shape_def dlist_def)
qed

section \<open>Allocation refines the first-fit split\<close>

lemma aligned_size_nat:
  assumes "\<not> HEAP_TOTAL_SIZE < sz"
  shows "unat (aligned_size sz) = (unat sz + 7) div 8 * 8"
    and "unat (req_size sz) = 16 + unat (aligned_size sz)"
proof -
  have le: "unat sz \<le> pool_bytes" using assms by (simp add: not_less word_le_nat_alt)
  then have "unat (sz + 7) = unat sz + 7" by (simp add: unat_add_u32 pool_bytes_def)
  moreover have "aligned_size sz = (sz + 7) AND NOT (mask 3)"
    by (simp add: aligned_size_def HEAP_ALIGN_def mask_eq_exp_minus_1 algebra_simps)
  ultimately show *: "unat (aligned_size sz) = (unat sz + 7) div 8 * 8"
    by (simp add: unat_and_not_mask)
  have "(unat sz + 7) div 8 * 8 \<le> pool_bytes + 7" using le by simp
  then show "unat (req_size sz) = 16 + unat (aligned_size sz)"
    by (simp add: req_size_def unat_add_u32 * pool_bytes_def)
qed

lemma aligned_size_ge: "\<not> HEAP_TOTAL_SIZE < sz \<Longrightarrow> unat sz \<le> unat (aligned_size sz)"
  by (simp add: aligned_size_nat)

lemma free_bytes_append [simp]: "free_bytes (xs @ ys) = free_bytes xs + free_bytes ys"
  by (simp add: free_bytes_def)

lemma free_bytes_Cons [simp]:
  "free_bytes (c # cs) = (if cused c then 0 else 16 + unat (csize c)) + free_bytes cs"
  by (simp add: free_bytes_def)

lemma free_bytes_Nil [simp]: "free_bytes [] = 0"
  by (simp add: free_bytes_def)

lemma free_bytes_le: "tiles a cs e \<Longrightarrow> a + free_bytes cs \<le> e"
  by (induction cs arbitrary: a) fastforce+

lemma chunks_ok_split:
  assumes "chunks_ok (pre @ c # post)" and "fits req c" and "unat req = 16 + unat al" and "8 dvd unat al"
  shows "chunks_ok (pre @ Chunk a al True # Chunk b (csize c - req) False # post)"
proof -
  have "unat (csize c - req) = unat (csize c) - (16 + unat al)"
    using assms(2,3) by (simp add: fits_def unat_sub)
  then have "8 dvd unat (csize c - req)" using assms by (simp add: chunks_ok_def dvd_diff_nat)
  moreover have "spaced (pre @ Chunk a al True # Chunk b (csize c - req) False # post)"
    using assms(1,2)
    by (auto simp: chunks_ok_def fits_def spaced_append [of pre c] spaced_append [of pre "Chunk a al True"]
      spaced_snoc_used spaced_Cons)
  ultimately show ?thesis using assms by (auto simp: chunks_ok_def)
qed

lemma heap_malloc_fail:
  assumes "heap_rep P M cs" and "HEAP_TOTAL_SIZE < sz \<or> find (fits (req_size sz)) cs = None"
  shows "heap_malloc P sz M = Some (0, P, M)"
  using assms shape_first_fit [of P M cs "req_size sz"]
  by (auto simp: heap_malloc_def heap_rep_def Let_def)

lemma heap_malloc_fit:
  assumes rep: "heap_rep P M (pre @ c # post)" and sz: "\<not> HEAP_TOTAL_SIZE < sz"
    and f: "find (fits (req_size sz)) (pre @ c # post) = Some c"
  defines "cs' \<equiv> pre @ Chunk (addr c) (aligned_size sz) True #
      Chunk (addr c + req_size sz) (csize c - req_size sz) False # post"
  shows "\<exists>P' M'. heap_malloc P sz M = Some (addr c + 16, P', M') \<and> heap_rep P' M' cs' \<and>
      bytes M' = memset (bytes M) (addr c + 16) 0 sz \<and> agree_outside P M M'"
proof -
  let ?r = "req_size sz" and ?n = "addr c + req_size sz"
  have sh: "shape P M (pre @ c # post)" and ok: "chunks_ok (pre @ c # post)" and "init P"
    and av: "unat (avail_size P) = free_bytes (pre @ c # post)"
    using rep by (simp_all add: heap_rep_def)
  have fit: "fits ?r c" using f by (metis find_Some_iff)
  note al = aligned_size_nat [OF sz]
  let ?M = "M\<lparr>hsize := (hsize M)(?n := csize c - ?r, addr c := aligned_size sz),
      hused := (hused M)(?n := False, addr c := True),
      links := list_add (this_node ?n) (this_node (addr c)) (links M)\<rparr>"
  have sh': "shape P ?M cs'"
    unfolding cs'_def by (rule shape_split [OF sh]) (use fit al(2) in \<open>auto simp: fits_def\<close>)
  have ag: "agree_outside P M ?M"
    by (rule agree_split [OF sh]) (use fit al(2) in \<open>auto simp: fits_def\<close>)
  have c: "hsize M (addr c) = csize c" using sh by (simp add: shape_def)
  have le: "unat ?r \<le> unat (csize c)" using fit by (simp add: fits_def word_le_nat_alt)
  have avail: "\<not> avail_size P < ?r" using av fit le by (simp add: word_less_nat_alt fits_def)
  have end_ok: "?n + 16 \<le> pool P + HEAP_TOTAL_SIZE"
  proof -
    have "unat ?n + 16 + unat (csize c - ?r) \<le> unat (pool P) + pool_bytes"
      using tiles_chunk [OF shape_tiles [OF sh'], of "Chunk ?n (csize c - ?r) False"] by (simp add: cs'_def)
    then show ?thesis using shape_top [OF sh] by (simp add: word_le_nat_alt unat_add_u32)
  qed
  have big: "\<not> 0xFFFFFFFF - (HEAP_ALIGN - 1) < sz"
    using sz by (simp add: HEAP_ALIGN_def HEAP_TOTAL_SIZE_def word_less_nat_alt)
  let ?P = "P\<lparr>avail_size := avail_size P - ?r\<rparr>"
  have "unat (avail_size ?P) = free_bytes cs'"
    using avail av fit le al by (simp add: cs'_def unat_sub not_less fits_def)
  moreover have "chunks_ok cs'"
    unfolding cs'_def by (rule chunks_ok_split [OF ok fit al(2)]) (simp add: al)
  ultimately have "heap_rep ?P (?M\<lparr>bytes := memset (bytes M) (addr c + 16) 0 sz\<rparr>) cs'"
    using sh' \<open>init P\<close> by (simp add: heap_rep_def)
  moreover have "heap_malloc P sz M =
      Some (addr c + 16, ?P, ?M\<lparr>bytes := memset (bytes M) (addr c + 16) 0 sz\<rparr>)"
    using sz big avail \<open>init P\<close> end_ok shape_first_fit [OF sh, of ?r] f c
    by (simp add: heap_malloc_def Let_def)
  ultimately show ?thesis using ag by (simp add: agree_outside_def)
qed

section \<open>Release refines marking and coalescing\<close>

fun absorb :: "chunk \<Rightarrow> chunk list \<Rightarrow> chunk list" where
  "absorb c (d # ds) = (if cused d then c # d # ds else join c d # ds)"
| "absorb c [] = [c]"

abbreviation freed :: "chunk \<Rightarrow> chunk" where
  "freed c \<equiv> Chunk (addr c) (csize c) False"

lemma join_assoc: "join (join c d) e = join c (join d e)"
  by (simp add: join_def)

lemma coalesce_absorb: "spaced post \<Longrightarrow> \<not> cused c \<Longrightarrow> coalesce (c # post) = absorb c post"
proof (cases post)
  case (Cons d ds)
  assume "spaced post" "\<not> cused c"
  with Cons show ?thesis by (cases "cused d") (auto simp: spaced_Cons coalesce_spaced)
qed simp

lemma release_chunk_eq:
  assumes "distinct (map addr (pre @ c # post))" and "spaced (pre @ c # post)" and "cused c"
  shows "release_chunk (addr c) (pre @ c # post) =
    (if pre \<noteq> [] \<and> \<not> cused (last pre) then butlast pre @ absorb (join (last pre) c) post
     else pre @ absorb (freed c) post)"
proof -
  have "unuse (addr c) d = d" if "d \<in> set pre \<union> set post" for d
    using that assms(1) by (auto simp: unuse_def image_iff)
  then have eq: "release_chunk (addr c) (pre @ c # post) = coalesce (pre @ freed c # post)"
    by (simp add: release_chunk_def unuse_def map_idI)
  have sp: "spaced post" "spaced (pre @ [c])"
    using iffD1 [OF spaced_append assms(2)] by (simp_all add: spaced_Cons)
  show ?thesis
  proof (cases "pre \<noteq> [] \<and> \<not> cused (last pre)")
    case False
    then have "spaced (pre @ [freed c])" using sp by (auto simp: spaced_snoc_used)
    then show ?thesis using False sp by (auto simp: eq coalesce_append coalesce_absorb)
  next
    case True
    then obtain xs p where pre: "pre = xs @ [p]" "\<not> cused p" by (cases pre rule: rev_cases) auto
    then have "spaced (xs @ [p])" using sp spaced_append [of xs p "[c]"] by simp
    then have "coalesce (xs @ p # freed c # post) = xs @ coalesce (join p c # post)"
      using pre by (simp add: coalesce_append join_def)
    then show ?thesis using pre sp eq by (simp add: coalesce_absorb)
  qed
qed

lemma merge_next_shape:
  assumes "shape P M (pre @ c # post)" and "cused c"
  shows "\<exists>s ds. shape P (merge_next P (addr c) M) (pre @ Chunk (addr c) s True # ds) \<and>
    absorb (freed c) post = Chunk (addr c) s False # ds \<and> agree_outside P M (merge_next P (addr c) M)"
proof (cases post)
  case Nil
  with assms have "merge_next P (addr c) M = M" using shape_next [OF assms(1)]
    by (simp add: merge_next_def)
  with assms Nil show ?thesis by (cases c) auto
next
  case (Cons d ds)
  have nx: "list_next (links M) (this_node (addr c)) = this_node (addr d)"
    using shape_next [OF assms(1)] Cons by simp
  have hd: "this_node (addr d) \<noteq> head_node P" using shape_not_head [OF assms(1), of d] Cons by simp
  have M: "hused M (addr d) = cused d" "hsize M (addr d) = csize d" "hsize M (addr c) = csize c"
    using assms(1) Cons by (auto simp: shape_def)
  show ?thesis
  proof (cases "cused d")
    case True
    then have "merge_next P (addr c) M = M" using nx M by (simp add: merge_next_def)
    with assms Cons True show ?thesis by (cases c) auto
  next
    case False
    then have "merge_next P (addr c) M = M\<lparr>hsize := (hsize M)(addr c := csize c + (16 + csize d)),
        links := list_del (this_node (addr d)) (links M)\<rparr>"
      using nx M hd by (simp add: merge_next_def)
    with shape_merge [of P M pre c d ds] agree_merge [of P M pre c d ds] assms Cons False show ?thesis by (auto simp: join_def)
  qed
qed

lemma merge_prev_shape:
  assumes "shape P M (pre @ c # post)" and "merge_prev P (addr c) M = (f, M')"
  shows "shape P (M'\<lparr>hused := (hused M')(f := False)\<rparr>)
    (if pre \<noteq> [] \<and> \<not> cused (last pre) then butlast pre @ join (last pre) c # post else pre @ freed c # post) \<and>
    agree_outside P M (M'\<lparr>hused := (hused M')(f := False)\<rparr>)"
proof (cases pre rule: rev_cases)
  case Nil
  with assms have "M' = M" "f = addr c" using shape_prev [OF assms(1)] by (auto simp: merge_prev_def)
  with assms Nil shape_unuse [of P M "[]" c post] agree_unuse [OF assms(1), of c] show ?thesis by simp
next
  case (snoc xs p)
  have pv: "list_prev (links M) (this_node (addr c)) = this_node (addr p)"
    using shape_prev [OF assms(1)] snoc by simp
  have hd: "this_node (addr p) \<noteq> head_node P" using shape_not_head [OF assms(1), of p] snoc by simp
  have M: "hused M (addr p) = cused p" "hsize M (addr p) = csize p" "hsize M (addr c) = csize c"
    using assms(1) snoc by (auto simp: shape_def)
  show ?thesis
  proof (cases "cused p")
    case True
    then have "M' = M" "f = addr c" using assms(2) pv M by (auto simp: merge_prev_def)
    with shape_unuse [OF assms(1)] agree_unuse [OF assms(1), of c] snoc True show ?thesis by simp
  next
    case False
    then have "f = addr p" "M' = M\<lparr>hsize := (hsize M)(addr p := csize p + (16 + csize c)),
        links := list_del (this_node (addr c)) (links M)\<rparr>"
      using assms(2) pv M hd by (auto simp: merge_prev_def Let_def)
    moreover have "agree_outside P M (M'\<lparr>hused := (hused M')(addr p := False)\<rparr>)"
      using agree_merge [of P M xs p c post] in_pool_chunk(1) [OF assms(1), of p] assms(1) snoc calculation
      by (auto simp: agree_outside_def)
    ultimately show ?thesis
      using shape_unuse [OF shape_merge [of P M xs p c post, OF _ refl]] assms(1) snoc False
      by (simp add: join_def)
  qed
qed

lemma free_bytes_absorb:
  assumes "tiles a (pre @ c # post) e" and "e < 4294967296" and "\<not> cused c"
  shows "free_bytes (absorb c post) = free_bytes (c # post)"
  using assms tiles_join(2) by (cases post) fastforce+

lemma release_free_bytes:
  assumes "tiles a (pre @ c # post) e" and "e < 4294967296" and "spaced (pre @ c # post)" and "cused c"
  shows "free_bytes (release_chunk (addr c) (pre @ c # post)) =
    free_bytes (pre @ c # post) + (16 + unat (csize c))"
proof -
  have t: "tiles a (pre @ freed c # post) e" using assms(1) by (simp add: tiles_append)
  show ?thesis
  proof (cases "pre \<noteq> [] \<and> \<not> cused (last pre)")
    case False
    then show ?thesis using assms free_bytes_absorb [OF t assms(2)] tiles_distinct [OF assms(1)]
      by (auto simp: release_chunk_eq)
  next
    case True
    then obtain xs p where pre: "pre = xs @ [p]" "\<not> cused p" by (cases pre rule: rev_cases) auto
    with assms(1) have t': "tiles a (xs @ p # c # post) e" by simp
    show ?thesis
      using pre assms tiles_distinct [OF assms(1)] tiles_join(2) [OF t' assms(2)]
        free_bytes_absorb [OF tiles_join(1) [OF t' assms(2)] assms(2)]
        release_chunk_eq [OF tiles_distinct [OF assms(1)] assms(3,4)]
      by simp
  qed
qed

lemma coalesce_head: "\<exists>d ds. coalesce (c # cs) = d # ds \<and> (cused d \<longleftrightarrow> cused c)"
proof (induction cs arbitrary: c)
  case (Cons d cs)
  show ?case
  proof (cases "cused c \<or> cused d")
    case False
    then show ?thesis using Cons.IH [of "join c d"] by simp
  qed auto
qed simp

lemma spaced_coalesce: "spaced (coalesce cs)"
proof (induction cs rule: coalesce.induct)
  case (1 c d cs)
  then show ?case using coalesce_head [of d cs] by (auto simp: spaced_Cons)
qed simp_all

lemma dvd_coalesce:
  "tiles a (pre @ cs) e \<Longrightarrow> e < 4294967296 \<Longrightarrow> \<forall>c\<in>set cs. 8 dvd unat (csize c) \<Longrightarrow>
   \<forall>c\<in>set (coalesce cs). 8 dvd unat (csize c)"
proof (induction cs arbitrary: pre rule: coalesce.induct)
  case (1 c d cs)
  show ?case
  proof (cases "\<not> cused c \<and> \<not> cused d")
    case True
    have "unat (csize (join c d)) = unat (csize c) + 16 + unat (csize d)"
      using tiles_join(2) 1 by blast
    with 1 True tiles_join(1) [OF 1(3,4)] show ?thesis by (auto simp: dvd_add)
  next
    case False
    with 1(2) [OF False, of "pre @ [c]"] 1 show ?thesis by auto
  qed
qed simp_all

lemma chunks_ok_release:
  assumes "tiles a cs e" and "e < 4294967296" and "chunks_ok cs"
  shows "chunks_ok (release_chunk x cs)"
proof -
  have "\<forall>c\<in>set (map (unuse x) cs). 8 dvd unat (csize c)"
    using assms(3) by (auto simp: chunks_ok_def unuse_def)
  then show ?thesis
    using dvd_coalesce [of a "[]" "map (unuse x) cs" e] assms(1,2)
    by (simp add: chunks_ok_def release_chunk_def spaced_coalesce tiles_unuse)
qed

lemma heap_free_used:
  assumes rep: "heap_rep P M (pre @ c # post)" and c: "cused c"
  shows "\<exists>P' M'. heap_free P (addr c + 16) M = (P', M') \<and>
    heap_rep P' M' (release_chunk (addr c) (pre @ c # post)) \<and> bytes M' = bytes M \<and> agree_outside P M M'"
proof -
  let ?cs = "pre @ c # post"
  have sh: "shape P M ?cs" and ok: "chunks_ok ?cs" and "init P"
    and av: "unat (avail_size P) = free_bytes ?cs"
    using rep by (simp_all add: heap_rep_def)
  note t = shape_tiles [OF sh] and top = shape_top [OF sh]
  let ?P = "P\<lparr>avail_size := avail_size P + (16 + csize c)\<rparr>"
  have M: "hused M (addr c)" "hsize M (addr c) = csize c" using sh c by (simp_all add: shape_def)
  have nz: "addr c + 16 \<noteq> 0" using payload_nonzero [OF sh] by simp
  have fb: "free_bytes (release_chunk (addr c) ?cs) = free_bytes ?cs + (16 + unat (csize c))"
    using release_free_bytes [OF t top] ok c by (simp add: chunks_ok_def)
  obtain s ds where m1: "shape ?P (merge_next ?P (addr c) M) (pre @ Chunk (addr c) s True # ds)"
    and ab: "absorb (freed c) post = Chunk (addr c) s False # ds"
    and ag: "agree_outside P M (merge_next ?P (addr c) M)"
    using merge_next_shape [of ?P M pre c post] sh c by auto
  obtain f M2 where m2: "merge_prev ?P (addr c) (merge_next ?P (addr c) M) = (f, M2)" by fastforce
  let ?M = "M2\<lparr>hused := (hused M2)(f := False)\<rparr>"
  have "absorb (join p c) post = join p (Chunk (addr c) s False) # ds" for p
    using ab by (cases post) (auto simp: join_def split: if_splits)
  then have rel: "release_chunk (addr c) ?cs =
      (if pre \<noteq> [] \<and> \<not> cused (last pre) then butlast pre @ join (last pre) (Chunk (addr c) s True) # ds
       else pre @ Chunk (addr c) s False # ds)"
    using release_chunk_eq [OF tiles_distinct [OF t]] ok c ab by (simp add: chunks_ok_def join_def)
  have sh': "shape ?P ?M (release_chunk (addr c) ?cs)"
    using merge_prev_shape [OF m1, of f M2] m2 by (auto simp: rel split: if_splits)
  have "agree_outside P M ?M"
    using merge_prev_shape [OF m1, of f M2] m2 agree_trans [OF ag] by simp
  have "unat (avail_size ?P) = free_bytes (release_chunk (addr c) ?cs)"
    using av free_bytes_le [OF shape_tiles [OF sh']] top by (simp add: fb unat_add_u32)
  moreover have "chunks_ok (release_chunk (addr c) ?cs)"
    by (rule chunks_ok_release [OF t top ok])
  ultimately have "heap_rep ?P ?M (release_chunk (addr c) ?cs)"
    using sh' \<open>init P\<close> by (simp add: heap_rep_def)
  moreover have "bytes M2 = bytes M"
    using m2 by (auto simp: merge_prev_def merge_next_def Let_def split: if_splits)
  moreover have "heap_free P (addr c + 16) M = (?P, ?M)"
    using nz M m2 by (simp add: heap_free_def Let_def)
  ultimately show ?thesis using \<open>agree_outside P M ?M\<close> by simp
qed

section \<open>Initialisation\<close>

lemma kheap_init_rep:
  assumes "placed P" and "avail_size P = HEAP_TOTAL_SIZE" and "spinlock_alloc (lock_pool M) = (Some l, ls)"
  shows "\<exists>P' M'. kheap_init P M = (P', M') \<and>
    heap_rep P' M' [Chunk (pool P) (HEAP_TOTAL_SIZE - HEAP_HDR_SIZE) False]"
proof -
  let ?h = "list_init (head_node P) (links M)" and ?n = "this_node (pool P)"
  have "?n \<noteq> 0" "?n \<noteq> head_node P"
    using node_in_pool [of P "pool P"] assms(1) by (simp_all add: pool_bytes_def)
  then have "dlist (list_add ?n (head_node P) ?h) (head_node P) [?n]"
    using dlist_add [of ?h "head_node P" "[]" "[]" "head_node P" ?n] dlist_init assms(1)
    by (simp add: placed_def)
  then show ?thesis using assms
    by (simp add: kheap_init_def heap_rep_def shape_def chunks_ok_def Let_def list_init_def placed_def
      in_pool_def HEAP_TOTAL_SIZE_def pool_bytes_def)
qed

lemma heap_malloc_first:
  "\<not> init P \<Longrightarrow> kheap_init P M = (P', M') \<Longrightarrow> init P' \<Longrightarrow> heap_malloc P sz M = heap_malloc P' sz M'"
  by (simp add: heap_malloc_def)

section \<open>What a pool represents is determined\<close>

lemma shape_unique:
  assumes "shape P M cs" and "shape P M ds"
  shows "cs = ds"
proof -
  have "map (\<lambda>c. this_node (addr c)) cs = map (\<lambda>c. this_node (addr c)) ds"
    using dlist_for_each [of "links M" "head_node P" "map (\<lambda>c. this_node (addr c)) cs"]
      dlist_for_each [of "links M" "head_node P" "map (\<lambda>c. this_node (addr c)) ds"] assms
    by (simp add: shape_def)
  then have "map addr cs = map addr ds"
    using this_node_inj by (auto simp: list_eq_iff_nth_eq)
  moreover have "c = Chunk (addr c) (hsize M (addr c)) (hused M (addr c))" if "c \<in> set cs \<union> set ds" for c
    using that assms by (cases c) (auto simp: shape_def)
  ultimately show ?thesis
    by (auto simp: list_eq_iff_nth_eq) (metis UnCI nth_mem)
qed

lemma tiles_disjoint:
  assumes "tiles a cs e" and "c \<in> set cs" and "d \<in> set cs" and "c \<noteq> d"
  shows "unat (addr c) + 16 + unat (csize c) \<le> unat (addr d) \<or>
    unat (addr d) + 16 + unat (csize d) \<le> unat (addr c)"
  using assms
proof (induction cs arbitrary: a)
  case (Cons b cs)
  then show ?case using tiles_chunk [of "a + 16 + unat (csize b)" cs e] by auto
qed simp

lemma tiles_aligned:
  "tiles a cs e \<Longrightarrow> \<forall>c\<in>set cs. 8 dvd unat (csize c) \<Longrightarrow> c \<in> set cs \<Longrightarrow> unat (addr c) mod 8 = a mod 8"
proof (induction cs arbitrary: a)
  case (Cons b cs)
  obtain k where "unat (csize b) = 8 * k" using Cons.prems(2) by (auto elim: dvdE)
  then have "(a + 16 + unat (csize b)) mod 8 = a mod 8" by presburger
  with Cons show ?case by auto
qed simp

section \<open>Two pools over one memory\<close>

definition apart :: "heappool \<Rightarrow> heappool \<Rightarrow> bool" where
  "apart P Q \<longleftrightarrow> (\<forall>a. \<not> (in_pool P a \<and> in_pool Q a)) \<and> head_node P \<noteq> head_node Q \<and>
     \<not> in_pool P (head_node Q) \<and> \<not> in_pool Q (head_node P)"

lemma shape_frame:
  assumes "shape Q M cs" and "agree_outside P M M'" and "apart P Q"
  shows "shape Q M' cs"
proof -
  have out: "\<not> in_pool P (addr c)" "\<not> in_pool P (this_node (addr c))" "this_node (addr c) \<noteq> head_node P"
    if "c \<in> set cs" for c
    using in_pool_chunk [OF assms(1) that] assms(3) by (auto simp: apart_def)
  have "links M' a = links M a" if "a \<in> set (head_node Q # map (\<lambda>c. this_node (addr c)) cs)" for a
    using that out assms(2,3) by (auto simp: agree_outside_def apart_def)
  then have "seg (links M') (head_node Q) (map (\<lambda>c. this_node (addr c)) cs) (head_node Q) =
      seg (links M) (head_node Q) (map (\<lambda>c. this_node (addr c)) cs) (head_node Q)"
    by (intro seg_cong) auto
  then show ?thesis using assms(1,2) out by (auto simp: shape_def dlist_def agree_outside_def)
qed

section \<open>The heap as an allocator\<close>

definition live_blocks :: "heappool \<times> heap_mem \<Rightarrow> ptr set" where
  "live_blocks = (\<lambda>(P, M). {p. \<exists>cs c. heap_rep P M cs \<and> c \<in> set cs \<and> cused c \<and> p = addr c + HEAP_HDR_SIZE})"

definition heap_ok :: "heappool \<times> heap_mem \<Rightarrow> bool" where
  "heap_ok = (\<lambda>(P, M). \<exists>cs. heap_rep P M cs)"

text \<open>\<open>malloc_opt\<close> reads the NULL result of \<^verbatim>\<open>heap_malloc\<close> as \<open>None\<close>.\<close>

definition malloc_opt :: "u32 \<Rightarrow> heappool \<times> heap_mem \<Rightarrow> ptr option \<times> heappool \<times> heap_mem" where
  "malloc_opt sz = (\<lambda>(P, M). case heap_malloc P sz M of
     None \<Rightarrow> (None, P, M) | Some (r, s) \<Rightarrow> (if r = 0 then None else Some r, s))"

lemma live_blocks_rep:
  "heap_rep P M cs \<Longrightarrow> live_blocks (P, M) = (\<lambda>c. addr c + HEAP_HDR_SIZE) ` {c\<in>set cs. cused c}"
proof -
  assume rep: "heap_rep P M cs"
  have "heap_rep P M cs' \<longleftrightarrow> cs' = cs" for cs'
    using rep shape_unique [of P M cs cs'] by (auto simp: heap_rep_def)
  then show ?thesis by (auto simp: live_blocks_def)
qed

text \<open>The two outcomes of an allocation, in the form the properties use.\<close>

lemma heap_malloc_cases:
  assumes "heap_rep P M cs"
  obtains (fail) "heap_malloc P sz M = Some (0, P, M)"
      "HEAP_TOTAL_SIZE < sz \<or> fit_split (req_size sz) (aligned_size sz) cs = None"
  | (fit) pre c post P' M' where "cs = pre @ c # post" "fits (req_size sz) c" "\<not> HEAP_TOTAL_SIZE < sz"
      "fit_split (req_size sz) (aligned_size sz) cs = Some (addr c, pre @ Chunk (addr c) (aligned_size sz) True #
         Chunk (addr c + req_size sz) (csize c - req_size sz) False # post)"
      "heap_malloc P sz M = Some (addr c + 16, P', M')" "addr c + 16 \<noteq> 0"
      "heap_rep P' M' (pre @ Chunk (addr c) (aligned_size sz) True #
         Chunk (addr c + req_size sz) (csize c - req_size sz) False # post)"
      "bytes M' = memset (bytes M) (addr c + 16) 0 sz" "agree_outside P M M'"
proof (cases "HEAP_TOTAL_SIZE < sz \<or> find (fits (req_size sz)) cs = None")
  case True
  then show ?thesis using fail heap_malloc_fail [OF assms] fit_split_None by metis
next
  case False
  then obtain c where f: "find (fits (req_size sz)) cs = Some c" by auto
  obtain pre post where eq: "cs = pre @ c # post" "fits (req_size sz) c"
    "fit_split (req_size sz) (aligned_size sz) cs = Some (addr c, pre @ Chunk (addr c) (aligned_size sz) True #
         Chunk (addr c + req_size sz) (csize c - req_size sz) False # post)"
    by (rule fit_split_Some [OF f])
  have "addr c + 16 \<noteq> 0" using payload_nonzero(2) [of P M cs c] assms eq(1) by (simp add: heap_rep_def)
  moreover have sz: "\<not> HEAP_TOTAL_SIZE < sz" using False by simp
  moreover note heap_malloc_fit [OF assms [unfolded eq(1)] sz f [unfolded eq(1)]]
  ultimately show ?thesis using fit [OF eq(1,2) _ eq(3)] by blast
qed

lemma used_coalesce: "filter cused (coalesce cs) = filter cused cs"
  by (induction cs rule: coalesce.induct) auto

lemma used_release: "{c \<in> set (release_chunk a cs). cused c} = {c \<in> set cs. cused c \<and> addr c \<noteq> a}"
proof -
  have "{c \<in> set (release_chunk a cs). cused c} = set (filter cused (map (unuse a) cs))"
    unfolding release_chunk_def using used_coalesce by (metis set_filter)
  also have "\<dots> = {c \<in> set cs. cused c \<and> addr c \<noteq> a}"
    by (auto simp: unuse_def split: if_splits)
  finally show ?thesis .
qed

lemma heap_free_rep:
  assumes "heap_rep P M cs" and "c \<in> set cs" and "cused c"
  obtains P' M' where "heap_free P (addr c + 16) M = (P', M')"
    "heap_rep P' M' (release_chunk (addr c) cs)" "bytes M' = bytes M" "agree_outside P M M'"
proof -
  from assms(2) obtain pre post where "cs = pre @ c # post" by (auto simp: in_set_conv_decomp)
  with assms heap_free_used [of P M pre c post] that show ?thesis by blast
qed

lemma malloc_opt_ok:
  assumes "heap_ok s" and "malloc_opt sz s = (r, s')"
  shows "heap_ok s'" and "r = Some p \<Longrightarrow> p \<notin> live_blocks s \<and> live_blocks s' = insert p (live_blocks s)"
    and "r = None \<Longrightarrow> live_blocks s' = live_blocks s"
proof -
  obtain P M cs where s: "s = (P, M)" and rep: "heap_rep P M cs" using assms(1) by (auto simp: heap_ok_def)
  have "heap_ok s' \<and> (case r of None \<Rightarrow> live_blocks s' = live_blocks s
      | Some p \<Rightarrow> p \<notin> live_blocks s \<and> live_blocks s' = insert p (live_blocks s))"
  proof (cases rule: heap_malloc_cases [OF rep, of sz, case_names fail fit])
    case fail
    then show ?thesis using assms rep by (auto simp: malloc_opt_def s heap_ok_def)
  next
    case (fit pre c post P' M')
    have "distinct (map addr cs)" using tiles_distinct rep by (auto simp: heap_rep_def shape_def)
    moreover have "\<not> cused c" using fit by (simp add: fits_def)
    ultimately have "addr d \<noteq> addr c" if "d \<in> set cs" "cused d" for d
      using that fit(1) by (auto simp: image_iff)
    then have "addr c + 16 \<notin> live_blocks (P, M)" by (auto simp: live_blocks_rep [OF rep]) metis
    moreover have "{d \<in> set (pre @ Chunk (addr c) (aligned_size sz) True # Chunk a b False # post). cused d} =
        insert (Chunk (addr c) (aligned_size sz) True) {d \<in> set cs. cused d}" for a b
      using fit(1) \<open>\<not> cused c\<close> by auto
    then have "live_blocks (P', M') = insert (addr c + 16) (live_blocks (P, M))"
      unfolding live_blocks_rep [OF rep] live_blocks_rep [OF fit(7)] by simp
    moreover have "heap_ok (P', M')" using fit(7) by (auto simp: heap_ok_def)
    moreover have "r = Some (addr c + 16)" "s' = (P', M')"
      using assms(2) fit(5,6) by (simp_all add: malloc_opt_def s)
    ultimately show ?thesis by (simp add: s)
  qed
  then show "heap_ok s'" and "r = Some p \<Longrightarrow> p \<notin> live_blocks s \<and> live_blocks s' = insert p (live_blocks s)"
    and "r = None \<Longrightarrow> live_blocks s' = live_blocks s" by auto
qed

lemma heap_free_ok:
  assumes "heap_ok (P, M)" and "p \<in> live_blocks (P, M)"
  shows "heap_ok (heap_free P p M)" and "live_blocks (heap_free P p M) = live_blocks (P, M) - {p}"
proof -
  obtain cs where rep: "heap_rep P M cs" using assms(1) by (auto simp: heap_ok_def)
  then obtain c where c: "c \<in> set cs" "cused c" "p = addr c + 16"
    using assms(2) by (auto simp: live_blocks_rep)
  obtain P' M' where f: "heap_free P p M = (P', M')" "heap_rep P' M' (release_chunk (addr c) cs)"
    using heap_free_rep [OF rep c(1,2)] c(3) by metis
  then show "heap_ok (heap_free P p M)" by (auto simp: heap_ok_def)
  show "live_blocks (heap_free P p M) = live_blocks (P, M) - {p}"
    using f c(3) by (auto simp: live_blocks_rep [OF rep] live_blocks_rep [OF f(2)] used_release)
qed

interpretation heap: handle_allocator malloc_opt "\<lambda>p (P, M). heap_free P p M" live_blocks heap_ok
  by unfold_locales (use malloc_opt_ok heap_free_ok in \<open>fastforce+\<close>)

text \<open>
  The kernel heap as its clients see it: \<open>kalloc\<close> is \<^verbatim>\<open>kmalloc\<close> with NULL as \<open>None\<close>.  On a sound heap
  \<^verbatim>\<open>kmalloc\<close> always returns, so nothing is lost by reading a walk that never ends as \<open>None\<close>.
\<close>

definition kalloc :: "u32 \<Rightarrow> heaps \<Rightarrow> ptr option \<times> heaps" where
  "kalloc sz H = (case kmalloc sz H of
     None \<Rightarrow> (None, H) | Some (r, H') \<Rightarrow> (if r = 0 then None else Some r, H'))"

definition kheap_ok :: "heaps \<Rightarrow> bool" where
  "kheap_ok H \<longleftrightarrow> heap_ok (krn_pool H, hmem H)"

definition klive :: "heaps \<Rightarrow> ptr set" where
  "klive H = live_blocks (krn_pool H, hmem H)"

lemma kmalloc_returns: "kheap_ok H \<Longrightarrow> kmalloc sz H \<noteq> None"
proof -
  assume "kheap_ok H"
  then obtain cs where "heap_rep (krn_pool H) (hmem H) cs" by (auto simp: kheap_ok_def heap_ok_def)
  then show ?thesis by (rule heap_malloc_cases [of _ _ _ sz]) (auto simp: kmalloc_def)
qed

lemma kalloc_malloc_opt:
  "kalloc sz H = (let (r, P, M) = malloc_opt sz (krn_pool H, hmem H) in (r, H\<lparr>krn_pool := P, hmem := M\<rparr>))"
proof (cases "heap_malloc (krn_pool H) sz (hmem H)")
  case None
  then show ?thesis by (cases H) (simp add: kalloc_def kmalloc_def malloc_opt_def)
next
  case (Some x)
  then show ?thesis by (cases x) (simp add: kalloc_def kmalloc_def malloc_opt_def)
qed

interpretation kheap: handle_allocator kalloc kfree klive kheap_ok
proof unfold_locales
  fix s s' :: heaps and q r h
  assume s: "kheap_ok s"
  then have ok: "heap_ok (krn_pool s, hmem s)" by (simp add: kheap_ok_def)
  obtain r' P M where a: "malloc_opt q (krn_pool s, hmem s) = (r', P, M)" by (metis surj_pair)
  have eq: "kalloc q s = (r', s\<lparr>krn_pool := P, hmem := M\<rparr>)" by (simp add: kalloc_malloc_opt a)
  note m = malloc_opt_ok [OF ok a]
  have k: "kheap_ok (s\<lparr>krn_pool := P, hmem := M\<rparr>)" "klive (s\<lparr>krn_pool := P, hmem := M\<rparr>) = live_blocks (P, M)"
    using m(1) by (simp_all add: kheap_ok_def klive_def)
  show "kheap_ok s'" if "kalloc q s = (r, s')" using that eq k(1) by simp
  show "h \<notin> klive s" if "kalloc q s = (Some h, s')" using that eq m(2) [of h] by (simp add: klive_def)
  show "klive s' = insert h (klive s)" if "kalloc q s = (Some h, s')"
  proof -
    have "r' = Some h" "s' = s\<lparr>krn_pool := P, hmem := M\<rparr>" using that eq by simp_all
    then show ?thesis using m(2) [of h] k(2) by (simp add: klive_def)
  qed
  show "klive s' = klive s" if "kalloc q s = (None, s')"
  proof -
    have "r' = None" "s' = s\<lparr>krn_pool := P, hmem := M\<rparr>" using that eq by simp_all
    then show ?thesis using m(3) k(2) by (simp add: klive_def)
  qed
  assume "h \<in> klive s"
  then have h: "h \<in> live_blocks (krn_pool s, hmem s)" by (simp add: klive_def)
  show "kheap_ok (kfree h s)" "klive (kfree h s) = klive s - {h}"
    using heap_free_ok [OF ok h]
    by (cases "heap_free (krn_pool s) h (hmem s)"; simp add: kheap_ok_def klive_def kfree_def)+
qed

section \<open>Freeing twice\<close>

text \<open>
  A backward merge leaves the header of the released chunk as it was, marked used, and its node
  linked to itself.
\<close>

lemma heap_free_backward:
  assumes rep: "heap_rep P M (pre @ p # c # post)" and pc: "\<not> cused p" "cused c"
    and free: "heap_free P (addr c + 16) M = (P1, M1)"
  shows "hused M1 (addr c)" and "list_next (links M1) (this_node (addr c)) = this_node (addr c)"
    and "list_prev (links M1) (this_node (addr c)) = this_node (addr c)" and "hsize M1 (addr c) = csize (hd (absorb (freed c) post))"
proof -
  have sh: "shape P M ((pre @ [p]) @ c # post)" using rep by (simp add: heap_rep_def)
  let ?P = "P\<lparr>avail_size := avail_size P + (16 + hsize M (addr c))\<rparr>"
  obtain s ds where m: "shape P (merge_next ?P (addr c) M) ((pre @ [p]) @ Chunk (addr c) s True # ds)"
    and ab: "absorb (freed c) post = Chunk (addr c) s False # ds"
    using merge_next_shape [of ?P M "pre @ [p]" c post] sh pc(2) by auto
  let ?M = "merge_next ?P (addr c) M"
  have "list_prev (links ?M) (this_node (addr c)) = this_node (addr p)" using shape_prev [OF m] by simp
  moreover have "this_node (addr p) \<noteq> head_node P" using shape_not_head [OF m, of p] by simp
  moreover have hs: "\<not> hused ?M (addr p)" "hused ?M (addr c)" using m pc by (auto simp: shape_def)
  ultimately have mp: "merge_prev ?P (addr c) ?M = (addr p, ?M\<lparr>hsize := (hsize ?M)(addr p :=
      hsize ?M (addr p) + (16 + hsize ?M (addr c))), links := list_del (this_node (addr c)) (links ?M)\<rparr>)"
    by (simp add: merge_prev_def Let_def)
  have "hused M (addr c)" using sh pc by (simp add: shape_def)
  then have "M1 = (snd (merge_prev ?P (addr c) ?M))\<lparr>hused := (hused ?M)(addr p := False)\<rparr>"
    using free mp payload_nonzero(2) [OF sh, of c] by (auto simp: heap_free_def Let_def)
  moreover have "hsize ?M (addr c) = csize (hd (absorb (freed c) post))" using m ab by (auto simp: shape_def)
  moreover have "addr p \<noteq> addr c" using tiles_distinct [OF shape_tiles [OF sh]] by auto
  moreover have "this_node (addr c) \<noteq> 0" using sh by (auto simp: shape_def dlist_def)
  ultimately show "hused M1 (addr c)" and "list_next (links M1) (this_node (addr c)) = this_node (addr c)"
    and "list_prev (links M1) (this_node (addr c)) = this_node (addr c)" and "hsize M1 (addr c) = csize (hd (absorb (freed c) post))"
    using hs mp list_del_self by (simp_all add: list_next_def list_prev_def)
qed

lemma release_forgets:
  assumes "heap_rep P M (pre @ p # c # post)" and "\<not> cused p" "cused c"
  shows "addr c \<notin> addr ` set (release_chunk (addr c) (pre @ p # c # post))"
proof -
  have sh: "shape P M ((pre @ [p]) @ c # post)" and sp: "spaced ((pre @ [p]) @ c # post)"
    using assms(1) by (simp_all add: heap_rep_def chunks_ok_def)
  note d = tiles_distinct [OF shape_tiles [OF sh]]
  show ?thesis
    using release_chunk_eq [OF d sp assms(3)] d assms(2)
    by (cases post) (auto simp: join_def)
qed

lemma heap_free_again:
  assumes rep: "heap_rep P M (pre @ p # c # post)" and pc: "\<not> cused p" "cused c"
    and free: "heap_free P (addr c + 16) M = (P1, M1)"
  shows "heap_free P1 (addr c + 16) M1 =
    (P1\<lparr>avail_size := avail_size P1 + (16 + hsize M1 (addr c))\<rparr>, M1\<lparr>hused := (hused M1)(addr c := False)\<rparr>)"
proof -
  have sh: "shape P M (pre @ p # c # post)" using rep by (simp add: heap_rep_def)
  note stale = heap_free_backward [OF assms]
  have "addr c + 16 \<noteq> 0" using payload_nonzero(2) [OF sh, of c] by simp
  moreover have "merge_next Q (addr c) M1 = M1" "merge_prev Q (addr c) M1 = (addr c, M1)" for Q
    using stale by (simp_all add: merge_next_def merge_prev_def Let_def)
  ultimately show ?thesis using stale(1) by (simp add: heap_free_def Let_def)
qed

section \<open>Properties\<close>

text \<open>
  An example pool and memory for the witnesses, and the heap they hold once it is initialised.
\<close>

definition ex_pool :: heappool where
  "ex_pool = \<lparr>pool = 0x200000, avail_size = HEAP_TOTAL_SIZE, lock_dev = None, init = False, head_node = 0x1000\<rparr>"

definition ex_mem :: heap_mem where
  "ex_mem = \<lparr>hsize = \<lambda>_. 0, hused = \<lambda>_. False, links = \<lambda>_. \<lparr>prev = 0, next = 0\<rparr>, bytes = \<lambda>_. 0xCC,
     lock_pool = spinlocks\<rparr>"

definition ex_chunks :: "chunk list" where
  "ex_chunks = [Chunk 0x200000 (HEAP_TOTAL_SIZE - 16) False]"

lemma ex_locks:
  "spinlock_alloc (lock_pool ex_mem) = (Some 0, spinlocks[0 := LOCK_UNLOCKED])"
  "lock_pool (snd (kheap_init ex_pool ex_mem)) = spinlocks[0 := LOCK_UNLOCKED]"
  "spinlock_alloc (spinlocks[0 := LOCK_UNLOCKED]) = (Some 1, spinlocks[0 := LOCK_UNLOCKED, 1 := LOCK_UNLOCKED])"
proof -
  have "1 < SPIN_LOCK_MAX_COUNT" by (simp add: SPIN_LOCK_MAX_COUNT_def)
  then show *: "spinlock_alloc (lock_pool ex_mem) = (Some 0, spinlocks[0 := LOCK_UNLOCKED])"
    and "spinlock_alloc (spinlocks[0 := LOCK_UNLOCKED]) = (Some 1, spinlocks[0 := LOCK_UNLOCKED, 1 := LOCK_UNLOCKED])"
    by (simp_all add: spinlock_alloc_Some ex_mem_def spinlocks_def)
  then show "lock_pool (snd (kheap_init ex_pool ex_mem)) = spinlocks[0 := LOCK_UNLOCKED]"
    by (simp add: kheap_init_def Let_def)
qed

lemma ex_heap_init: "heap_rep (fst (kheap_init ex_pool ex_mem)) (snd (kheap_init ex_pool ex_mem)) ex_chunks"
proof -
  have "placed ex_pool" "avail_size ex_pool = HEAP_TOTAL_SIZE"
    by (simp_all add: placed_def in_pool_def ex_pool_def pool_bytes_def)
  from kheap_init_rep [OF this ex_locks(1)] show ?thesis
    by (auto simp: ex_pool_def ex_chunks_def)
qed

lemma ex_heap: "\<exists>P M. heap_rep P M ex_chunks"
  using ex_heap_init by blast

lemma ex_heap_fit: "fit_split (req_size 5) (aligned_size 5) ex_chunks =
    Some (0x200000, [Chunk 0x200000 8 True, Chunk 0x200018 (HEAP_TOTAL_SIZE - 40) False])"
  by (simp add: ex_chunks_def fits_def req_size_def aligned_size_def HEAP_ALIGN_def HEAP_TOTAL_SIZE_def)

lemma heap_malloc_rep:
  assumes "heap_rep P M cs" and "\<not> HEAP_TOTAL_SIZE < sz"
    and "fit_split (req_size sz) (aligned_size sz) cs = Some (a, cs')"
  shows "\<exists>P' M'. heap_malloc P sz M = Some (a + HEAP_HDR_SIZE, P', M') \<and> heap_rep P' M' cs'"
proof (cases rule: heap_malloc_cases [OF assms(1), of sz, case_names fail fit])
  case fail
  then show ?thesis using assms by simp
next
  case (fit pre c post P' M')
  then show ?thesis using assms by auto
qed

definition ex_chunks2 :: "chunk list" where
  "ex_chunks2 = [Chunk 0x200000 8 True, Chunk 0x200018 (HEAP_TOTAL_SIZE - 40) False]"

lemma ex_heap2: "\<exists>P M. heap_rep P M ex_chunks2"
proof -
  obtain P M where rep: "heap_rep P M ex_chunks" using ex_heap by blast
  have "\<not> HEAP_TOTAL_SIZE < 5" by (simp add: HEAP_TOTAL_SIZE_def)
  from heap_malloc_rep [OF rep this ex_heap_fit] show ?thesis unfolding ex_chunks2_def by blast
qed

definition ex_chunks3 :: "chunk list" where
  "ex_chunks3 = [Chunk 0x200000 8 False, Chunk 0x200018 8 True, Chunk 0x200030 (HEAP_TOTAL_SIZE - 64) False]"

lemma ex_heap3: "\<exists>P M. heap_rep P M ex_chunks3"
proof -
  obtain P M where rep: "heap_rep P M ex_chunks2" using ex_heap2 by blast
  have sz: "\<not> HEAP_TOTAL_SIZE < 5" by (simp add: HEAP_TOTAL_SIZE_def)
  have "fit_split (req_size 5) (aligned_size 5) ex_chunks2 = Some (0x200018, [Chunk 0x200000 8 True,
      Chunk 0x200018 8 True, Chunk 0x200030 (HEAP_TOTAL_SIZE - 64) False])"
    by (simp add: ex_chunks2_def fits_def req_size_def aligned_size_def HEAP_ALIGN_def HEAP_TOTAL_SIZE_def)
  from heap_malloc_rep [OF rep sz this] obtain P' M' where "heap_rep P' M' [Chunk 0x200000 8 True,
      Chunk 0x200018 8 True, Chunk 0x200030 (HEAP_TOTAL_SIZE - 64) False]" by blast
  then obtain P'' M'' where "heap_rep P'' M'' (release_chunk 0x200000 [Chunk 0x200000 8 True,
      Chunk 0x200018 8 True, Chunk 0x200030 (HEAP_TOTAL_SIZE - 64) False])"
    by (rule heap_free_rep [where c = "Chunk 0x200000 8 True"]) auto
  then show ?thesis by (auto simp: release_chunk_def unuse_def ex_chunks3_def)
qed

text \<open>
  Property C3: allocation refines the first-fit split.  On a heap that represents the chunks
  \<open>cs\<close>, heap_malloc always returns.  If the request is larger than the pool or no free chunk
  has room for header and payload, it returns NULL and changes nothing; otherwise it returns
  the payload of the first chunk that fits, and the heap represents \<open>cs\<close> with that chunk cut
  in two, the bookkeeping of free bytes included.
\<close>

theorem heap_malloc_refines:
  assumes "heap_rep P M cs"
  shows "case (if HEAP_TOTAL_SIZE < sz then None else fit_split (req_size sz) (aligned_size sz) cs) of
      None \<Rightarrow> heap_malloc P sz M = Some (0, P, M)
    | Some (a, cs') \<Rightarrow> \<exists>P' M'. heap_malloc P sz M = Some (a + HEAP_HDR_SIZE, P', M') \<and> heap_rep P' M' cs'"
proof (cases rule: heap_malloc_cases [OF assms, of sz, case_names fail fit])
  case fail
  then show ?thesis by (cases "HEAP_TOTAL_SIZE < sz") simp_all
next
  case (fit pre c post P' M')
  then show ?thesis by simp
qed

theorem heap_malloc_refines_witness:
  "\<exists>P M P' M'. heap_rep P M ex_chunks \<and> heap_malloc P 5 M = Some (0x200010, P', M') \<and>
     heap_rep P' M' [Chunk 0x200000 8 True, Chunk 0x200018 (HEAP_TOTAL_SIZE - 40) False]"
proof -
  obtain P M where rep: "heap_rep P M ex_chunks" using ex_heap by blast
  have "\<not> HEAP_TOTAL_SIZE < 5" by (simp add: HEAP_TOTAL_SIZE_def)
  with heap_malloc_refines [OF rep, of 5] rep show ?thesis by (auto simp: ex_heap_fit)
qed

text \<open>
  Property C12: release refines marking and coalescing.  Freeing the payload of a used chunk
  leaves a heap that represents the chunks with that one marked free and every run of free
  neighbours joined into one; freeing the payload of a free chunk changes nothing.
\<close>

theorem heap_free_refines:
  assumes "heap_rep P M cs" and "c \<in> set cs"
  shows "if cused c
    then \<exists>P' M'. heap_free P (addr c + HEAP_HDR_SIZE) M = (P', M') \<and>
           heap_rep P' M' (release_chunk (addr c) cs) \<and> bytes M' = bytes M
    else heap_free P (addr c + HEAP_HDR_SIZE) M = (P, M)"
proof (cases "cused c")
  case True
  show ?thesis by (rule heap_free_rep [OF assms True]) (use True in auto)
next
  case False
  with assms have "\<not> hused M (addr c)" by (auto simp: heap_rep_def shape_def)
  with False show ?thesis by (simp add: heap_free_def)
qed

theorem heap_free_refines_witness:
  "\<exists>P M P' M'. heap_rep P M ex_chunks2 \<and> heap_free P 0x200010 M = (P', M') \<and> heap_rep P' M' ex_chunks"
proof -
  obtain P M where rep: "heap_rep P M ex_chunks2" using ex_heap2 by blast
  have "release_chunk 0x200000 ex_chunks2 = ex_chunks"
    by (simp add: release_chunk_def unuse_def join_def ex_chunks_def ex_chunks2_def HEAP_TOTAL_SIZE_def)
  with heap_free_refines [OF rep, of "Chunk 0x200000 8 True"] rep show ?thesis
    by (auto simp: ex_chunks2_def)
qed

text \<open>
  Property C13: what the caller of heap_malloc gets.  A block that is returned lies inside the
  pool, has the pool's alignment modulo 8, overlaps no used chunk (header or payload), is
  filled with zeros, and no byte outside it changes.
\<close>

theorem heap_malloc_block:
  assumes "heap_rep P M cs" and "heap_malloc P sz M = Some (r, P', M')" and "r \<noteq> 0"
  shows "unat (pool P) \<le> unat r \<and> unat r + unat sz \<le> unat (pool P) + pool_bytes \<and>
    unat r mod 8 = unat (pool P) mod 8 \<and>
    (\<forall>c\<in>set cs. cused c \<longrightarrow> unat (addr c) + 16 + unat (csize c) \<le> unat r \<or> unat r + unat sz \<le> unat (addr c)) \<and>
    (\<forall>a. bytes M' a = (if in_range a r (unat sz) then 0 else bytes M a))"
proof (cases rule: heap_malloc_cases [OF assms(1), of sz, case_names fail fit])
  case fail
  then show ?thesis using assms by simp
next
  case (fit pre c post Q N)
  have sh: "shape P M cs" and ok: "\<forall>c\<in>set cs. 8 dvd unat (csize c)"
    using assms(1) by (simp_all add: heap_rep_def chunks_ok_def)
  note t = shape_tiles [OF sh]
  have c: "c \<in> set cs" "\<not> cused c" "r = addr c + 16" "M' = N" using fit assms by (simp_all add: fits_def)
  have r: "unat r = unat (addr c) + 16" using payload_nonzero(1) [OF sh c(1)] c(3) by simp
  have sz: "unat sz \<le> unat (csize c)"
    using fit(2) aligned_size_ge [OF fit(3)] aligned_size_nat(2) [OF fit(3)]
    by (simp add: fits_def word_le_nat_alt)
  have "(unat (addr c) + 16) mod 8 = unat (addr c) mod 8" by presburger
  then have "unat r mod 8 = unat (pool P) mod 8" using tiles_aligned [OF t ok c(1)] r by simp
  moreover have "unat (addr d) + 16 + unat (csize d) \<le> unat r \<or> unat r + unat sz \<le> unat (addr d)"
    if "d \<in> set cs" "cused d" for d
    using tiles_disjoint [OF t c(1) that(1)] that c(2) r sz by (cases "c = d") auto
  ultimately show ?thesis
    using tiles_chunk [OF t c(1)] r sz fit(8) c by (auto simp: memset_apply)
qed

theorem heap_malloc_block_witness:
  "\<exists>P M P' M'. heap_rep P M ex_chunks2 \<and> heap_malloc P 5 M = Some (0x200028, P', M') \<and>
     (\<forall>a. bytes M' a = (if in_range a 0x200028 5 then 0 else bytes M a))"
proof -
  obtain P M where rep: "heap_rep P M ex_chunks2" using ex_heap2 by blast
  have sz: "\<not> HEAP_TOTAL_SIZE < 5" by (simp add: HEAP_TOTAL_SIZE_def)
  have "fit_split (req_size 5) (aligned_size 5) ex_chunks2 = Some (0x200018, [Chunk 0x200000 8 True,
      Chunk 0x200018 8 True, Chunk 0x200030 (HEAP_TOTAL_SIZE - 64) False])"
    by (simp add: ex_chunks2_def fits_def req_size_def aligned_size_def HEAP_ALIGN_def HEAP_TOTAL_SIZE_def)
  from heap_malloc_rep [OF rep sz this] obtain P' M' where m: "heap_malloc P 5 M = Some (0x200028, P', M')" by auto
  from heap_malloc_block [OF rep m]
  have "\<forall>a. bytes M' a = (if in_range a 0x200028 5 then 0 else bytes M a)" by simp
  with rep m show ?thesis by blast
qed

text \<open>
  Property C24: allocate and release round trip.  Releasing a block right after it was allocated
  gives back the chunk list there was before, so the pair neither fragments the pool nor
  loses or invents free bytes.
\<close>

theorem heap_malloc_free_roundtrip:
  assumes "heap_rep P M cs" and "heap_malloc P sz M = Some (r, P', M')" and "r \<noteq> 0"
    and "heap_free P' r M' = (P'', M'')"
  shows "heap_rep P'' M'' cs"
proof (cases rule: heap_malloc_cases [OF assms(1), of sz, case_names fail fit])
  case fail
  then show ?thesis using assms by simp
next
  case (fit pre c post Q N)
  let ?u = "Chunk (addr c) (aligned_size sz) True"
    and ?f = "Chunk (addr c + req_size sz) (csize c - req_size sz) False"
  have eq: "r = addr c + 16" "P' = Q" "M' = N" using fit assms(2) by simp_all
  have sh: "shape Q N (pre @ ?u # ?f # post)" and sp: "spaced (pre @ ?u # ?f # post)"
    using fit(7) by (simp_all add: heap_rep_def chunks_ok_def)
  have c: "\<not> cused c" using fit(2) by (simp add: fits_def)
  have "spaced (pre @ [c])"
    using assms(1) fit(1) spaced_append [of pre c post] by (simp add: heap_rep_def chunks_ok_def)
  then have pre: "\<not> (pre \<noteq> [] \<and> \<not> cused (last pre))" using c by (auto simp: spaced_snoc_used)
  have "join ?u ?f = c" using c by (cases c) (simp add: join_def req_size_def)
  then have "release_chunk (addr c) (pre @ ?u # ?f # post) = cs"
    using release_chunk_eq [OF tiles_distinct [OF shape_tiles [OF sh]] sp] pre fit(1)
    by (auto simp: join_def)
  then show ?thesis
    using heap_free_rep [OF fit(7), of ?u] eq assms(4) by auto
qed

theorem heap_malloc_free_roundtrip_witness:
  "\<exists>P M P' M' P'' M''. heap_rep P M ex_chunks \<and> heap_malloc P 5 M = Some (0x200010, P', M') \<and>
     heap_free P' 0x200010 M' = (P'', M'') \<and> heap_rep P'' M'' ex_chunks"
proof -
  obtain P M where rep: "heap_rep P M ex_chunks" using ex_heap by blast
  have "\<not> HEAP_TOTAL_SIZE < 5" by (simp add: HEAP_TOTAL_SIZE_def)
  from heap_malloc_rep [OF rep this ex_heap_fit]
  obtain P' M' where m: "heap_malloc P 5 M = Some (0x200010, P', M')" by auto
  obtain P'' M'' where f: "heap_free P' 0x200010 M' = (P'', M'')" by fastforce
  from heap_malloc_free_roundtrip [OF rep m _ f] have "heap_rep P'' M'' ex_chunks" by simp
  with rep m f show ?thesis by blast
qed

lemma heap_rep_frame:
  "heap_rep Q M cs \<Longrightarrow> agree_outside P M M' \<Longrightarrow> apart P Q \<Longrightarrow> heap_rep Q M' cs"
  using shape_frame by (auto simp: heap_rep_def)

lemma heap_malloc_agree:
  assumes "heap_rep P M cs" and "heap_malloc P sz M = Some (r, P', M')"
  shows "agree_outside P M M'"
  by (cases rule: heap_malloc_cases [OF assms(1), of sz, case_names fail fit]) (use assms(2) in auto)

lemma heap_free_agree:
  assumes "heap_rep P M cs" and "c \<in> set cs" and "cused c" and "heap_free P (addr c + 16) M = (P', M')"
  shows "agree_outside P M M'"
  by (rule heap_free_rep [OF assms(1-3)]) (use assms(4) in auto)

lemma apart_sym: "apart P Q \<Longrightarrow> apart Q P"
  by (auto simp: apart_def)

lemma kheap_init_frame:
  assumes "placed P" and "kheap_init P M = (P', M')"
  shows "agree_outside P M M'" and "pool P' = pool P" and "head_node P' = head_node P"
proof -
  have "in_pool P (pool P)" "in_pool P (this_node (pool P))"
    using assms(1) unat_add_u32 [of "pool P" 8] by (auto simp: in_pool_def this_node_def placed_def pool_bytes_def)
  then show "agree_outside P M M'" and "pool P' = pool P" and "head_node P' = head_node P"
    using assms by (auto simp: kheap_init_def agree_outside_def list_ops placed_def split: prod.splits if_splits)
qed

definition ex_upool :: heappool where
  "ex_upool = ex_pool\<lparr>pool := 0x2000000, head_node := 0x2000\<rparr>"

lemma ex_heaps:
  "\<exists>H :: heaps. heap_rep (krn_pool H) (hmem H) ex_chunks \<and>
     heap_rep (user_pool H) (hmem H) [Chunk 0x2000000 (HEAP_TOTAL_SIZE - 16) False] \<and>
     apart (krn_pool H) (user_pool H)"
proof -
  have pl: "placed ex_pool" "placed ex_upool" and av: "avail_size ex_upool = HEAP_TOTAL_SIZE"
    by (simp_all add: placed_def in_pool_def ex_pool_def ex_upool_def pool_bytes_def)
  obtain P M where k: "heap_rep P M ex_chunks" "P = fst (kheap_init ex_pool ex_mem)"
    "M = snd (kheap_init ex_pool ex_mem)"
    using ex_heap_init by auto
  have "spinlock_alloc (lock_pool M) = (Some 1, spinlocks[0 := LOCK_UNLOCKED, 1 := LOCK_UNLOCKED])"
    using ex_locks by (simp add: k(3))
  from kheap_init_rep [OF pl(2) av this] obtain Q N where
    u: "kheap_init ex_upool M = (Q, N)" "heap_rep Q N [Chunk 0x2000000 (HEAP_TOTAL_SIZE - 16) False]"
    by (auto simp: ex_upool_def)
  have pq: "pool P = 0x200000" "head_node P = 0x1000" "pool Q = 0x2000000" "head_node Q = 0x2000"
    using kheap_init_frame(2,3) [OF pl(1), of ex_mem P M] kheap_init_frame(2,3) [OF pl(2) u(1)] k(2,3)
    by (auto simp: ex_pool_def ex_upool_def)
  then have "apart ex_upool P" "apart P Q" by (auto simp: apart_def in_pool_def pool_bytes_def ex_upool_def ex_pool_def)
  with heap_rep_frame [OF k(1) kheap_init_frame(1) [OF pl(2) u(1)]] u(2) show ?thesis
    by (intro exI [of _ "\<lparr>krn_pool = P, user_pool = Q, hmem = N\<rparr>"]) simp
qed

text \<open>
  The kernel heap and the user heap do not disturb each other.  With the two pools
  apart, allocating in or releasing to one leaves the other representing the same chunks.
\<close>

theorem heap_pools_independent:
  assumes "heap_rep (krn_pool H) (hmem H) cs" and "heap_rep (user_pool H) (hmem H) ds"
    and "apart (krn_pool H) (user_pool H)"
  shows "(\<forall>sz r H'. kmalloc sz H = Some (r, H') \<longrightarrow> heap_rep (user_pool H') (hmem H') ds) \<and>
    (\<forall>c\<in>set cs. cused c \<longrightarrow> (let H' = kfree (addr c + 16) H in heap_rep (user_pool H') (hmem H') ds)) \<and>
    (\<forall>sz r H'. malloc sz H = Some (r, H') \<longrightarrow> heap_rep (krn_pool H') (hmem H') cs) \<and>
    (\<forall>d\<in>set ds. cused d \<longrightarrow> (let H' = free (addr d + 16) H in heap_rep (krn_pool H') (hmem H') cs))"
proof (intro conjI allI ballI impI)
  note k = heap_rep_frame [OF assms(2) _ assms(3)] and u = heap_rep_frame [OF assms(1) _ apart_sym [OF assms(3)]]
  show "heap_rep (user_pool H') (hmem H') ds" if "kmalloc sz H = Some (r, H')" for sz r H'
    using that k heap_malloc_agree [OF assms(1), of sz] by (auto simp: kmalloc_def)
  show "heap_rep (krn_pool H') (hmem H') cs" if "malloc sz H = Some (r, H')" for sz r H'
    using that u heap_malloc_agree [OF assms(2), of sz] by (auto simp: malloc_def)
  show "let H' = kfree (addr c + 16) H in heap_rep (user_pool H') (hmem H') ds"
    if "c \<in> set cs" and "cused c" for c
    using that k heap_free_agree [OF assms(1) that] by (auto simp: kfree_def Let_def split: prod.split)
  show "let H' = free (addr d + 16) H in heap_rep (krn_pool H') (hmem H') cs"
    if "d \<in> set ds" and "cused d" for d
    using that u heap_free_agree [OF assms(2) that] by (auto simp: free_def Let_def split: prod.split)
qed

theorem heap_pools_independent_witness:
  "\<exists>H r H'. heap_rep (krn_pool H) (hmem H) ex_chunks \<and>
     heap_rep (user_pool H) (hmem H) [Chunk 0x2000000 (HEAP_TOTAL_SIZE - 16) False] \<and>
     kmalloc 5 H = Some (r, H') \<and> r \<noteq> 0 \<and>
     heap_rep (user_pool H') (hmem H') [Chunk 0x2000000 (HEAP_TOTAL_SIZE - 16) False]"
proof -
  obtain H :: heaps where k: "heap_rep (krn_pool H) (hmem H) ex_chunks"
    and u: "heap_rep (user_pool H) (hmem H) [Chunk 0x2000000 (HEAP_TOTAL_SIZE - 16) False]"
    and ap: "apart (krn_pool H) (user_pool H)" using ex_heaps by blast
  have "\<not> HEAP_TOTAL_SIZE < 5" by (simp add: HEAP_TOTAL_SIZE_def)
  from heap_malloc_rep [OF k this ex_heap_fit]
  obtain P' M' where "heap_malloc (krn_pool H) 5 (hmem H) = Some (0x200010, P', M')" by auto
  then have "kmalloc 5 H = Some (0x200010, H\<lparr>krn_pool := P', hmem := M'\<rparr>)" by (simp add: kmalloc_def)
  moreover from heap_pools_independent [OF k u ap] calculation
  have "heap_rep (user_pool (H\<lparr>krn_pool := P', hmem := M'\<rparr>)) (hmem (H\<lparr>krn_pool := P', hmem := M'\<rparr>))
      [Chunk 0x2000000 (HEAP_TOTAL_SIZE - 16) False]" by blast
  moreover have "(0x200010 :: ptr) \<noteq> 0" by simp
  ultimately show ?thesis using k u by blast
qed

text \<open>
  The bytes a second release of a chunk counts: its own, and those of the successor the first release joined
  to it, both as its stale header has them.
\<close>

definition stale_bytes :: "chunk \<Rightarrow> chunk list \<Rightarrow> nat" where
  "stale_bytes c post = 16 + unat (csize c) + (case post of [] \<Rightarrow> 0 | d # _ \<Rightarrow> if cused d then 0 else 16 + unat (csize d))"

lemma stale_header:
  assumes "heap_rep P M (pre @ c # post)"
  shows "unat (16 + csize (hd (absorb (freed c) post))) = stale_bytes c post" and "stale_bytes c post \<le> pool_bytes"
proof -
  have sh: "shape P M (pre @ c # post)" using assms by (simp add: heap_rep_def)
  have t: "tiles (unat (pool P)) (pre @ c # post) (unat (pool P) + pool_bytes)" "unat (pool P) + pool_bytes < 4294967296"
    using shape_tiles [OF sh] shape_top [OF sh] by simp_all
  have j: "unat (csize (join c (hd post))) = unat (csize c) + 16 + unat (csize (hd post))" if "post \<noteq> []"
    using tiles_join(2) [of _ pre c "hd post" "tl post"] t that by simp
  have "\<exists>d ds. tiles (unat (pool P)) (pre @ Chunk (addr c) (csize (hd (absorb (freed c) post))) d # ds) (unat (pool P) + pool_bytes)"
  proof (cases "post \<noteq> [] \<and> \<not> cused (hd post)")
    case True
    then show ?thesis using tiles_join(1) [of _ pre c "hd post" "tl post"] t by (cases post) (auto simp: join_def)
  next
    case False
    then have "csize (hd (absorb (freed c) post)) = csize c" by (cases post) auto
    then show ?thesis using t(1) by (intro exI [of _ False] exI [of _ post]) (simp add: tiles_append)
  qed
  then have "unat (addr c) + 16 + unat (csize (hd (absorb (freed c) post))) \<le> unat (pool P) + pool_bytes" "unat (pool P) \<le> unat (addr c)"
    using tiles_chunk by fastforce+
  moreover have "16 + unat (csize (hd (absorb (freed c) post))) = stale_bytes c post"
    using j by (cases post) (auto simp: stale_bytes_def join_def)
  ultimately show "unat (16 + csize (hd (absorb (freed c) post))) = stale_bytes c post" "stale_bytes c post \<le> pool_bytes"
    using t(2) unat_add_u32 [of 16 "csize (hd (absorb (freed c) post))"] by simp_all
qed

text \<open>
  Property C25: the used flag does not stop every double free.  When the first release joins a
  chunk with its free predecessor, the header of the chunk stays marked used.  The first release adds
  the bytes of the chunk to avail_size; releasing the same pointer again adds the bytes in the stale header
  once more and changes no chunk, so avail_size then exceeds the free bytes of the pool by exactly that much:
  the bytes of the chunk, and those of its successor when that was free too.
\<close>

theorem heap_double_free_overcounts:
  assumes "heap_rep P M (pre @ p # c # post)" and "\<not> cused p" and "cused c"
    and "heap_free P (addr c + HEAP_HDR_SIZE) M = (P1, M1)"
    and "heap_free P1 (addr c + HEAP_HDR_SIZE) M1 = (P2, M2)"
  shows "\<exists>cs. heap_rep P1 M1 cs \<and> unat (avail_size P1) = unat (avail_size P) + 16 + unat (csize c) \<and>
    shape P2 M2 cs \<and> unat (avail_size P2) = free_bytes cs + stale_bytes c post"
proof -
  let ?cs = "release_chunk (addr c) (pre @ p # c # post)"
  have f1: "heap_free P (addr c + 16) M = (P1, M1)" using assms(4) by simp
  have rep: "heap_rep P1 M1 ?cs"
    by (rule heap_free_rep [OF assms(1) _ assms(3)]) (use f1 in auto)
  have rep': "heap_rep P M ((pre @ [p]) @ c # post)" and sh: "shape P M ((pre @ [p]) @ c # post)" using assms(1) by (simp_all add: heap_rep_def)
  have first: "unat (avail_size P1) = unat (avail_size P) + 16 + unat (csize c)"
    using release_free_bytes [OF shape_tiles [OF sh] shape_top [OF sh] _ assms(3)] rep rep' by (auto simp: heap_rep_def chunks_ok_def)
  have two: "P2 = P1\<lparr>avail_size := avail_size P1 + (16 + csize (hd (absorb (freed c) post)))\<rparr>"
      "M2 = M1\<lparr>hused := (hused M1)(addr c := False)\<rparr>"
    using heap_free_again [OF assms(1-3) f1] heap_free_backward(4) [OF assms(1-3) f1] assms(5) by simp_all
  have sh2: "shape P2 M2 ?cs"
    using rep release_forgets [OF assms(1-3)] by (auto simp: two heap_rep_def shape_def placed_def in_pool_def image_iff)
  have "free_bytes ?cs \<le> pool_bytes"
    using rep free_bytes_le [of "unat (pool P1)" ?cs "unat (pool P1) + pool_bytes"] by (simp add: heap_rep_def shape_def)
  then have "unat (avail_size P2) = free_bytes ?cs + stale_bytes c post"
    using rep stale_header [OF rep'] unat_add_u32 [of "avail_size P1" "16 + csize (hd (absorb (freed c) post))"]
    by (simp add: two heap_rep_def pool_bytes_def)
  with rep sh2 first show ?thesis by blast
qed

theorem heap_double_free_overcounts_witness:
  "\<exists>P M P1 M1 P2 M2 cs. heap_rep P M ex_chunks3 \<and> heap_free P 0x200028 M = (P1, M1) \<and>
     heap_free P1 0x200028 M1 = (P2, M2) \<and> heap_rep P1 M1 cs \<and> shape P2 M2 cs \<and>
     unat (avail_size P2) = free_bytes cs + 40 + unat (HEAP_TOTAL_SIZE - 64)"
proof -
  obtain P M where rep: "heap_rep P M ex_chunks3" using ex_heap3 by blast
  obtain P1 M1 where f1: "heap_free P 0x200028 M = (P1, M1)" by fastforce
  obtain P2 M2 where f2: "heap_free P1 0x200028 M1 = (P2, M2)" by fastforce
  have "heap_rep P M ([] @ Chunk 0x200000 8 False # Chunk 0x200018 8 True #
      [Chunk 0x200030 (HEAP_TOTAL_SIZE - 64) False])" using rep by (simp add: ex_chunks3_def)
  from heap_double_free_overcounts [OF this, of P1 M1 P2 M2] f1 f2
  have "\<exists>cs. heap_rep P1 M1 cs \<and> shape P2 M2 cs \<and> unat (avail_size P2) = free_bytes cs + 40 + unat (HEAP_TOTAL_SIZE - 64)"
    by (auto simp: stale_bytes_def)
  with rep f1 f2 show ?thesis by blast
qed

section \<open>Room in the kernel heap\<close>

text \<open>
  \<open>room n H\<close>: the kernel heap has a free chunk of at least \<open>n\<close> bytes.  A request that fits into it
  succeeds and leaves the rest.
\<close>

definition room :: "nat \<Rightarrow> heaps \<Rightarrow> bool" where
  "room n H \<longleftrightarrow> (\<exists>cs. heap_rep (krn_pool H) (hmem H) cs \<and> (\<exists>c\<in>set cs. \<not> cused c \<and> n \<le> unat (csize c)))"

lemma room_ok: "room n H \<Longrightarrow> kheap_ok H"
  by (auto simp: room_def kheap_ok_def heap_ok_def)

lemma room_mono: "room n H \<Longrightarrow> k \<le> n \<Longrightarrow> room k H"
  unfolding room_def by (meson order_trans)

lemma room_alloc:
  assumes "room n H" and "unat (req_size sz) \<le> n" and "\<not> HEAP_TOTAL_SIZE < sz"
  shows "\<exists>p H'. kalloc sz H = (Some p, H') \<and> room (n - unat (req_size sz)) H'"
proof -
  let ?req = "req_size sz"
  obtain cs c where rep: "heap_rep (krn_pool H) (hmem H) cs" and c: "c \<in> set cs" "\<not> cused c" "n \<le> unat (csize c)"
    using assms(1) by (auto simp: room_def)
  have "fits ?req c" using c assms(2) by (simp add: fits_def word_le_nat_alt)
  then have "fit_split ?req (aligned_size sz) cs \<noteq> None" using c(1) by (auto simp: fit_split_None find_None_iff)
  then show ?thesis
  proof (cases rule: heap_malloc_cases [OF rep, of sz, case_names fail fit])
    case fail
    then show ?thesis using assms(3) \<open>fit_split ?req (aligned_size sz) cs \<noteq> None\<close> by simp
  next
    case (fit pre d post P' M')
    have "kalloc sz H = (Some (addr d + 16), H\<lparr>krn_pool := P', hmem := M'\<rparr>)"
      using fit(5,6) by (simp add: kalloc_def kmalloc_def)
    moreover have "room (n - unat ?req) (H\<lparr>krn_pool := P', hmem := M'\<rparr>)"
    proof -
      let ?rest = "Chunk (addr d + ?req) (csize d - ?req) False"
      have "\<exists>x\<in>set (pre @ Chunk (addr d) (aligned_size sz) True # ?rest # post). \<not> cused x \<and> n - unat ?req \<le> unat (csize x)"
      proof (cases "c = d")
        case True
        then have "unat (csize d - ?req) = unat (csize d) - unat ?req"
          using fit(2) by (simp add: fits_def unat_sub)
        then show ?thesis using c(3) True by (intro bexI [of _ ?rest]) simp_all
      next
        case False
        then show ?thesis using c fit(1) by (intro bexI [of _ c]) auto
      qed
      moreover have "heap_rep (krn_pool (H\<lparr>krn_pool := P', hmem := M'\<rparr>)) (hmem (H\<lparr>krn_pool := P', hmem := M'\<rparr>))
          (pre @ Chunk (addr d) (aligned_size sz) True # ?rest # post)" using fit(7) by simp
      ultimately show ?thesis unfolding room_def by blast
    qed
    ultimately show ?thesis by blast
  qed
qed

lemma ex_room: "\<exists>H :: heaps. room 16000000 H"
proof -
  obtain P M where "heap_rep P M ex_chunks" using ex_heap by blast
  then show ?thesis
    by (intro exI [of _ "\<lparr>krn_pool = P, user_pool = P, hmem = M\<rparr>"])
      (auto simp: room_def ex_chunks_def HEAP_TOTAL_SIZE_def)
qed

end
