(* ===== verification/Capability.thy ===== *)
theory Capability
  imports Heap
begin

text \<open>
  Capabilities: \<^verbatim>\<open>kernel/capability.c\<close>.  A capability is the tagged union of \<^verbatim>\<open>struct capability\<close>; its
  node is a block of the kernel heap, so granting and revoking also allocate and free.  The
  \<^verbatim>\<open>const void* args\<close> of the C interface, which the code casts to the type that \<^verbatim>\<open>type\<close> names, is a
  value of the same union, or \<open>None\<close> for NULL.
\<close>

section \<open>Types\<close>

datatype cap_type = CAP_OWN_IRQ | CAP_MAP_MEM | CAP_ACCESS_IO | CAP_IPC | CAP_CREATE_KRNL_PROC
  | CAP_CREATE_KRNL_THREAD

record cap_mem =
  mbase :: u32
  msize :: u32
  mflags :: u32

record cap_io_port =
  pbase :: u32
  pcount :: u32

datatype capability = Irq u32 | Mem cap_mem | Io_port cap_io_port | Issue_ipc int
  | Issue_proc_create int | Issue_thread_create int

fun cap_kind :: "capability \<Rightarrow> cap_type" where
  "cap_kind (Irq _) = CAP_OWN_IRQ"
| "cap_kind (Mem _) = CAP_MAP_MEM"
| "cap_kind (Io_port _) = CAP_ACCESS_IO"
| "cap_kind (Issue_ipc _) = CAP_IPC"
| "cap_kind (Issue_proc_create _) = CAP_CREATE_KRNL_PROC"
| "cap_kind (Issue_thread_create _) = CAP_CREATE_KRNL_THREAD"

text \<open>The part of \<^verbatim>\<open>struct pcb\<close> the capability code works on: the lock and the list, newest first.\<close>

record cap_owner =
  cap_lock :: "nat option"
  capabilities :: "(ptr \<times> capability) list"

definition sizeof_capability :: u32 where "sizeof_capability = 24"

section \<open>Checks and comparisons\<close>

definition cap_irq_check :: "u32 \<Rightarrow> u32 \<Rightarrow> int" where
  "cap_irq_check defender challenger = (if defender = challenger then 0 else E_PERM)"

definition cap_mem_check :: "cap_mem \<Rightarrow> cap_mem \<Rightarrow> int" where
  "cap_mem_check defender challenger =
     (if msize challenger = 0 then E_INVAL
      else if mflags defender AND mflags challenger \<noteq> mflags challenger then E_PERM
      else if mbase challenger < mbase defender then E_PERM
      else if msize challenger > msize defender then E_PERM
      else if mbase challenger - mbase defender > msize defender - msize challenger then E_PERM
      else 0)"

definition cap_io_port_check :: "cap_io_port \<Rightarrow> cap_io_port \<Rightarrow> int" where
  "cap_io_port_check defender challenger =
     (if pcount challenger = 0 then E_INVAL
      else if pbase challenger < pbase defender then E_PERM
      else if pcount challenger > pcount defender then E_PERM
      else if pbase challenger - pbase defender > pcount defender - pcount challenger then E_PERM
      else 0)"

definition cap_permission_check :: "int \<Rightarrow> int" where
  "cap_permission_check defender = (if defender \<noteq> 0 then 0 else E_PERM)"

definition cap_mem_cmp :: "cap_mem \<Rightarrow> cap_mem \<Rightarrow> bool" where
  "cap_mem_cmp a b \<longleftrightarrow> mbase a = mbase b \<and> msize a = msize b \<and> mflags a = mflags b"

definition cap_io_port_cmp :: "cap_io_port \<Rightarrow> cap_io_port \<Rightarrow> bool" where
  "cap_io_port_cmp a b \<longleftrightarrow> pbase a = pbase b \<and> pcount a = pcount b"

definition cap_irq_grant_check :: "u32 \<Rightarrow> int" where
  "cap_irq_grant_check perm = (if perm > 255 then E_INVAL else 0)"

definition cap_mem_grant_check :: "cap_mem \<Rightarrow> int" where
  "cap_mem_grant_check perm =
     (if msize perm = 0 then E_INVAL
      else if mbase perm + msize perm < mbase perm then E_INVAL
      else 0)"

definition cap_io_port_grant_check :: "cap_io_port \<Rightarrow> int" where
  "cap_io_port_grant_check perm =
     (if pcount perm = 0 then E_INVAL
      else if pbase perm + pcount perm < pbase perm then E_INVAL
      else 0)"

definition cap_permission_grant_check :: "int \<Rightarrow> int" where
  "cap_permission_grant_check perm = (if perm = 1 then 0 else E_INVAL)"

text \<open>The three \<^verbatim>\<open>switch (type)\<close> tables: what a held capability answers to a request.\<close>

fun case_cap_check :: "capability \<Rightarrow> capability \<Rightarrow> int" where
  "case_cap_check (Irq d) (Irq c) = cap_irq_check d c"
| "case_cap_check (Mem d) (Mem c) = cap_mem_check d c"
| "case_cap_check (Io_port d) (Io_port c) = cap_io_port_check d c"
| "case_cap_check (Issue_ipc d) (Issue_ipc c) = cap_permission_check d"
| "case_cap_check (Issue_proc_create d) (Issue_proc_create c) = cap_permission_check d"
| "case_cap_check (Issue_thread_create d) (Issue_thread_create c) = cap_permission_check d"
| "case_cap_check _ _ = E_PERM"

fun case_cap_grant_check :: "capability \<Rightarrow> int" where
  "case_cap_grant_check (Irq c) = cap_irq_grant_check c"
| "case_cap_grant_check (Mem c) = cap_mem_grant_check c"
| "case_cap_grant_check (Io_port c) = cap_io_port_grant_check c"
| "case_cap_grant_check (Issue_ipc c) = cap_permission_grant_check c"
| "case_cap_grant_check (Issue_proc_create c) = cap_permission_grant_check c"
| "case_cap_grant_check (Issue_thread_create c) = cap_permission_grant_check c"

fun case_cap_cmp :: "capability \<Rightarrow> capability \<Rightarrow> bool" where
  "case_cap_cmp (Irq a) (Irq b) \<longleftrightarrow> a = b"
| "case_cap_cmp (Mem a) (Mem b) \<longleftrightarrow> cap_mem_cmp a b"
| "case_cap_cmp (Io_port a) (Io_port b) \<longleftrightarrow> cap_io_port_cmp a b"
| "case_cap_cmp (Issue_ipc a) (Issue_ipc b) \<longleftrightarrow> a = b"
| "case_cap_cmp (Issue_proc_create a) (Issue_proc_create b) \<longleftrightarrow> a = b"
| "case_cap_cmp (Issue_thread_create a) (Issue_thread_create b) \<longleftrightarrow> a = b"
| "case_cap_cmp _ _ \<longleftrightarrow> False"

section \<open>Operations\<close>

definition cap_check :: "cap_owner option \<Rightarrow> cap_type \<Rightarrow> capability option \<Rightarrow> int" where
  "cap_check proc type args =
     (case proc of
        None \<Rightarrow> E_INVAL
      | Some p \<Rightarrow>
          if cap_lock p = None then E_INVAL
          else case for_brk (map snd (capabilities p))
                 (\<lambda>cap ret. if cap_kind cap \<noteq> type then Inl ret
                            else if (case args of None \<Rightarrow> False | Some a \<Rightarrow> case_cap_check cap a = 0)
                                 then Inr 0 else Inl E_PERM) E_PERM of
               Inl ret \<Rightarrow> ret | Inr ret \<Rightarrow> ret)"

definition cap_grant :: "cap_owner option \<Rightarrow> cap_type \<Rightarrow> capability option \<Rightarrow> heaps \<Rightarrow>
    int \<times> cap_owner option \<times> heaps" where
  "cap_grant proc type args H =
     (case (proc, args) of
        (Some p, Some a) \<Rightarrow>
          if cap_lock p = None then (E_INVAL, proc, H)
          else if case_cap_grant_check a \<noteq> 0 then (E_INVAL, proc, H)
          else if (\<exists>c\<in>set (map snd (capabilities p)). cap_kind c = type \<and> case_cap_cmp c a)
               then (E_EXISTS, proc, H)
          else case kalloc sizeof_capability H of
                 (None, H) \<Rightarrow> (E_NOMEM, proc, H)
               | (Some cap, H) \<Rightarrow> (0, Some (p\<lparr>capabilities := (cap, a) # capabilities p\<rparr>), H)
      | _ \<Rightarrow> (E_INVAL, proc, H))"

definition cap_revoke :: "cap_owner option \<Rightarrow> cap_type \<Rightarrow> capability option \<Rightarrow> heaps \<Rightarrow>
    int \<times> cap_owner option \<times> heaps" where
  "cap_revoke proc type args H =
     (case (proc, args) of
        (Some p, Some a) \<Rightarrow>
          if cap_lock p = None then (E_INVAL, proc, H)
          else let (cs, H) = fold (\<lambda>(node, cap) (cs, H).
                     if cap_kind cap = type \<and> case_cap_cmp cap a
                     then (filter (\<lambda>(q, _). q \<noteq> node) cs, kfree node H) else (cs, H))
                   (capabilities p) (capabilities p, H)
               in (0, Some (p\<lparr>capabilities := cs\<rparr>), H)
      | _ \<Rightarrow> (E_INVAL, proc, H))"

definition cap_revoke_all :: "cap_owner option \<Rightarrow> heaps \<Rightarrow> cap_owner option \<times> heaps" where
  "cap_revoke_all proc H =
     (case proc of
        None \<Rightarrow> (proc, H)
      | Some p \<Rightarrow>
          if cap_lock p = None then (proc, H)
          else let (cs, H) = fold (\<lambda>(node, cap) (cs, H). (filter (\<lambda>(q, _). q \<noteq> node) cs, kfree node H))
                   (capabilities p) (capabilities p, H)
               in (Some (p\<lparr>capabilities := cs\<rparr>), H))"

definition inherit_body :: "ptr \<times> capability \<Rightarrow> (ptr \<times> capability) list \<times> heaps \<Rightarrow>
    (ptr \<times> capability) list \<times> heaps + (ptr \<times> capability) list \<times> heaps" where
  "inherit_body = (\<lambda>(_, src) (cs, H). case kalloc sizeof_capability H of
       (None, H) \<Rightarrow> Inr (cs, H) | (Some dst, H) \<Rightarrow> Inl ((dst, src) # cs, H))"

definition cap_inherit_all :: "cap_owner option \<Rightarrow> cap_owner option \<Rightarrow> heaps \<Rightarrow> cap_owner option \<times> heaps" where
  "cap_inherit_all child parent H =
     (case (child, parent) of
        (Some c, Some p) \<Rightarrow>
          if cap_lock c = None \<or> cap_lock p = None then (child, H)
          else let (cs, H) = (case for_brk (capabilities p) inherit_body (capabilities c, H) of
                                Inl x \<Rightarrow> x | Inr x \<Rightarrow> x)
               in (Some (c\<lparr>capabilities := cs\<rparr>), H)
      | _ \<Rightarrow> (child, H))"

section \<open>Authority\<close>

text \<open>The capability values a process holds.\<close>

abbreviation held :: "cap_owner \<Rightarrow> capability set" where
  "held p \<equiv> snd ` set (capabilities p)"

text \<open>
  What a held capability authorises, in terms of what is accessed rather than of word
  comparisons: an IRQ line, a set of addresses with a set of flags, a set of ports.
\<close>

definition addrs :: "cap_mem \<Rightarrow> nat set" where
  "addrs m = {unat (mbase m)..<unat (mbase m) + unat (msize m)}"

definition ports :: "cap_io_port \<Rightarrow> nat set" where
  "ports m = {unat (pbase m)..<unat (pbase m) + unat (pcount m)}"

fun covers :: "capability \<Rightarrow> capability \<Rightarrow> bool" where
  "covers (Irq d) (Irq c) \<longleftrightarrow> d = c"
| "covers (Mem d) (Mem c) \<longleftrightarrow> addrs c \<noteq> {} \<and> addrs c \<subseteq> addrs d \<and> (\<forall>i. bit (mflags c) i \<longrightarrow> bit (mflags d) i)"
| "covers (Io_port d) (Io_port c) \<longleftrightarrow> ports c \<noteq> {} \<and> ports c \<subseteq> ports d"
| "covers (Issue_ipc d) (Issue_ipc c) \<longleftrightarrow> d \<noteq> 0"
| "covers (Issue_proc_create d) (Issue_proc_create c) \<longleftrightarrow> d \<noteq> 0"
| "covers (Issue_thread_create d) (Issue_thread_create c) \<longleftrightarrow> d \<noteq> 0"
| "covers _ _ \<longleftrightarrow> False"

lemma range_test:
  fixes cb cn db dn :: u32
  assumes "cn \<noteq> 0"
  shows "\<not> cb < db \<and> \<not> cn > dn \<and> \<not> cb - db > dn - cn \<longleftrightarrow>
    {unat cb..<unat cb + unat cn} \<subseteq> {unat db..<unat db + unat dn}"
proof -
  have n: "0 < unat cn" using assms by (simp add: unat_gt_0)
  have "\<not> cb - db > dn - cn \<longleftrightarrow> unat cb - unat db \<le> unat dn - unat cn" if "\<not> cb < db" "\<not> cn > dn"
    using that by (simp add: not_less word_le_nat_alt unat_sub)
  then show ?thesis using n by (auto simp: not_less word_le_nat_alt word_less_nat_alt)
qed

lemma flags_test: "(d :: u32) AND c = c \<longleftrightarrow> (\<forall>i. bit c i \<longrightarrow> bit d i)"
proof
  show "\<forall>i. bit c i \<longrightarrow> bit d i" if "d AND c = c" using that by (metis bit_and_iff)
  show "d AND c = c" if "\<forall>i. bit c i \<longrightarrow> bit d i" using that by (intro bit_eqI) (auto simp: bit_simps)
qed

lemma cap_mem_check_covers: "cap_mem_check d c = 0 \<longleftrightarrow> covers (Mem d) (Mem c)"
proof (cases "msize c = 0")
  case True
  then show ?thesis by (simp add: cap_mem_check_def addrs_def)
next
  case False
  then have "0 < unat (msize c)" by (simp add: unat_gt_0)
  then show ?thesis
    using range_test [OF False, of "mbase c" "mbase d" "msize d"] False flags_test [of "mflags d" "mflags c"]
    by (auto simp: cap_mem_check_def addrs_def)
qed

lemma cap_io_port_check_covers: "cap_io_port_check d c = 0 \<longleftrightarrow> covers (Io_port d) (Io_port c)"
proof (cases "pcount c = 0")
  case True
  then show ?thesis by (simp add: cap_io_port_check_def ports_def)
next
  case False
  then have "0 < unat (pcount c)" by (simp add: unat_gt_0)
  then show ?thesis
    using range_test [OF False, of "pbase c" "pbase d" "pcount d"] False
    by (auto simp: cap_io_port_check_def ports_def)
qed

lemma case_cap_check_covers: "case_cap_check d c = 0 \<longleftrightarrow> covers d c"
  by (cases "(d, c)" rule: case_cap_check.cases)
    (auto simp: cap_mem_check_covers cap_io_port_check_covers cap_irq_check_def cap_permission_check_def
      simp del: covers.simps(2,3))

lemma covers_kind: "covers d c \<Longrightarrow> cap_kind d = cap_kind c"
  by (cases "(d, c)" rule: covers.cases) auto

lemma case_cap_cmp_eq: "case_cap_cmp a b \<longleftrightarrow> a = b"
  by (cases "(a, b)" rule: case_cap_cmp.cases) (auto simp: cap_mem_cmp_def cap_io_port_cmp_def)

lemma for_brk_values:
  assumes "r \<in> V" and "\<And>c r. r \<in> V \<Longrightarrow> (case f c r of Inl x \<Rightarrow> x | Inr x \<Rightarrow> x) \<in> V"
  shows "(case for_brk cs f r of Inl x \<Rightarrow> x | Inr x \<Rightarrow> x) \<in> V"
  using assms(1)
proof (induction cs arbitrary: r)
  case (Cons c cs)
  then show ?case using assms(2) [OF Cons.prems, of c] by (cases "f c r") simp_all
qed simp

lemma cap_check_iff:
  assumes "cap_lock p \<noteq> None" and "cap_kind a = type"
  shows "cap_check (Some p) type (Some a) = 0 \<longleftrightarrow> (\<exists>c\<in>held p. covers c a)"
proof -
  let ?body = "\<lambda>cap ret. if cap_kind cap \<noteq> type then Inl ret
      else if case_cap_check cap a = 0 then Inr (0 :: int) else Inl E_PERM"
  have "(case for_brk cs ?body r of Inl ret \<Rightarrow> ret | Inr ret \<Rightarrow> ret) = 0 \<longleftrightarrow> (\<exists>c\<in>set cs. covers c a)"
    if "r \<noteq> 0" for cs r
    using that assms(2) covers_kind
    by (induction cs arbitrary: r) (auto simp: case_cap_check_covers)
  from this [of E_PERM "map snd (capabilities p)"] show ?thesis
    using assms(1) by (auto simp: cap_check_def cong: if_cong)
qed

section \<open>The invariant\<close>

text \<open>
  Every held capability passed the grant check, no value is held twice, and the list nodes are
  different live blocks of the kernel heap.
\<close>

definition caps_ok :: "cap_owner \<Rightarrow> heaps \<Rightarrow> bool" where
  "caps_ok p H \<longleftrightarrow> kheap_ok H \<and> distinct (map fst (capabilities p)) \<and> fst ` set (capabilities p) \<subseteq> klive H \<and>
     distinct (map snd (capabilities p)) \<and> (\<forall>c\<in>held p. case_cap_grant_check c = 0)"

lemma valid_covers_self: "case_cap_grant_check a = 0 \<Longrightarrow> covers a a"
  by (cases a) (auto simp: cap_mem_grant_check_def cap_io_port_grant_check_def addrs_def ports_def unat_gt_0
      cap_permission_grant_check_def split: if_splits)

lemma revoke_fold:
  "fold (\<lambda>(node, cap) (cs, H). if P cap then (filter (\<lambda>(q, _). q \<noteq> node) cs, kfree node H) else (cs, H)) xs (cs, H) =
     (filter (\<lambda>(q, _). q \<notin> fst ` {x \<in> set xs. P (snd x)}) cs, fold kfree (map fst (filter (\<lambda>x. P (snd x)) xs)) H)"
proof (induction xs arbitrary: cs H)
  case (Cons x xs)
  then show ?case by (cases x) (auto simp: image_iff intro!: filter_cong)
qed (simp add: case_prod_beta')

lemma filter_nodes:
  assumes "distinct (map fst cs)"
  shows "filter (\<lambda>(q, _). q \<notin> fst ` {x \<in> set cs. P (snd x)}) cs = filter (\<lambda>x. \<not> P (snd x)) cs"
proof (rule filter_cong [OF refl])
  fix x assume "x \<in> set cs"
  then have "fst x \<in> fst ` {x \<in> set cs. P (snd x)} \<longleftrightarrow> P (snd x)"
    using assms by (auto simp: distinct_map dest: inj_onD)
  then show "(case x of (q, _) \<Rightarrow> q \<notin> fst ` {x \<in> set cs. P (snd x)}) \<longleftrightarrow> \<not> P (snd x)"
    by (simp add: case_prod_beta)
qed

lemma cap_revoke_eq:
  assumes "cap_lock p \<noteq> None" and "cap_kind a = type" and "distinct (map fst (capabilities p))"
  shows "cap_revoke (Some p) type (Some a) H =
    (0, Some (p\<lparr>capabilities := filter (\<lambda>x. snd x \<noteq> a) (capabilities p)\<rparr>),
     fold kfree (map fst (filter (\<lambda>x. snd x = a) (capabilities p))) H)"
proof -
  have "(\<lambda>cap. cap_kind cap = type \<and> case_cap_cmp cap a) = (\<lambda>cap. cap = a)"
    using assms(2) by (auto simp: case_cap_cmp_eq)
  then show ?thesis
    using assms(1) revoke_fold [of "\<lambda>cap. cap = a" "capabilities p" "capabilities p" H]
      filter_nodes [OF assms(3), of "\<lambda>cap. cap = a"]
    by (auto simp: cap_revoke_def fun_eq_iff)
qed

lemma cap_revoke_all_eq:
  assumes "cap_lock p \<noteq> None"
  shows "cap_revoke_all (Some p) H =
    (Some (p\<lparr>capabilities := []\<rparr>), fold kfree (map fst (capabilities p)) H)"
proof -
  have "filter (\<lambda>(q, _). q \<notin> fst ` set (capabilities p)) (capabilities p) = []"
    by (auto simp: filter_empty_conv image_iff)
  then show ?thesis
    using assms revoke_fold [of "\<lambda>_. True" "capabilities p" "capabilities p" H]
    by (auto simp: cap_revoke_all_def)
qed

text \<open>The copying loop of \<^verbatim>\<open>cap_inherit_all\<close>: it copies a prefix of the parent's list, all of it
  unless an allocation fails.\<close>

lemma inherit_loop:
  assumes "kheap_ok H" and "distinct (map fst cs)" and "fst ` set cs \<subseteq> klive H"
    and "(case for_brk ps inherit_body (cs, H) of Inl x \<Rightarrow> x | Inr x \<Rightarrow> x) = (ds, H')"
  shows "\<exists>k ns. ds = zip ns (rev (take k (map snd ps))) @ cs \<and> length ns = min k (length ps) \<and> kheap_ok H' \<and>
    distinct (map fst ds) \<and> klive H' = klive H \<union> set ns \<and> fst ` set ds \<subseteq> klive H' \<and>
    (isl (for_brk ps inherit_body (cs, H)) \<longrightarrow> length ps \<le> k)"
  using assms
proof (induction ps arbitrary: cs H)
  case Nil
  then show ?case by (auto intro!: exI [of _ 0])
next
  case (Cons p ps)
  obtain n src where p: "p = (n, src)" by fastforce
  show ?case
  proof (cases "kalloc sizeof_capability H")
    case (Pair r H1)
    show ?thesis
    proof (cases r)
      case None
      then have "klive H1 = klive H" "kheap_ok H1" using Pair Cons.prems(1) kheap.alloc_fail kheap.alloc_inv by blast+
      then show ?thesis using Cons.prems None Pair by (auto simp: p inherit_body_def intro!: exI [of _ 0])
    next
      case (Some d)
      then have a: "kalloc sizeof_capability H = (Some d, H1)" using Pair by simp
      note h = kheap.alloc_inv [OF Cons.prems(1) a] kheap.alloc_fresh [OF Cons.prems(1) a] kheap.alloc_live [OF Cons.prems(1) a]
      have eq: "for_brk (p # ps) inherit_body (cs, H) = for_brk ps inherit_body ((d, src) # cs, H1)"
        by (simp add: p inherit_body_def a)
      have "distinct (map fst ((d, src) # cs))" "fst ` set ((d, src) # cs) \<subseteq> klive H1"
        using Cons.prems(2,3) h by auto
      from Cons.IH [OF h(1) this] Cons.prems(4) obtain k ns where
        k: "ds = zip ns (rev (take k (map snd ps))) @ (d, src) # cs" "length ns = min k (length ps)" "kheap_ok H'"
        "distinct (map fst ds)" "klive H' = klive H1 \<union> set ns" "fst ` set ds \<subseteq> klive H'"
        "isl (for_brk ps inherit_body ((d, src) # cs, H1)) \<longrightarrow> length ps \<le> k"
        unfolding eq by blast
      show ?thesis
      proof (intro exI conjI)
        show "ds = zip (ns @ [d]) (rev (take (Suc k) (map snd (p # ps)))) @ cs"
          using k(1,2) by (simp add: p zip_append)
        show "klive H' = klive H \<union> set (ns @ [d])" using k(5) h(3) by simp
        show "isl (for_brk (p # ps) inherit_body (cs, H)) \<longrightarrow> length (p # ps) \<le> Suc k" using k(7) eq by simp
      qed (use k(2) in \<open>simp_all add: k(3,4,6)\<close>)
    qed
  qed
qed

section \<open>Properties\<close>

text \<open>An example: a process that may use two port ranges and one physical region.\<close>

definition ex_owner :: cap_owner where
  "ex_owner = \<lparr>cap_lock = Some 3, capabilities = [(0x200010, Io_port \<lparr>pbase = 0x60, pcount = 5\<rparr>)]\<rparr>"

lemma ex_caps: "\<exists>H. caps_ok ex_owner H \<and> (\<exists>n H'. kalloc sizeof_capability H = (Some n, H'))"
proof -
  obtain P M where rep: "heap_rep P M ex_chunks2" using ex_heap2 by blast
  define H where "H = \<lparr>krn_pool = P, user_pool = P, hmem = M\<rparr>"
  have ok: "kheap_ok H" using rep by (auto simp: kheap_ok_def heap_ok_def H_def)
  have "addr (Chunk 0x200000 8 True) + HEAP_HDR_SIZE \<in> klive H"
    unfolding klive_def H_def heaps.simps live_blocks_rep [OF rep]
    by (rule imageI) (simp add: ex_chunks2_def)
  then have "0x200010 \<in> klive H" by simp
  with ok have "caps_ok ex_owner H"
    by (simp add: caps_ok_def ex_owner_def cap_io_port_grant_check_def)
  moreover have "\<not> HEAP_TOTAL_SIZE < sizeof_capability" by (simp add: HEAP_TOTAL_SIZE_def sizeof_capability_def)
  moreover have "fit_split (req_size sizeof_capability) (aligned_size sizeof_capability) ex_chunks2 \<noteq> None"
    by (simp add: ex_chunks2_def fits_def req_size_def aligned_size_def sizeof_capability_def HEAP_ALIGN_def HEAP_TOTAL_SIZE_def)
  ultimately show ?thesis
    by (cases rule: heap_malloc_cases [OF rep, of sizeof_capability])
      (auto simp: kalloc_def kmalloc_def H_def)
qed

text \<open>
  Property C14: what cap_check grants.  For a live process and arguments of the right type it
  returns 0 exactly when one held capability covers the request: the same IRQ line, a
  non-empty address range (or port range) inside the held one, with the requested flags among
  the held ones, or the permission itself; otherwise it returns E_PERM.  In particular the
  subtraction-based range test never wraps.
\<close>

theorem cap_check_authority:
  assumes "cap_lock p \<noteq> None" and "cap_kind a = type"
  shows "cap_check (Some p) type (Some a) = (if \<exists>c\<in>held p. covers c a then 0 else E_PERM)"
proof -
  obtain l where l: "cap_lock p = Some l" using assms(1) by blast
  have "cap_check (Some p) type (Some a) \<in> {0, E_PERM}"
    unfolding cap_check_def option.case l if_not_P [OF option.distinct(2)]
    by (rule for_brk_values) auto
  then show ?thesis using cap_check_iff [OF assms] by auto
qed

theorem cap_check_authority_witness:
  "cap_check (Some ex_owner) CAP_ACCESS_IO (Some (Io_port \<lparr>pbase = 0x64, pcount = 1\<rparr>)) = 0 \<and>
   cap_check (Some ex_owner) CAP_ACCESS_IO (Some (Io_port \<lparr>pbase = 0x64, pcount = 2\<rparr>)) = E_PERM"
proof -
  have "cap_lock ex_owner \<noteq> None" by (simp add: ex_owner_def)
  from cap_check_authority [OF this, of "Io_port \<lparr>pbase = 0x64, pcount = 1\<rparr>" CAP_ACCESS_IO]
    cap_check_authority [OF this, of "Io_port \<lparr>pbase = 0x64, pcount = 2\<rparr>" CAP_ACCESS_IO]
  show ?thesis by (simp add: ex_owner_def ports_def)
qed

text \<open>
  Property C30: granting.  cap_grant succeeds exactly on a valid request that is not held yet
  when a block can be allocated; it then adds that one capability, so that the process may do
  what it could before and what the new capability covers, and nothing else; on every error
  the process is unchanged.  The invariant is kept in both cases.
\<close>

theorem cap_grant_effect:
  assumes "caps_ok p H" and "cap_lock p \<noteq> None" and "cap_kind a = type"
    and "cap_grant (Some p) type (Some a) H = (r, q, H')"
  shows "if case_cap_grant_check a \<noteq> 0 then r = E_INVAL \<and> q = Some p \<and> H' = H
    else if a \<in> held p then r = E_EXISTS \<and> q = Some p \<and> H' = H
    else if fst (kalloc sizeof_capability H) = None then r = E_NOMEM \<and> q = Some p \<and> caps_ok p H'
    else r = 0 \<and> (\<exists>p'. q = Some p' \<and> held p' = insert a (held p) \<and> caps_ok p' H' \<and>
      cap_check q type (Some a) = 0)"
proof -
  have dup: "(\<exists>x\<in>set (capabilities p). cap_kind (snd x) = type \<and> case_cap_cmp (snd x) a) \<longleftrightarrow> a \<in> held p"
    using assms(3) by (auto simp: case_cap_cmp_eq image_iff)
  have ok: "kheap_ok H" using assms(1) by (simp add: caps_ok_def)
  obtain x H1 where al: "kalloc sizeof_capability H = (x, H1)" by fastforce
  obtain l where l: "cap_lock p = Some l" using assms(2) by blast
  have g: "(if case_cap_grant_check a \<noteq> 0 then (E_INVAL, Some p, H)
      else if a \<in> held p then (E_EXISTS, Some p, H)
      else case x of None \<Rightarrow> (E_NOMEM, Some p, H1)
        | Some n \<Rightarrow> (0, Some (p\<lparr>capabilities := (n, a) # capabilities p\<rparr>), H1)) = (r, q, H')"
    using assms(4) by (simp add: cap_grant_def dup al l cong: if_cong option.case_cong)
  show ?thesis
  proof (cases x)
    case None
    then have "kheap_ok H1" "klive H1 = klive H"
      using al kheap.alloc_inv [OF ok] kheap.alloc_fail [OF ok] by blast+
    then show ?thesis using g None al assms(1) by (auto simp: caps_ok_def split: if_splits)
  next
    case (Some n)
    with al have al': "kalloc sizeof_capability H = (Some n, H1)" by simp
    note h = kheap.alloc_inv [OF ok al'] kheap.alloc_fresh [OF ok al'] kheap.alloc_live [OF ok al']
    let ?p = "p\<lparr>capabilities := (n, a) # capabilities p\<rparr>"
    have "caps_ok ?p H1" if "case_cap_grant_check a = 0" "a \<notin> held p"
      using that h assms(1) by (auto simp: caps_ok_def)
    moreover have "cap_check (Some ?p) type (Some a) = 0" if "case_cap_grant_check a = 0"
      using cap_check_iff [of ?p a type] assms(2,3) valid_covers_self [OF that] by auto
    ultimately show ?thesis using g al' Some by (auto split: if_splits)
  qed
qed

theorem cap_grant_effect_witness:
  "\<exists>H H' p'. cap_grant (Some ex_owner) CAP_OWN_IRQ (Some (Irq 0x21)) H = (0, Some p', H') \<and>
     held p' = insert (Irq 0x21) (held ex_owner) \<and> cap_check (Some p') CAP_OWN_IRQ (Some (Irq 0x21)) = 0"
proof -
  obtain H n H1 where ok: "caps_ok ex_owner H" and al: "kalloc sizeof_capability H = (Some n, H1)"
    using ex_caps by blast
  obtain r q H' where g: "cap_grant (Some ex_owner) CAP_OWN_IRQ (Some (Irq 0x21)) H = (r, q, H')"
    by (metis surj_pair)
  have "cap_lock ex_owner \<noteq> None" "cap_kind (Irq 0x21) = CAP_OWN_IRQ"
    "case_cap_grant_check (Irq 0x21) = 0" "Irq 0x21 \<notin> held ex_owner"
    by (simp_all add: ex_owner_def cap_irq_grant_check_def)
  with cap_grant_effect [OF ok _ _ g] al have "r = 0 \<and> (\<exists>p'. q = Some p' \<and>
      held p' = insert (Irq 0x21) (held ex_owner) \<and> cap_check q CAP_OWN_IRQ (Some (Irq 0x21)) = 0)" by auto
  then show ?thesis using g by blast
qed

lemma caps_ok_kfree:
  assumes "caps_ok p H" and "ns = map fst (filter P (capabilities p))"
  shows "kheap_ok (fold kfree ns H) \<and> klive (fold kfree ns H) = klive H - set ns"
  using assms kheap.release_all [of H ns]
  by (auto simp: caps_ok_def distinct_map_filter image_subset_iff)

text \<open>
  Property C31: revoking.  cap_revoke takes away exactly the named capability and frees exactly
  its block; afterwards cap_check of it succeeds only if another held capability covers it.
  cap_revoke_all leaves nothing and frees every block.
\<close>

theorem cap_revoke_effect:
  assumes "caps_ok p H" and "cap_lock p \<noteq> None" and "cap_kind a = type"
  shows "\<exists>p' H'. cap_revoke (Some p) type (Some a) H = (0, Some p', H') \<and> held p' = held p - {a} \<and>
    caps_ok p' H' \<and> klive H' = klive H - {n. (n, a) \<in> set (capabilities p)} \<and>
    (\<exists>p'' H''. cap_revoke_all (Some p) H = (Some p'', H'') \<and> held p'' = {} \<and> kheap_ok H'' \<and>
       klive H'' = klive H - fst ` set (capabilities p))"
proof -
  let ?ns = "map fst (filter (\<lambda>x. snd x = a) (capabilities p))"
  let ?p = "p\<lparr>capabilities := filter (\<lambda>x. snd x \<noteq> a) (capabilities p)\<rparr>"
  have d: "distinct (map fst (capabilities p))" using assms(1) by (simp add: caps_ok_def)
  note r = cap_revoke_eq [OF assms(2,3) d] and k = caps_ok_kfree [OF assms(1) refl]
  have ns: "set ?ns = {n. (n, a) \<in> set (capabilities p)}" by force
  have sub: "fst ` set (filter (\<lambda>x. snd x \<noteq> a) (capabilities p)) \<subseteq> klive H - set ?ns"
  proof
    fix n assume "n \<in> fst ` set (filter (\<lambda>x. snd x \<noteq> a) (capabilities p))"
    then obtain c where c: "(n, c) \<in> set (capabilities p)" "c \<noteq> a" by auto
    then have "(n, a) \<notin> set (capabilities p)" using d eq_key_imp_eq_value by metis
    with c assms(1) ns show "n \<in> klive H - set ?ns" by (auto simp: caps_ok_def)
  qed
  have "caps_ok ?p (fold kfree ?ns H)"
    using assms(1) k [of "\<lambda>x. snd x = a"] sub by (auto simp: caps_ok_def distinct_map_filter)
  moreover have "held ?p = held p - {a}" by auto
  moreover have "kheap_ok (fold kfree (map fst (capabilities p)) H)"
    "klive (fold kfree (map fst (capabilities p)) H) = klive H - fst ` set (capabilities p)"
    using k [of "\<lambda>_. True"] by simp_all
  moreover have "klive (fold kfree ?ns H) = klive H - {n. (n, a) \<in> set (capabilities p)}"
    using k [of "\<lambda>x. snd x = a"] ns by simp
  moreover have "held (p\<lparr>capabilities := []\<rparr>) = {}" by simp
  ultimately show ?thesis using r [of H] cap_revoke_all_eq [OF assms(2), of H] by blast
qed

theorem cap_revoke_effect_witness:
  "\<exists>H p' H'. cap_revoke (Some ex_owner) CAP_ACCESS_IO (Some (Io_port \<lparr>pbase = 0x60, pcount = 5\<rparr>)) H = (0, Some p', H') \<and>
     held p' = {} \<and> klive H' = klive H - {0x200010}"
proof -
  obtain H where ok: "caps_ok ex_owner H" using ex_caps by blast
  have "{n. (n, Io_port \<lparr>pbase = 0x60, pcount = 5\<rparr>) \<in> set (capabilities ex_owner)} = {0x200010}"
    "held ex_owner - {Io_port \<lparr>pbase = 0x60, pcount = 5\<rparr>} = {}" "cap_lock ex_owner \<noteq> None"
    by (auto simp: ex_owner_def)
  with cap_revoke_effect [OF ok, of "Io_port \<lparr>pbase = 0x60, pcount = 5\<rparr>" CAP_ACCESS_IO] show ?thesis
    by (metis cap_kind.simps(3))
qed

text \<open>
  Property C32: inheriting never amplifies.  The child ends up with its own capabilities and
  copies of a subset of the parent's, all of the parent's unless an allocation failed, and
  each copy has a block of its own; the parent is not changed.
\<close>

theorem cap_inherit_no_amplification:
  assumes "caps_ok c H" and "cap_lock c \<noteq> None" and "cap_lock p \<noteq> None"
    and "cap_inherit_all (Some c) (Some p) H = (q, H')"
  shows "\<exists>c'. q = Some c' \<and> held c \<subseteq> held c' \<and> held c' \<subseteq> held c \<union> held p \<and> kheap_ok H' \<and>
    distinct (map fst (capabilities c')) \<and> fst ` set (capabilities c') \<subseteq> klive H' \<and>
    (isl (for_brk (capabilities p) inherit_body (capabilities c, H)) \<longrightarrow> held c' = held c \<union> held p)"
proof -
  obtain l l' where l: "cap_lock c = Some l" "cap_lock p = Some l'" using assms(2,3) by blast
  obtain ds H1 where d: "(case for_brk (capabilities p) inherit_body (capabilities c, H) of
      Inl x \<Rightarrow> x | Inr x \<Rightarrow> x) = (ds, H1)" by fastforce
  then have q: "q = Some (c\<lparr>capabilities := ds\<rparr>)" "H' = H1"
    using assms(4) by (auto simp: cap_inherit_all_def l)
  have ok: "kheap_ok H" "distinct (map fst (capabilities c))" "fst ` set (capabilities c) \<subseteq> klive H"
    using assms(1) by (simp_all add: caps_ok_def)
  obtain k ns where k: "ds = zip ns (rev (take k (map snd (capabilities p)))) @ capabilities c"
    "length ns = min k (length (capabilities p))" "kheap_ok H1" "distinct (map fst ds)"
    "fst ` set ds \<subseteq> klive H1"
    "isl (for_brk (capabilities p) inherit_body (capabilities c, H)) \<longrightarrow> length (capabilities p) \<le> k"
    using inherit_loop [OF ok d] by (elim exE conjE) metis
  have "map snd (zip ns (rev (take k (map snd (capabilities p))))) = rev (take k (map snd (capabilities p)))"
    using k(2) by (simp add: map_snd_zip_take)
  then have "snd ` set (zip ns (rev (take k (map snd (capabilities p))))) = set (take k (map snd (capabilities p)))"
    by (metis list.set_map set_rev)
  then have h: "held (c\<lparr>capabilities := ds\<rparr>) = set (take k (map snd (capabilities p))) \<union> held c"
    by (simp add: k(1) image_Un)
  moreover have "set (take k (map snd (capabilities p))) \<subseteq> held p"
    using set_take_subset [of k "map snd (capabilities p)"] by simp
  moreover have "set (take k (map snd (capabilities p))) = held p" if "length (capabilities p) \<le> k"
    using that by simp
  ultimately show ?thesis
    using k(3-6) q by (intro exI [of _ "c\<lparr>capabilities := ds\<rparr>"]) (auto simp del: image_Un)
qed

theorem cap_inherit_no_amplification_witness:
  "\<exists>H H' c'. cap_inherit_all (Some \<lparr>cap_lock = Some 4, capabilities = []\<rparr>) (Some ex_owner) H = (Some c', H') \<and>
     held c' \<subseteq> held ex_owner"
proof -
  obtain H where "caps_ok ex_owner H" using ex_caps by blast
  then have ok: "caps_ok \<lparr>cap_lock = Some 4, capabilities = []\<rparr> H" by (simp add: caps_ok_def)
  obtain q H' where i: "cap_inherit_all (Some \<lparr>cap_lock = Some 4, capabilities = []\<rparr>) (Some ex_owner) H = (q, H')"
    by fastforce
  from cap_inherit_no_amplification [OF ok _ _ i] have "\<exists>c'. q = Some c' \<and> held c' \<subseteq> held ex_owner"
    by (auto simp: ex_owner_def)
  then show ?thesis using i by blast
qed

end
