(* ===== verification/Vmm.thy ===== *)
theory Vmm
  imports Paging Capability
begin

text \<open>
  Per-process address spaces: \<^verbatim>\<open>kernel/mm/vmm.c\<close>.  The red-black tree of regions is represented by its
  in-order sequence, which is all the code reads of it (\<^verbatim>\<open>rbtree_for_each\<close>, \<^verbatim>\<open>rbtree_next\<close> and the emptiness
  test); the two blocks \<^verbatim>\<open>rbtree_create\<close> allocates and the block of each region are kept, so that
  running out of memory and giving it back are part of the model.  The locks are held only inside
  one call, so acquiring a lock matters only where the code tests for a missing one.
\<close>

section \<open>State\<close>

record vmm_region =
  rg_node :: ptr
  start_va :: u32
  rg_size :: u32
  rg_flags :: u32
  rg_pa :: u32
  own_phys :: bool

record rbtree =
  tree_ptr :: ptr
  tree_nil :: ptr
  regions :: "vmm_region list"

record vmm_control_block =
  tree :: "rbtree option"
  cr3 :: u32
  vcb_lock :: "nat option"

text \<open>The memory subsystems an address space draws on.\<close>

record memsys =
  heaps_of :: heaps
  pmm_of :: pmm
  paging_of :: paging
  locks_of :: lock_pool

text \<open>The part of a process control block this file works on.\<close>

record vproc =
  caps :: cap_owner
  vcb :: vmm_control_block

definition upd_heap :: "(heaps \<Rightarrow> heaps) \<Rightarrow> memsys \<Rightarrow> memsys" where
  "upd_heap f m = m\<lparr>heaps_of := f (heaps_of m)\<rparr>"

definition upd_pmm :: "(pmm \<Rightarrow> pmm) \<Rightarrow> memsys \<Rightarrow> memsys" where
  "upd_pmm f m = m\<lparr>pmm_of := f (pmm_of m)\<rparr>"

definition upd_paging :: "(paging \<Rightarrow> paging) \<Rightarrow> memsys \<Rightarrow> memsys" where
  "upd_paging f m = m\<lparr>paging_of := f (paging_of m)\<rparr>"

definition upd_locks :: "(lock_pool \<Rightarrow> lock_pool) \<Rightarrow> memsys \<Rightarrow> memsys" where
  "upd_locks f m = m\<lparr>locks_of := f (locks_of m)\<rparr>"

definition kmalloc_in :: "u32 \<Rightarrow> memsys \<Rightarrow> ptr option \<times> memsys" where
  "kmalloc_in n m = (let (p, h) = kalloc n (heaps_of m) in (p, m\<lparr>heaps_of := h\<rparr>))"

definition kfree_in :: "ptr \<Rightarrow> memsys \<Rightarrow> memsys" where
  "kfree_in p = upd_heap (kfree p)"

section \<open>The tree of regions\<close>

definition sizeof_rbtree :: u32 where "sizeof_rbtree = 8"
definition sizeof_rbnode :: u32 where "sizeof_rbnode = 16"
definition sizeof_vmm_region :: u32 where "sizeof_vmm_region = 36"

definition rbtree_create :: "memsys \<Rightarrow> rbtree option \<times> memsys" where
  "rbtree_create m =
     (case kmalloc_in sizeof_rbtree m of
        (None, m) \<Rightarrow> (None, m)
      | (Some t, m) \<Rightarrow>
          case kmalloc_in sizeof_rbnode m of
            (None, m) \<Rightarrow> (None, kfree_in t m)
          | (Some n, m) \<Rightarrow> (Some \<lparr>tree_ptr = t, tree_nil = n, regions = []\<rparr>, m))"

definition rbtree_destroy :: "rbtree option \<Rightarrow> memsys \<Rightarrow> memsys" where
  "rbtree_destroy t m = (case t of None \<Rightarrow> m | Some t \<Rightarrow> kfree_in (tree_ptr t) (kfree_in (tree_nil t) m))"

text \<open>In-order insertion: to the left of the larger keys, to the right of the rest (\<^verbatim>\<open>cmp\<close> orders by \<^verbatim>\<open>start_va\<close>).\<close>

fun region_insert :: "vmm_region \<Rightarrow> vmm_region list \<Rightarrow> vmm_region list" where
  "region_insert r [] = [r]"
| "region_insert r (x # xs) = (if start_va r < start_va x then r # x # xs else x # region_insert r xs)"

definition region_delete :: "ptr \<Rightarrow> vmm_region list \<Rightarrow> vmm_region list" where
  "region_delete p rs = filter (\<lambda>r. rg_node r \<noteq> p) rs"

definition tree_insert :: "vmm_region \<Rightarrow> vmm_control_block \<Rightarrow> vmm_control_block" where
  "tree_insert r v = v\<lparr>tree := map_option (\<lambda>t. t\<lparr>regions := region_insert r (regions t)\<rparr>) (tree v)\<rparr>"

definition tree_delete :: "ptr \<Rightarrow> vmm_control_block \<Rightarrow> vmm_control_block" where
  "tree_delete p v = v\<lparr>tree := map_option (\<lambda>t. t\<lparr>regions := region_delete p (regions t)\<rparr>) (tree v)\<rparr>"

definition vmm_rbtree_key_cmp :: "u32 \<Rightarrow> vmm_region \<Rightarrow> int" where
  "vmm_rbtree_key_cmp key r =
     (if key = 0 then -1
      else if start_va r \<le> key \<and> key < start_va r + rg_size r then 0
      else if key < start_va r then -1 else 1)"

section \<open>Creating and destroying\<close>

definition vmm_switch :: "vmm_control_block \<Rightarrow> memsys \<Rightarrow> memsys" where
  "vmm_switch v m = (if cr3 v = 0 then m else upd_paging (arch_load_cr3 (cr3 v)) m)"

definition vmm_create :: "vmm_control_block \<Rightarrow> bool \<Rightarrow> memsys \<Rightarrow> int \<times> vmm_control_block \<times> memsys" where
  "vmm_create v user_accessible m =
     (let (l, ls) = spinlock_alloc (locks_of m); m = m\<lparr>locks_of := ls\<rparr>; v = v\<lparr>vcb_lock := l\<rparr> in
      if l = None then (E_NOMEM, v, m)
      else let (t, m) = rbtree_create m; v = v\<lparr>tree := t\<rparr> in
      if t = None then (E_NOMEM, v, upd_locks (spinlock_release l) m)
      else let (pa, pg) = arch_paging_pool_alloc (paging_of m); m = m\<lparr>paging_of := pg\<rparr> in
      if pa = 0 then (E_NOMEM, v, upd_locks (spinlock_release l) (rbtree_destroy t m))
      else let (c, pg) = arch_clone_kernel_pde pa user_accessible (paging_of m);
               m = m\<lparr>paging_of := pg\<rparr>; v = v\<lparr>cr3 := c\<rparr> in
      if c = 0 then (E_NOMEM, v, upd_locks (spinlock_release l)
                       (rbtree_destroy t (upd_paging (arch_paging_pool_free pa) m)))
      else (0, v, m))"

text \<open>The pages of a range, in a \<^verbatim>\<open>for\<close> loop over the page number.\<close>

definition unmap_pages :: "u32 \<Rightarrow> u32 \<Rightarrow> u32 \<Rightarrow> paging \<Rightarrow> paging" where
  "unmap_pages c va n pg = fold (\<lambda>i. arch_unmap_4kb c (va + of_nat i * 4096)) [0..<unat n] pg"

definition destroy_region :: "u32 \<Rightarrow> vmm_region \<Rightarrow> memsys \<Rightarrow> memsys" where
  "destroy_region c r m =
     (let m = upd_paging (unmap_pages c (start_va r) (rg_size r div 4096)) m;
          m = (if own_phys r then upd_pmm (pmm_free_pages (rg_pa r) (rg_size r div 4096)) m else m)
      in kfree_in (rg_node r) m)"

definition vmm_destroy :: "vmm_control_block \<Rightarrow> memsys \<Rightarrow> vmm_control_block \<times> memsys" where
  "vmm_destroy v m =
     (if cr3 v = 0 then (v, m)
      else let m = (case tree v of
                      None \<Rightarrow> m
                    | Some t \<Rightarrow> rbtree_destroy (Some t) (fold (destroy_region (cr3 v)) (regions t) m));
               m = upd_paging (arch_destroy_address_space (cr3 v)) m;
               m = upd_paging (arch_paging_pool_free (cr3 v)) m;
               m = upd_locks (spinlock_release (vcb_lock v)) m
           in (v\<lparr>tree := None, cr3 := 0\<rparr>, m))"

section \<open>Anonymous pages\<close>

text \<open>
  The search for a virtual address: after each region in turn, up to the next region.  \<open>None\<close> is the
  overflow exit.
\<close>

definition end_va :: "vmm_region \<Rightarrow> u32" where
  "end_va cur = (start_va cur + rg_size cur + 4096 - 1) AND NOT (4096 - 1)"

fun find_va_pages :: "u32 \<Rightarrow> vmm_region list \<Rightarrow> u32 option" where
  "find_va_pages page_cnt [] = Some USER_ANON_BASE"
| "find_va_pages page_cnt [cur] =
     (if 0xFFFFFFFF - rg_size cur < start_va cur then None
      else let va = end_va cur in
        if va = 0 \<or> (0xFFFFFFFF - va) div 4096 < page_cnt then None else Some va)"
| "find_va_pages page_cnt (cur # nxt # rest) =
     (let va = end_va cur in
      if (0xFFFFFFFF - va) div 4096 < page_cnt then None
      else if va + page_cnt * 4096 \<le> start_va nxt then Some va
      else find_va_pages page_cnt (nxt # rest))"

text \<open>The mapping loop: \<open>Inr j\<close> when page \<open>j\<close> could not be mapped.\<close>

definition map_pages :: "u32 \<Rightarrow> u32 \<Rightarrow> u32 \<Rightarrow> u32 \<Rightarrow> nat \<Rightarrow> paging \<Rightarrow> paging + (nat \<times> paging)" where
  "map_pages c va pa flags n pg =
     for_brk [0..<n] (\<lambda>i pg. let (r, pg) = arch_map_4kb c (va + of_nat i * 4096) (pa + of_nat i * 4096) flags pg
                             in if r \<noteq> 0 then Inr (i, pg) else Inl pg) pg"

definition vmm_alloc_pages :: "vmm_control_block option \<Rightarrow> u32 \<Rightarrow> u32 \<Rightarrow> memsys \<Rightarrow>
    u32 \<times> vmm_control_block option \<times> memsys" where
  "vmm_alloc_pages vo page_cnt flags m =
     (case vo of
        None \<Rightarrow> (0, vo, m)
      | Some v \<Rightarrow> case tree v of
          None \<Rightarrow> (0, vo, m)
        | Some t \<Rightarrow>
            if page_cnt = 0 then (0, vo, m)
            else let (pa, pm) = pmm_alloc_pages page_cnt (pmm_of m); m = m\<lparr>pmm_of := pm\<rparr> in
            if pa = 0 then (0, vo, m)
            else case kmalloc_in sizeof_vmm_region m of
              (None, m) \<Rightarrow> (0, vo, upd_pmm (pmm_free_pages pa page_cnt) m)
            | (Some node, m) \<Rightarrow>
                if vcb_lock v = None then (0, vo, kfree_in node (upd_pmm (pmm_free_pages pa page_cnt) m))
                else case find_va_pages page_cnt (regions t) of
                  None \<Rightarrow> (0, vo, kfree_in node (upd_pmm (pmm_free_pages pa page_cnt) m))
                | Some va \<Rightarrow>
                    let region = \<lparr>rg_node = node, start_va = va, rg_size = 4096 * page_cnt, rg_flags = flags,
                                  rg_pa = pa, own_phys = True\<rparr>;
                        v = tree_insert region v in
                    case map_pages (cr3 v) va pa flags (unat (rg_size region div 4096)) (paging_of m) of
                      Inl pg \<Rightarrow> (va, Some v, m\<lparr>paging_of := pg\<rparr>)
                    | Inr (i, pg) \<Rightarrow>
                        let m = m\<lparr>paging_of := fold (\<lambda>j. arch_unmap_4kb (cr3 v) (va + of_nat j * 4096)) [0..<i] pg\<rparr>
                        in (0, Some (tree_delete node v), kfree_in node (upd_pmm (pmm_free_pages pa page_cnt) m)))"

definition vmm_free_pages :: "vmm_control_block option \<Rightarrow> u32 \<Rightarrow> memsys \<Rightarrow> vmm_control_block option \<times> memsys" where
  "vmm_free_pages vo va m =
     (case vo of
        None \<Rightarrow> (vo, m)
      | Some v \<Rightarrow> case tree v of
          None \<Rightarrow> (vo, m)
        | Some t \<Rightarrow>
            if vcb_lock v = None then (vo, m)
            else case find (\<lambda>r. start_va r \<le> va \<and> va < start_va r + rg_size r \<and> own_phys r) (regions t) of
              None \<Rightarrow> (vo, m)
            | Some r \<Rightarrow>
                let m = upd_paging (unmap_pages (cr3 v) (start_va r) (rg_size r div 4096)) m;
                    m = upd_pmm (pmm_free_pages (rg_pa r) (rg_size r div 4096)) m
                in (Some (tree_delete (rg_node r) v), kfree_in (rg_node r) m))"

section \<open>Mappings of given physical memory\<close>

fun find_va_bytes :: "u32 \<Rightarrow> u32 \<Rightarrow> vmm_region list \<Rightarrow> u32 option" where
  "find_va_bytes pa sz [] = Some pa"
| "find_va_bytes pa sz [cur] =
     (if 0xFFFFFFFF - rg_size cur < start_va cur then None
      else let va = end_va cur in
        if va = 0 \<or> 0xFFFFFFFF - va < sz then None else Some va)"
| "find_va_bytes pa sz (cur # nxt # rest) =
     (let va = end_va cur in
      if 0xFFFFFFFF - va < sz then None
      else if va + sz \<le> start_va nxt then Some va
      else find_va_bytes pa sz (nxt # rest))"

text \<open>The region is a fresh zeroed block and \<^verbatim>\<open>own_phys\<close> is not written, so it is 0.  \<open>None\<close> is \<^verbatim>\<open>*found == 0\<close>.\<close>

definition vmm_mmap_reserve :: "vmm_control_block \<Rightarrow> u32 \<Rightarrow> u32 \<Rightarrow> u32 \<Rightarrow> memsys \<Rightarrow>
    u32 option \<times> vmm_control_block \<times> memsys" where
  "vmm_mmap_reserve v pa sz flags m =
     (case tree v of
        None \<Rightarrow> (None, v, m)
      | Some t \<Rightarrow>
          if vcb_lock v = None then (None, v, m)
          else case find_va_bytes pa sz (regions t) of
            None \<Rightarrow> (None, v, m)
          | Some va \<Rightarrow>
              case kmalloc_in sizeof_vmm_region m of
                (None, m) \<Rightarrow> (None, v, m)
              | (Some node, m) \<Rightarrow>
                  (Some va, tree_insert \<lparr>rg_node = node, start_va = va, rg_size = sz, rg_flags = flags, rg_pa = pa,
                                         own_phys = False\<rparr> v, m))"

definition vmm_mmap_release :: "vmm_control_block \<Rightarrow> u32 \<Rightarrow> u32 \<Rightarrow> memsys \<Rightarrow>
    (int + (u32 \<times> u32)) \<times> vmm_control_block \<times> memsys" where
  "vmm_mmap_release v va sz m =
     (case tree v of
        None \<Rightarrow> (Inl E_INVAL, v, m)
      | Some t \<Rightarrow>
          if vcb_lock v = None then (Inl E_INVAL, v, m)
          else case find (\<lambda>r. \<not> own_phys r \<and> start_va r \<le> va \<and> va < start_va r + rg_size r) (regions t) of
            None \<Rightarrow> (Inl E_INVAL, v, m)
          | Some r \<Rightarrow>
              if rg_size r < sz \<or> va + sz < va \<or> start_va r + rg_size r < va + sz then (Inl E_INVAL, v, m)
              else (Inr (start_va r, rg_size r), tree_delete (rg_node r) v, kfree_in (rg_node r) m))"

text \<open>The first region that contains \<open>va\<close>: its physical range and its start.\<close>

definition vmm_lookup_region :: "vproc option \<Rightarrow> u32 \<Rightarrow> int + (u32 \<times> u32 \<times> u32)" where
  "vmm_lookup_region po va =
     (case po of
        None \<Rightarrow> Inl E_INVAL
      | Some p \<Rightarrow>
          if vcb_lock (vcb p) = None then Inl E_INVAL
          else case find (\<lambda>r. start_va r \<le> va \<and> va < start_va r + rg_size r)
                      (case tree (vcb p) of None \<Rightarrow> [] | Some t \<Rightarrow> regions t) of
            None \<Rightarrow> Inl E_INVAL
          | Some r \<Rightarrow> Inr (rg_pa r, rg_size r, start_va r))"

definition set_vcb :: "vproc \<Rightarrow> vmm_control_block \<Rightarrow> vproc" where
  "set_vcb p v = p\<lparr>vcb := v\<rparr>"

text \<open>\<open>Inl\<close> is an error pointer, \<open>Inr\<close> the mapped address.\<close>

definition vmm_map_memory :: "vproc option \<Rightarrow> u32 \<Rightarrow> u32 \<Rightarrow> u32 \<Rightarrow> memsys \<Rightarrow> (int + u32) \<times> vproc option \<times> memsys" where
  "vmm_map_memory po phys_addr sz flags m =
     (let mem = \<lparr>mbase = phys_addr, msize = sz, mflags = flags\<rparr>;
          aligned_pa = phys_addr AND NOT (4096 - 1);
          offset = phys_addr - aligned_pa in
      case po of
        None \<Rightarrow> (Inl E_INVAL, po, m)
      | Some p \<Rightarrow>
          if cap_check (Some (caps p)) CAP_MAP_MEM (Some (Mem mem)) \<noteq> 0 then (Inl E_PERM, po, m)
          else if sz = 0 \<or> 0xFFFFFFFF - offset - (4096 - 1) < sz then (Inl E_INVAL, po, m)
          else let aligned_sz = (sz + offset + (4096 - 1)) AND NOT (4096 - 1) in
            case vmm_mmap_reserve (vcb p) aligned_pa aligned_sz flags m of
              (None, v, m) \<Rightarrow> (Inl E_NOMEM, Some (set_vcb p v), m)
            | (Some va, v, m) \<Rightarrow>
                case map_pages (cr3 v) va aligned_pa flags (unat (aligned_sz div 4096)) (paging_of m) of
                  Inl pg \<Rightarrow> (Inr (va + offset), Some (set_vcb p v), m\<lparr>paging_of := pg\<rparr>)
                | Inr (i, pg) \<Rightarrow>
                    let m = m\<lparr>paging_of := fold (\<lambda>j. arch_unmap_4kb (cr3 v) (va + of_nat j * 4096)) [0..<i] pg\<rparr>;
                        (_, v, m) = vmm_mmap_release v va 0 m
                    in (Inl E_NOMEM, Some (set_vcb p v), m))"

definition region_overlap :: "u32 \<Rightarrow> u32 \<Rightarrow> vmm_region \<Rightarrow> bool" where
  "region_overlap vs sz r \<longleftrightarrow> vs < start_va r + rg_size r \<and> start_va r < vs + sz"

definition vmm_map_fixed :: "vproc option \<Rightarrow> u32 \<Rightarrow> u32 \<Rightarrow> u32 \<Rightarrow> u32 \<Rightarrow> bool \<Rightarrow> memsys \<Rightarrow> int \<times> vproc option \<times> memsys" where
  "vmm_map_fixed po phys_addr vaddr sz flags own m =
     (let mem = \<lparr>mbase = phys_addr, msize = sz, mflags = flags\<rparr>; npages = sz div 4096 in
      case po of
        None \<Rightarrow> (E_INVAL, po, m)
      | Some p \<Rightarrow>
          if phys_addr AND (4096 - 1) \<noteq> 0 \<or> vaddr AND (4096 - 1) \<noteq> 0 then (E_INVAL, po, m)
          else if sz = 0 \<or> sz AND (4096 - 1) \<noteq> 0 then (E_INVAL, po, m)
          else if cap_check (Some (caps p)) CAP_MAP_MEM (Some (Mem mem)) \<noteq> 0 then (E_PERM, po, m)
          else case kmalloc_in sizeof_vmm_region m of
            (None, m) \<Rightarrow> (E_NOMEM, po, m)
          | (Some node, m) \<Rightarrow>
              if vcb_lock (vcb p) = None then (E_INVAL, po, kfree_in node m)
              else if (\<exists>r\<in>set (case tree (vcb p) of None \<Rightarrow> [] | Some t \<Rightarrow> regions t). region_overlap vaddr sz r)
                   then (E_EXISTS, po, kfree_in node m)
              else let region = \<lparr>rg_node = node, start_va = vaddr, rg_size = sz, rg_flags = flags,
                                 rg_pa = phys_addr, own_phys = own\<rparr>;
                       v = tree_insert region (vcb p) in
                case map_pages (cr3 v) vaddr phys_addr flags (unat npages) (paging_of m) of
                  Inl pg \<Rightarrow> (0, Some (set_vcb p v), m\<lparr>paging_of := pg\<rparr>)
                | Inr (i, pg) \<Rightarrow>
                    let m = m\<lparr>paging_of := fold (\<lambda>j. arch_unmap_4kb (cr3 v) (vaddr + of_nat j * 4096)) [0..<i] pg\<rparr>
                    in (E_LIMIT, Some (set_vcb p (tree_delete node v)), kfree_in node m))"

definition vmm_unmap_memory :: "vproc option \<Rightarrow> u32 \<Rightarrow> u32 \<Rightarrow> memsys \<Rightarrow> int \<times> vproc option \<times> memsys" where
  "vmm_unmap_memory po virt_addr sz m =
     (case po of
        None \<Rightarrow> (E_INVAL, po, m)
      | Some p \<Rightarrow>
          case vmm_lookup_region po virt_addr of
            Inl _ \<Rightarrow> (E_NOTFOUND, po, m)
          | Inr (pa, pa_size, _) \<Rightarrow>
              if cap_check (Some (caps p)) CAP_MAP_MEM (Some (Mem \<lparr>mbase = pa, msize = pa_size, mflags = 0\<rparr>)) \<noteq> 0
              then (E_PERM, po, m)
              else case vmm_mmap_release (vcb p) virt_addr sz m of
                (Inl _, v, m) \<Rightarrow> (E_INVAL, Some (set_vcb p v), m)
              | (Inr (va, region_size), v, m) \<Rightarrow>
                  (0, Some (set_vcb p v), upd_paging (unmap_pages (cr3 v) va (region_size div 4096)) m))"

definition vmm_unmap_fixed :: "vproc option \<Rightarrow> u32 \<Rightarrow> u32 \<Rightarrow> memsys \<Rightarrow> int \<times> vproc option \<times> memsys" where
  "vmm_unmap_fixed po vaddr sz m =
     (case po of
        None \<Rightarrow> (E_INVAL, po, m)
      | Some p \<Rightarrow>
          case tree (vcb p) of
            None \<Rightarrow> (E_INVAL, po, m)
          | Some t \<Rightarrow>
              case vmm_lookup_region po vaddr of
                Inl _ \<Rightarrow> (E_NOTFOUND, po, m)
              | Inr (pa, pa_size, _) \<Rightarrow>
                  if cap_check (Some (caps p)) CAP_MAP_MEM (Some (Mem \<lparr>mbase = pa, msize = pa_size, mflags = 0\<rparr>)) \<noteq> 0
                  then (E_PERM, po, m)
                  else if vcb_lock (vcb p) = None then (E_INVAL, po, m)
                  else case find (\<lambda>r. start_va r \<le> vaddr \<and> vaddr < start_va r + rg_size r) (regions t) of
                    None \<Rightarrow> (E_NOTFOUND, po, m)
                  | Some r \<Rightarrow>
                      if rg_size r < sz \<or> vaddr + sz < vaddr \<or> start_va r + rg_size r < vaddr + sz
                      then (E_INVAL, po, m)
                      else let v = tree_delete (rg_node r) (vcb p);
                               m = kfree_in (rg_node r) m;
                               m = upd_paging (unmap_pages (cr3 v) (start_va r) (rg_size r div 4096)) m;
                               m = (if own_phys r then upd_pmm (pmm_free_pages (rg_pa r) (rg_size r div 4096)) m else m)
                           in (0, Some (set_vcb p v), m))"

section \<open>Translation by region\<close>

definition vmm_vcb_va_to_pa :: "vmm_control_block option \<Rightarrow> u32 \<Rightarrow> u32" where
  "vmm_vcb_va_to_pa vo va =
     (case vo of
        None \<Rightarrow> 0
      | Some v \<Rightarrow> case tree v of
          None \<Rightarrow> 0
        | Some t \<Rightarrow> case find (\<lambda>r. vmm_rbtree_key_cmp va r = 0) (regions t) of
            None \<Rightarrow> 0 | Some r \<Rightarrow> rg_pa r + (va - start_va r))"

definition vmm_va_to_pa :: "vproc option \<Rightarrow> u32 \<Rightarrow> u32" where
  "vmm_va_to_pa po va = (case po of None \<Rightarrow> 0 | Some p \<Rightarrow> vmm_vcb_va_to_pa (Some (vcb p)) va)"

section \<open>Regions\<close>

definition region_ok :: "vmm_region \<Rightarrow> bool" where
  "region_ok r \<longleftrightarrow> aligned (start_va r) \<and> aligned (rg_size r) \<and> rg_size r \<noteq> 0 \<and>
     unat (start_va r) + unat (rg_size r) < 4294967296"

abbreviation rg_end :: "vmm_region \<Rightarrow> nat" where
  "rg_end r \<equiv> unat (start_va r) + unat (rg_size r)"

definition regions_ok :: "vmm_region list \<Rightarrow> bool" where
  "regions_ok rs \<longleftrightarrow> (\<forall>r\<in>set rs. region_ok r) \<and> sorted_wrt (\<lambda>r x. rg_end r \<le> unat (start_va x)) rs"

lemma regions_ok_simps [simp]:
  "regions_ok []"
  "regions_ok (r # rs) \<longleftrightarrow> region_ok r \<and> (\<forall>x\<in>set rs. rg_end r \<le> unat (start_va x)) \<and> regions_ok rs"
  by (auto simp: regions_ok_def)

lemma unat_end_va: "region_ok r \<Longrightarrow> unat (end_va r) = rg_end r"
proof -
  assume r: "region_ok r"
  then have m: "rg_end r mod 4096 = 0" "rg_end r < 4294967296"
    by (auto simp: region_ok_def aligned_def intro: mod_0_imp_dvd dvd_imp_mod_0)
  then have b: "rg_end r + 4095 < 4294967296"
    using aligned_bound [of "start_va r + rg_size r" 4095] r by (simp add: aligned_def region_ok_def unat_add_u32)
  have "end_va r = PAGE_ALIGN (start_va r + rg_size r)" by (simp add: end_va_def PAGE_ALIGN_def)
  then have "unat (end_va r) = (rg_end r + 4095) div 4096 * 4096"
    using page_align_nat [of "start_va r + rg_size r"] b m(2) by (simp add: unat_add_u32)
  moreover obtain k where "rg_end r = 4096 * k" using m(1) by (metis mod_0_imp_dvd dvdE)
  ultimately show ?thesis by simp
qed

lemma pages_fit: "\<not> (0xFFFFFFFF - va) div 4096 < page_cnt \<Longrightarrow> unat (va :: u32) + 4096 * unat page_cnt < 4294967296"
proof -
  assume "\<not> (0xFFFFFFFF - va) div 4096 < page_cnt"
  then have "unat page_cnt \<le> unat ((0xFFFFFFFF - va) div 4096)" by (simp add: not_less word_le_nat_alt)
  also have "\<dots> = (4294967295 - unat va) div 4096"
    using unat_u32_lt [of va] by (simp add: unat_div unat_sub_u32 del: unat_u32_lt)
  finally have "4096 * unat page_cnt \<le> 4294967295 - unat va" by simp
  then show ?thesis using unat_u32_lt [of va] by linarith
qed

lemma unat_page_bytes: "4096 * unat n < 4294967296 \<Longrightarrow> unat (n * 4096 :: u32) = 4096 * unat n"
  using unat_mult_u32 [of n 4096] by simp

text \<open>The address found is page-aligned, does not wrap, and its range meets no region.\<close>

lemma find_va_pages_ok:
  assumes "regions_ok rs" and "find_va_pages n rs = Some va" and "unat n < 0x30000"
  shows "aligned va \<and> va \<noteq> 0 \<and> unat va + 4096 * unat n < 4294967296 \<and>
    (\<forall>r\<in>set rs. rg_end r \<le> unat va \<or> unat va + 4096 * unat n \<le> unat (start_va r)) \<and>
    (rs \<noteq> [] \<longrightarrow> rg_end (hd rs) \<le> unat va)"
  using assms
proof (induction n rs rule: find_va_pages.induct)
  case (1 n)
  then show ?case by (auto simp: USER_ANON_BASE_def aligned_def)
next
  case (2 n cur)
  then have u: "unat (end_va cur) = rg_end cur" and va: "va = end_va cur" "va \<noteq> 0"
    and f: "\<not> (0xFFFFFFFF - va) div 4096 < n"
    by (auto simp: unat_end_va Let_def split: if_splits)
  have "rg_end cur mod 4096 = 0" using 2(1) by (auto simp: region_ok_def aligned_def)
  then show ?case using u va pages_fit [OF f] by (auto simp: aligned_def)
next
  case (3 n cur nxt rest)
  have ok: "region_ok cur" "regions_ok (nxt # rest)" "\<forall>x\<in>set (nxt # rest). rg_end cur \<le> unat (start_va x)"
    using 3(2) by auto
  have u: "unat (end_va cur) = rg_end cur" using ok(1) by (rule unat_end_va)
  have f: "\<not> (0xFFFFFFFF - end_va cur) div 4096 < n" using 3(3) by (auto simp: Let_def split: if_splits)
  note fit = pages_fit [OF f]
  then have b: "unat (end_va cur + n * 4096) = rg_end cur + 4096 * unat n"
    by (simp add: unat_add_u32 unat_page_bytes u)
  show ?case
  proof (cases "end_va cur + n * 4096 \<le> start_va nxt")
    case True
    then have va: "va = end_va cur" using 3(3) f by (simp add: Let_def)
    have al: "aligned (end_va cur)" using u ok(1) by (auto simp: aligned_def region_ok_def)
    have nz: "end_va cur \<noteq> 0" using u ok(1) by (auto simp: region_ok_def unat_eq_u32)
    have "rg_end cur + 4096 * unat n \<le> unat (start_va x)" if "x \<in> set (nxt # rest)" for x
      using True that ok(2) b by (auto simp: word_le_nat_alt)
    then show ?thesis using va al nz fit u by auto
  next
    case False
    then have "find_va_pages n (nxt # rest) = Some va" using 3(3) f by (simp add: Let_def)
    from 3(1) [OF refl f False ok(2) this 3(4)] show ?thesis using ok(3) by auto
  qed
qed

lemma set_region_insert [simp]: "set (region_insert r rs) = insert r (set rs)"
  by (induction r rs rule: region_insert.induct) auto

lemma regions_ok_insert:
  assumes "regions_ok rs" and "region_ok r"
    and "\<forall>x\<in>set rs. rg_end x \<le> unat (start_va r) \<or> rg_end r \<le> unat (start_va x)"
  shows "regions_ok (region_insert r rs)"
  using assms
proof (induction r rs rule: region_insert.induct)
  case (2 r x xs)
  have x: "region_ok x" using 2(2) by simp
  show ?case
  proof (cases "start_va r < start_va x")
    case True
    then have "rg_end r \<le> unat (start_va x)" using 2(4) x by (auto simp: region_ok_def word_less_nat_alt)
    moreover have "unat (start_va x) \<le> unat (start_va y)" if "y \<in> set xs" for y
      using that 2(2) by fastforce
    ultimately show ?thesis using True 2(2,3) by fastforce
  next
    case False
    then have "rg_end x \<le> unat (start_va r)"
      using 2(3,4) by (auto simp: region_ok_def word_less_nat_alt unat_eq_u32)
    then show ?thesis using False 2 by auto
  qed
qed simp

lemma region_delete_insert:
  "p \<notin> rg_node ` set rs \<Longrightarrow> rg_node r = p \<Longrightarrow> region_delete p (region_insert r rs) = rs"
  by (induction r rs rule: region_insert.induct) (auto simp: region_delete_def image_iff intro!: filter_True)


section \<open>Mapping a range\<close>

lemma map_4kb_dir:
  assumes "pool_ok s" and "dir_ok s c" and "arch_map_4kb c va pa flags s = (0, s')"
  shows "same_regs s s'" and "unat j < 1024 \<Longrightarrow> j \<noteq> PD_INDEX va \<Longrightarrow> pde_at s' c j = pde_at s c j"
    and "user (pde_at s' c (PD_INDEX va)) \<longleftrightarrow>
      (if is_table (pde_at s c (PD_INDEX va)) then user (pde_at s c (PD_INDEX va))
       else present (pde_at s c (PD_INDEX va)) \<and> user (pde_at s c (PD_INDEX va)) \<or> user flags)"
proof -
  have nz: "c \<noteq> 0" "aligned c" using dir_okD [OF assms(2)] by auto
  have put: "pde_at (put_entry (entry (e AND PAGE_MASK) (PT_INDEX va)) w t) c j = pde_at t c j"
    if "e AND PAGE_MASK \<noteq> c" "unat j < 1024" for e w j and t :: paging
    using that nz(2) by (simp add: entry_eq)
  have "same_regs s s' \<and> (unat j < 1024 \<longrightarrow> j \<noteq> PD_INDEX va \<longrightarrow> pde_at s' c j = pde_at s c j) \<and>
    (user (pde_at s' c (PD_INDEX va)) \<longleftrightarrow>
      (if is_table (pde_at s c (PD_INDEX va)) then user (pde_at s c (PD_INDEX va))
       else present (pde_at s c (PD_INDEX va)) \<and> user (pde_at s c (PD_INDEX va)) \<or> user flags))"
    using assms(1,2) PD_INDEX_lt [of va]
  proof (cases rule: ensure_table_cases [of s c "PD_INDEX va" "user flags"])
    case full
    then show ?thesis using assms(3) nz by (simp add: arch_map_4kb_eq)
  next
    case there
    then show ?thesis
      using assms(3) nz put [OF dir_okD(5) [OF assms(2) PD_INDEX_lt there(2)]] by (auto simp: arch_map_4kb_eq)
  next
    case (added t ptl e f)
    have e: "pde_at t c (PD_INDEX va) = e" "e AND PAGE_MASK \<noteq> c" "same_regs s t"
      using added(3) dir_okD(3) [OF assms(2)] by (auto simp: installs_def)
    have o: "pde_at t c j = pde_at s c j" if "unat j < 1024" "j \<noteq> PD_INDEX va"
      using installs_pde [OF assms(2) added(3) PD_INDEX_lt that(1)] that(2) by simp
    have s': "s' = put_entry (entry (e AND PAGE_MASK) (PT_INDEX va)) (leaf flags pa) t"
      using assms(3) added(1) nz e(1) by (simp add: arch_map_4kb_eq)
    show ?thesis unfolding s' using e added(2,4) o put [OF e(2)] by (auto simp del: put_entry_simps(1))
  qed
  then show "same_regs s s'" "unat j < 1024 \<Longrightarrow> j \<noteq> PD_INDEX va \<Longrightarrow> pde_at s' c j = pde_at s c j"
    "user (pde_at s' c (PD_INDEX va)) \<longleftrightarrow>
      (if is_table (pde_at s c (PD_INDEX va)) then user (pde_at s c (PD_INDEX va))
       else present (pde_at s c (PD_INDEX va)) \<and> user (pde_at s c (PD_INDEX va)) \<or> user flags)" by auto
qed

text \<open>No supervisor table stands in the way of user access at \<open>va\<close>.\<close>

definition user_reach :: "paging \<Rightarrow> u32 \<Rightarrow> u32 \<Rightarrow> bool" where
  "user_reach s c va \<longleftrightarrow> (is_table (pde_at s c (PD_INDEX va)) \<longrightarrow> user (pde_at s c (PD_INDEX va)))"

lemma page_addr:
  assumes "aligned va" and "unat va + 4096 * n \<le> 4294967296" and "i < n"
  shows "unat (va + of_nat i * 4096) = unat va + 4096 * i" and "page_no (va + of_nat i * 4096) = page_no va + i"
    and "PAGE_OFFSET (va + of_nat i * 4096) = 0"
proof -
  have "unat (of_nat i * 4096 :: u32) = 4096 * i" using assms unat_mult_u32 [of "of_nat i" 4096] by simp
  then show u: "unat (va + of_nat i * 4096) = unat va + 4096 * i" using assms by (simp add: unat_add_u32)
  then show "page_no (va + of_nat i * 4096) = page_no va + i" by simp
  have m: "(0xFFF :: u32) = mask 12" by (simp add: mask_eq_exp_minus_1)
  have "PAGE_OFFSET x = take_bit 12 x" for x
    unfolding PAGE_OFFSET_def m by (rule bit_eqI) (auto simp: bit_simps)
  then have "unat (PAGE_OFFSET (va + of_nat i * 4096)) = (unat va + 4096 * i) mod 4096"
    by (simp add: take_bit_eq_mod unat_mod u)
  also have "\<dots> = 0" using assms(1) by (simp add: aligned_def)
  finally show "PAGE_OFFSET (va + of_nat i * 4096) = 0" by (simp add: unat_eq_u32)
qed

definition range_mapped :: "u32 \<Rightarrow> u32 \<Rightarrow> u32 \<Rightarrow> u32 \<Rightarrow> nat \<Rightarrow> paging \<Rightarrow> paging \<Rightarrow> bool" where
  "range_mapped c va pa flags n pg pg' \<longleftrightarrow>
     (\<forall>i<n. walk (tables pg') c (va + of_nat i * 4096) =
        (if present flags then Some ((pa + of_nat i * 4096) AND PAGE_MASK, user flags, rw flags) else None)) \<and>
     (\<forall>v. page_no v < page_no va \<or> page_no va + n \<le> page_no v \<longrightarrow> walk (tables pg') c v = walk (tables pg) c v)"

lemma map_pages_Suc:
  "map_pages c va pa flags (Suc n) pg =
     (case map_pages c va pa flags n pg of
        Inr r \<Rightarrow> Inr r
      | Inl pg \<Rightarrow> (let (r, pg) = arch_map_4kb c (va + of_nat n * 4096) (pa + of_nat n * 4096) flags pg
                   in if r \<noteq> 0 then Inr (n, pg) else Inl pg))"
  by (simp add: map_pages_def for_brk_append Let_def split: sum.split prod.split)

lemma map_pages_ok:
  assumes "pool_ok pg" and "dir_ok pg c" and "aligned va" and "unat va + 4096 * N \<le> 4294967296"
    and "user flags \<Longrightarrow> \<forall>i<N. user_reach pg c (va + of_nat i * 4096)"
  shows "n \<le> N \<Longrightarrow> map_pages c va pa flags n pg = Inl pg' \<Longrightarrow>
    pool_ok pg' \<and> dir_ok pg' c \<and> same_regs pg pg' \<and> range_mapped c va pa flags n pg pg' \<and>
    (user flags \<longrightarrow> (\<forall>i<N. user_reach pg' c (va + of_nat i * 4096)))"
proof (induction n arbitrary: pg')
  case 0
  then show ?case using assms by (simp add: map_pages_def range_mapped_def)
next
  case (Suc n)
  let ?va = "va + of_nat n * 4096" and ?pa = "pa + of_nat n * 4096"
  from Suc.prems(2) obtain t where t: "map_pages c va pa flags n pg = Inl t" "arch_map_4kb c ?va ?pa flags t = (0, pg')"
    by (auto simp: map_pages_Suc Let_def split: sum.splits prod.splits if_splits)
  have IH: "pool_ok t" "dir_ok t c" "same_regs pg t" "range_mapped c va pa flags n pg t"
    "user flags \<longrightarrow> (\<forall>i<N. user_reach t c (va + of_nat i * 4096))"
    using Suc.IH [OF _ t(1)] Suc.prems(1) by auto
  note A = page_addr [OF assms(3,4)]
  have n: "n < N" using Suc.prems(1) by simp
  from map_4kb_ok [OF IH(1,2) t(2)] have M: "pool_ok pg'" "dir_ok pg' c" "map_effect c ?va ?pa flags t pg'" by auto
  note D = map_4kb_dir [OF IH(1,2) t(2)]
  have W: "walk (tables pg') c ?va = (if present flags then Some (?pa AND PAGE_MASK, user flags, rw flags) else None)"
    using M(3) IH(5) n A(3) [OF n] by (auto simp: map_effect_def user_reach_def)
  have R: "walk (tables pg') c v = walk (tables t) c v" if "page_no v \<noteq> page_no va + n" for v
    using M(3) that A(2) [OF n] by (simp add: map_effect_def)
  have "range_mapped c va pa flags (Suc n) pg pg'"
    unfolding range_mapped_def
  proof (intro conjI allI impI)
    fix i assume "i < Suc n"
    then show "walk (tables pg') c (va + of_nat i * 4096) =
        (if present flags then Some ((pa + of_nat i * 4096) AND PAGE_MASK, user flags, rw flags) else None)"
      using W R A(2) [of i] n IH(4) by (cases "i = n") (auto simp: range_mapped_def)
  next
    fix v assume "page_no v < page_no va \<or> page_no va + Suc n \<le> page_no v"
    then show "walk (tables pg') c v = walk (tables pg) c v" using R [of v] IH(4) by (auto simp: range_mapped_def)
  qed
  moreover have "user_reach pg' c (va + of_nat i * 4096)" if "user flags" "i < N" for i
    using D(2) [of "PD_INDEX (va + of_nat i * 4096)"] D(3) IH(5) that n
    by (cases "PD_INDEX (va + of_nat i * 4096) = PD_INDEX ?va") (auto simp: user_reach_def)
  ultimately show ?case using M D(1) same_regs_trans [OF IH(3) D(1)] by blast
qed


section \<open>A well-formed address space\<close>

definition aspace_ok :: "memsys \<Rightarrow> vmm_control_block \<Rightarrow> bool" where
  "aspace_ok m v \<longleftrightarrow> kheap_ok (heaps_of m) \<and> pmm_inv (pmm_of m) \<and> pool_ok (paging_of m) \<and>
     dir_ok (paging_of m) (cr3 v) \<and> vcb_lock v \<noteq> None \<and>
     (\<exists>t. tree v = Some t \<and> regions_ok (regions t) \<and> distinct (map rg_node (regions t)) \<and>
          rg_node ` set (regions t) \<subseteq> klive (heaps_of m))"

definition regions_of :: "vmm_control_block \<Rightarrow> vmm_region list" where
  "regions_of v = (case tree v of None \<Rightarrow> [] | Some t \<Rightarrow> regions t)"

text \<open>Every table of the directory is open to user mode, as in the directories of user processes.\<close>

definition user_dir :: "paging \<Rightarrow> u32 \<Rightarrow> bool" where
  "user_dir pg c \<longleftrightarrow> (\<forall>j. unat j < 1024 \<longrightarrow> is_table (pde_at pg c j) \<longrightarrow> user (pde_at pg c j))"

lemma user_dir_reach: "user_dir pg c \<Longrightarrow> user_reach pg c va"
  by (simp add: user_dir_def user_reach_def)

lemma upd_simps [simp]:
  "heaps_of (upd_pmm f m) = heaps_of m" "heaps_of (upd_paging g m) = heaps_of m" "heaps_of (upd_locks h m) = heaps_of m"
  "pmm_of (upd_pmm f m) = f (pmm_of m)" "pmm_of (upd_paging g m) = pmm_of m" "pmm_of (upd_locks h m) = pmm_of m"
  "paging_of (upd_pmm f m) = paging_of m" "paging_of (upd_paging g m) = g (paging_of m)" "paging_of (upd_locks h m) = paging_of m"
  "locks_of (upd_pmm f m) = locks_of m" "locks_of (upd_paging g m) = locks_of m" "locks_of (upd_locks h m) = h (locks_of m)"
  "heaps_of (kfree_in p m) = kfree p (heaps_of m)" "pmm_of (kfree_in p m) = pmm_of m" "paging_of (kfree_in p m) = paging_of m"
  "locks_of (kfree_in p m) = locks_of m"
  by (simp_all add: upd_pmm_def upd_paging_def upd_locks_def kfree_in_def upd_heap_def)

lemma kmalloc_in_simps:
  assumes "kmalloc_in n m = (r, m')"
  shows "kalloc n (heaps_of m) = (r, heaps_of m')" "pmm_of m' = pmm_of m" "paging_of m' = paging_of m" "locks_of m' = locks_of m"
  using assms by (auto simp: kmalloc_in_def split: prod.splits)

lemma tree_insert_simps [simp]: "cr3 (tree_insert r v) = cr3 v" "vcb_lock (tree_insert r v) = vcb_lock v"
  "cr3 (tree_delete p v) = cr3 v" "vcb_lock (tree_delete p v) = vcb_lock v"
  by (simp_all add: tree_insert_def tree_delete_def)

lemma regions_of_insert: "tree v \<noteq> None \<Longrightarrow> regions_of (tree_insert r v) = region_insert r (regions_of v)"
  by (auto simp: regions_of_def tree_insert_def)

lemma tree_delete_insert:
  "p \<notin> rg_node ` set (regions_of v) \<Longrightarrow> rg_node r = p \<Longrightarrow> tree_delete p (tree_insert r v) = v"
  by (cases v; cases "tree v")
    (auto simp: tree_delete_def tree_insert_def regions_of_def region_delete_insert)

lemma distinct_region_insert:
  "distinct (map rg_node rs) \<Longrightarrow> rg_node r \<notin> rg_node ` set rs \<Longrightarrow> distinct (map rg_node (region_insert r rs))"
  by (induction r rs rule: region_insert.induct) auto

text \<open>The three outcomes of \<^verbatim>\<open>vmm_alloc_pages\<close>: failure before anything is mapped, success, and rollback.\<close>

lemma vmm_alloc_pages_cases:
  assumes ok: "aspace_ok m v" and n: "n \<noteq> 0" and call: "vmm_alloc_pages (Some v) n flags m = (va, vo, m')"
  obtains (fail) "va = 0" "vo = Some v" "paging_of m' = paging_of m" "locks_of m' = locks_of m"
      "klive (heaps_of m') = klive (heaps_of m)" "kheap_ok (heaps_of m')" "pmm_inv (pmm_of m')"
      "free_set (pmm_of m') = free_set (pmm_of m)"
  | (map) node pa pm h where "pmm_alloc_pages n (pmm_of m) = (pa, pm)" "pa \<noteq> 0"
      "kalloc sizeof_vmm_region (heaps_of m) = (Some node, h)"
      "find_va_pages n (regions_of v) = Some va" "locks_of m' = locks_of m"
      "vo = Some (tree_insert \<lparr>rg_node = node, start_va = va, rg_size = 4096 * n, rg_flags = flags, rg_pa = pa,
                     own_phys = True\<rparr> v)"
      "map_pages (cr3 v) va pa flags (unat (4096 * n div 4096)) (paging_of m) = Inl (paging_of m')"
      "pmm_of m' = pm" "heaps_of m' = h"
  | (rollback) node where "va = 0" "vo = Some v" "node \<notin> klive (heaps_of m)" "locks_of m' = locks_of m"
      "klive (heaps_of m') = klive (heaps_of m)" "kheap_ok (heaps_of m')" "pmm_inv (pmm_of m')"
      "free_set (pmm_of m') = free_set (pmm_of m)"
proof -
  obtain t where t: "tree v = Some t" and lock: "vcb_lock v \<noteq> None" and h: "kheap_ok (heaps_of m)"
    and pm: "pmm_inv (pmm_of m)" and nodes: "rg_node ` set (regions t) \<subseteq> klive (heaps_of m)"
    using ok by (auto simp: aspace_ok_def)
  have rg: "regions t = regions_of v" by (simp add: regions_of_def t)
  obtain pa pm' where al: "pmm_alloc_pages n (pmm_of m) = (pa, pm')" by fastforce
  obtain r h' where ka: "kalloc sizeof_vmm_region (heaps_of m) = (r, h')" by fastforce
  let ?m = "m\<lparr>pmm_of := pm', heaps_of := h'\<rparr>"
  have km: "kmalloc_in sizeof_vmm_region (m\<lparr>pmm_of := pm'\<rparr>) = (r, ?m)" by (simp add: kmalloc_in_def ka)
  have h': "kheap_ok h'" by (rule kheap.alloc_inv [OF h ka])
  have free: "pmm_inv (pmm_free_pages pa n pm')" "free_set (pmm_free_pages pa n pm') = free_set (pmm_of m)" if "pa \<noteq> 0"
    using pmm_alloc_free_run [OF pm al that] by auto
  show thesis
  proof (cases "pa = 0")
    case True
    then have "pm' = pmm_of m" using pmm_alloc_pages_run [OF pm n al] by simp
    then show ?thesis using fail call True t n al h pm by (auto simp: vmm_alloc_pages_def Let_def)
  next
    case pa: False
    show ?thesis
    proof (cases r)
      case None
      then have "klive h' = klive (heaps_of m)" using kheap.alloc_fail [OF h] ka by simp
      then show ?thesis
        using fail call None t n al pa km h' free [OF pa] by (auto simp: vmm_alloc_pages_def Let_def)
    next
      case (Some node)
      have lv: "klive h' = insert node (klive (heaps_of m))" "node \<notin> klive (heaps_of m)"
        using kheap.alloc_live [OF h] kheap.alloc_fresh [OF h] ka Some by auto
      have kf: "klive (kfree node h') = klive (heaps_of m)" "kheap_ok (kfree node h')"
        using kheap.release_live [OF h'] kheap.release_inv [OF h'] lv by auto
      show ?thesis
      proof (cases "find_va_pages n (regions t)")
        case None
        then show ?thesis
          using fail call Some t n al pa km h' free [OF pa] lock kf by (auto simp: vmm_alloc_pages_def Let_def)
      next
        case va: (Some a)
        define reg where "reg = \<lparr>rg_node = node, start_va = a, rg_size = 4096 * n, rg_flags = flags, rg_pa = pa, own_phys = True\<rparr>"
        show ?thesis
        proof (cases "map_pages (cr3 v) a pa flags (unat (4096 * n div 4096)) (paging_of m)")
          case (Inl pg)
          then have "va = a" "vo = Some (tree_insert reg v)" "m' = ?m\<lparr>paging_of := pg\<rparr>"
            using call Some t n al pa km lock va by (auto simp: vmm_alloc_pages_def Let_def reg_def)
          then show ?thesis using map [OF al pa] ka Some va Inl by (simp add: reg_def rg)
        next
          case (Inr x)
          obtain i pg where x: "x = (i, pg)" by (cases x)
          have "tree_delete node (tree_insert reg v) = v"
            by (rule tree_delete_insert) (use nodes lv(2) rg in \<open>auto simp: reg_def\<close>)
          then show ?thesis
            using rollback [of node] call Some t n al pa km lock va Inr x lv(2) kf free [OF pa]
            by (auto simp: vmm_alloc_pages_def Let_def reg_def)
        qed
      qed
    qed
  qed
qed


lemma page_count:
  assumes "unat n < 0x30000"
  shows "unat (4096 * n :: u32) = 4096 * unat n" and "unat (4096 * n div 4096 :: u32) = unat n"
proof -
  show u: "unat (4096 * n :: u32) = 4096 * unat n" using assms unat_mult_u32 [of 4096 n] by simp
  then show "unat (4096 * n div 4096 :: u32) = unat n" by (simp add: unat_div)
qed

text \<open>What a successful \<^verbatim>\<open>vmm_alloc_pages\<close> did: \<open>r\<close> is the new region.\<close>

definition pages_added :: "memsys \<Rightarrow> vmm_control_block \<Rightarrow> u32 \<Rightarrow> u32 \<Rightarrow> vmm_region \<Rightarrow> memsys \<Rightarrow> vmm_control_block \<Rightarrow> bool" where
  "pages_added m v n flags r m' v' \<longleftrightarrow>
     regions_of v' = region_insert r (regions_of v) \<and> rg_size r = 4096 * n \<and> own_phys r \<and> region_ok r \<and>
     (\<forall>x\<in>set (regions_of v). rg_end x \<le> unat (start_va r) \<or> rg_end r \<le> unat (start_va x)) \<and>
     rg_node r \<notin> klive (heaps_of m) \<and> klive (heaps_of m') = insert (rg_node r) (klive (heaps_of m)) \<and>
     {page_no (rg_pa r)..<page_no (rg_pa r) + unat n} \<subseteq> free_set (pmm_of m) \<and>
     free_set (pmm_of m') = free_set (pmm_of m) - {page_no (rg_pa r)..<page_no (rg_pa r) + unat n} \<and>
     aligned (rg_pa r) \<and>
     range_mapped (cr3 v) (start_va r) (rg_pa r) flags (unat n) (paging_of m) (paging_of m')"

lemma vmm_alloc_pages_ok:
  assumes ok: "aspace_ok m v" and n: "n \<noteq> 0" "unat n < 0x30000" and ud: "user_dir (paging_of m) (cr3 v)"
    and call: "vmm_alloc_pages (Some v) n flags m = (va, Some v', m')" and "va \<noteq> 0"
  shows "\<exists>r. start_va r = va \<and> pages_added m v n flags r m' v' \<and> aspace_ok m' v' \<and> v' = tree_insert r v \<and>
    pmm_alloc_pages n (pmm_of m) = (rg_pa r, pmm_of m') \<and> rg_pa r \<noteq> 0"
  using ok n(1) call
proof (cases rule: vmm_alloc_pages_cases)
  case (map node pa pm h)
  define r where "r = \<lparr>rg_node = node, start_va = va, rg_size = 4096 * n, rg_flags = flags, rg_pa = pa, own_phys = True\<rparr>"
  have v': "v' = tree_insert r v" using map(6) by (simp add: r_def)
  obtain t where t: "tree v = Some t" "regions_ok (regions t)" "distinct (map rg_node (regions t))"
    "rg_node ` set (regions t) \<subseteq> klive (heaps_of m)" and h: "kheap_ok (heaps_of m)" and pm: "pmm_inv (pmm_of m)"
    and pg: "pool_ok (paging_of m)" "dir_ok (paging_of m) (cr3 v)" and lk: "vcb_lock v \<noteq> None"
    using ok by (auto simp: aspace_ok_def)
  have rg: "regions_of v = regions t" by (simp add: regions_of_def t)
  have F: "aligned va" "unat va + 4096 * unat n < 4294967296"
    "\<forall>x\<in>set (regions t). rg_end x \<le> unat va \<or> unat va + 4096 * unat n \<le> unat (start_va x)"
    using find_va_pages_ok [of "regions t" n va] t(2) map(4) n(2) rg by auto
  have sz: "unat (rg_size r) = 4096 * unat n" using page_count [OF n(2)] by (simp add: r_def)
  have rok: "region_ok r"
  proof -
    have "rg_size r \<noteq> 0" "aligned (rg_size r)"
      using sz n(1) unat_gt_0 [of n] by (auto simp: aligned_def unat_eq_u32 [of "rg_size r"])
    then show ?thesis using F(1,2) sz by (simp add: region_ok_def) (simp add: r_def)
  qed
  have M: "pool_ok (paging_of m') \<and> dir_ok (paging_of m') (cr3 v) \<and>
      range_mapped (cr3 v) va pa flags (unat n) (paging_of m) (paging_of m')"
    using map_pages_ok [OF pg F(1) less_imp_le [OF F(2)], of flags "unat n" pa "paging_of m'"]
      user_dir_reach [OF ud] map(7) page_count(2) [OF n(2)] by simp
  obtain i where i: "run (pmm_of m) (unat n) i" "unat pa = i * 4096" "pmm_inv pm"
    "free_set pm = free_set (pmm_of m) - {i..<i + unat n}"
    using pmm_alloc_pages_run [OF pm n(1) map(1)] map(2) by auto
  have "{i..<i + unat n} \<subseteq> free_set (pmm_of m)" using i(1) by (auto simp: run_def free_set_def)
  moreover have "node \<notin> klive (heaps_of m)" "klive h = insert node (klive (heaps_of m))" "kheap_ok h"
    using kheap.alloc_fresh [OF h map(3)] kheap.alloc_live [OF h map(3)] kheap.alloc_inv [OF h map(3)] by auto
  moreover have "regions_ok (region_insert r (regions t))"
    by (rule regions_ok_insert [OF t(2) rok]) (use F(3) sz in \<open>auto simp: r_def\<close>)
  moreover have "distinct (map rg_node (region_insert r (regions t)))"
    using t(3,4) calculation(2) by (intro distinct_region_insert) (auto simp: r_def)
  ultimately have "pages_added m v n flags r m' v'" "aspace_ok m' v'"
    using M i rok F(3) sz t lk map(8,9)
    by (auto simp: pages_added_def aspace_ok_def v' regions_of_def r_def tree_insert_def aligned_def)
  then show ?thesis using v' map(1,2,8) by (intro exI [of _ r]) (simp add: r_def)
qed (use assms(6) in auto)


text \<open>
  Property C10: \<^verbatim>\<open>vmm_alloc_pages\<close>.  On success, with a directory whose user tables are user accessible and a request
  of fewer than 0x30000 pages (all that lies between \<^verbatim>\<open>USER_ANON_BASE\<close> and the top of the address space: the branch for an
  empty tree does not test for overflow), the new region starts at the returned address, is page-aligned,
  does not wrap, overlaps no region of the process, is backed by frames that were free, and every
  page of it translates to its frame with the rights asked for, while all other addresses of the
  process translate as before; the address space stays well formed.
\<close>

theorem vmm_alloc_pages_correct:
  assumes "aspace_ok m v" and "n \<noteq> 0" and "unat n < 0x30000" and "user_dir (paging_of m) (cr3 v)"
    and "vmm_alloc_pages (Some v) n flags m = (va, Some v', m')" and "va \<noteq> 0"
  shows "\<exists>r. start_va r = va \<and> pages_added m v n flags r m' v' \<and> aspace_ok m' v'"
  using vmm_alloc_pages_ok [OF assms] by blast

text \<open>
  Property C35: a failed \<^verbatim>\<open>vmm_alloc_pages\<close> gives everything back: the regions, the kernel heap's live blocks and
  the free frames are as before, whichever step failed (frames, bookkeeping, address, page table).  Page tables that were
  installed on the way stay in the directory.
\<close>

theorem vmm_alloc_pages_fails_clean:
  assumes "aspace_ok m v" and "n \<noteq> 0" and "vmm_alloc_pages (Some v) n flags m = (0, vo, m')"
    and "find_va_pages n (regions_of v) \<noteq> Some 0"
  shows "vo = Some v \<and> klive (heaps_of m') = klive (heaps_of m) \<and> kheap_ok (heaps_of m') \<and>
    pmm_inv (pmm_of m') \<and> free_set (pmm_of m') = free_set (pmm_of m)"
  using assms(1-3) by (cases rule: vmm_alloc_pages_cases) (use assms(4) in auto)

lemma find_own_region:
  assumes "regions_ok rs" and "r \<in> set rs" and "own_phys r"
  shows "find (\<lambda>x. start_va x \<le> start_va r \<and> start_va r < start_va x + rg_size x \<and> own_phys x) rs = Some r"
  using assms
proof (induction rs)
  case (Cons x xs)
  have in_x: "start_va r < start_va x + rg_size x \<longleftrightarrow> unat (start_va r) < rg_end x" if "region_ok x" for x
    using that by (simp add: region_ok_def word_less_nat_alt unat_add_u32)
  show ?case
  proof (cases "x = r")
    case True
    then have "start_va r < start_va r + rg_size r" using Cons.prems(1) in_x [of r] by (auto simp: region_ok_def unat_gt_0)
    then show ?thesis using True Cons.prems by simp
  next
    case False
    then have "r \<in> set xs" using Cons.prems(2) by simp
    then have "\<not> start_va r < start_va x + rg_size x" using Cons.prems(1) in_x [of x] by auto
    then show ?thesis using Cons \<open>r \<in> set xs\<close> by auto
  qed
qed simp

text \<open>
  Property C36: allocation and release are inverse.  Freeing the pages right after a successful
  \<^verbatim>\<open>vmm_alloc_pages\<close> restores the control block and returns exactly the frames and the heap block that had
  been taken.
\<close>

theorem vmm_alloc_free_roundtrip:
  assumes "aspace_ok m v" and "n \<noteq> 0" and "unat n < 0x30000" and "user_dir (paging_of m) (cr3 v)"
    and "vmm_alloc_pages (Some v) n flags m = (va, Some v', m')" and "va \<noteq> 0"
    and "vmm_free_pages (Some v') va m' = (vo, m'')"
  shows "vo = Some v \<and> klive (heaps_of m'') = klive (heaps_of m) \<and> kheap_ok (heaps_of m'') \<and>
    pmm_inv (pmm_of m'') \<and> free_set (pmm_of m'') = free_set (pmm_of m)"
proof -
  obtain r where r: "start_va r = va" "pages_added m v n flags r m' v'" "aspace_ok m' v'" "v' = tree_insert r v"
    "pmm_alloc_pages n (pmm_of m) = (rg_pa r, pmm_of m')" "rg_pa r \<noteq> 0"
    using vmm_alloc_pages_ok [OF assms(1-6)] by blast
  have A: "regions_of v' = region_insert r (regions_of v)" "rg_size r = 4096 * n" "own_phys r"
    "rg_node r \<notin> klive (heaps_of m)" "klive (heaps_of m') = insert (rg_node r) (klive (heaps_of m))"
    using r(2) by (auto simp: pages_added_def)
  obtain t where t: "tree v = Some t" "rg_node ` set (regions t) \<subseteq> klive (heaps_of m)" and pm: "pmm_inv (pmm_of m)"
    using assms(1) by (auto simp: aspace_ok_def)
  obtain t' where t': "tree v' = Some t'" "regions_ok (regions t')" "vcb_lock v' \<noteq> None" "kheap_ok (heaps_of m')"
    using r(3) by (auto simp: aspace_ok_def)
  have "regions t' = region_insert r (regions t)" using A(1) t(1) t'(1) by (simp add: regions_of_def)
  then have f: "find (\<lambda>x. start_va x \<le> va \<and> va < start_va x + rg_size x \<and> own_phys x) (regions t') = Some r"
    using find_own_region [OF t'(2), of r] A(3) r(1) by simp
  have d: "tree_delete (rg_node r) v' = v"
    unfolding r(4) by (rule tree_delete_insert) (use t A(4) in \<open>auto simp: regions_of_def\<close>)
  have n: "rg_size r div 4096 = n"
    using page_count(2) [OF assms(3)] by (simp add: A(2) unat_eq_u32)
  have eq: "(vo, m'') = (Some v, kfree_in (rg_node r) (upd_pmm (pmm_free_pages (rg_pa r) n)
      (upd_paging (unmap_pages (cr3 v') (start_va r) n) m')))"
    using assms(7) t'(1,3) f d n by (auto simp: vmm_free_pages_def Let_def)
  have "klive (kfree (rg_node r) (heaps_of m')) = klive (heaps_of m)" "kheap_ok (kfree (rg_node r) (heaps_of m'))"
    using kheap.release_live [OF t'(4)] kheap.release_inv [OF t'(4)] A(4,5) by auto
  then show ?thesis using eq pmm_alloc_free_run [OF pm r(5,6)] by auto
qed


section \<open>Creating and destroying an address space\<close>

lemma rbtree_create_cases:
  assumes "kheap_ok (heaps_of m)" and "rbtree_create m = (t, m')"
  obtains (fail) "t = None" "klive (heaps_of m') = klive (heaps_of m)" "kheap_ok (heaps_of m')"
      "paging_of m' = paging_of m" "pmm_of m' = pmm_of m" "locks_of m' = locks_of m"
  | (ok) a b where "t = Some \<lparr>tree_ptr = a, tree_nil = b, regions = []\<rparr>" "a \<noteq> b" "a \<notin> klive (heaps_of m)"
      "b \<notin> klive (heaps_of m)" "klive (heaps_of m') = {a, b} \<union> klive (heaps_of m)" "kheap_ok (heaps_of m')"
      "paging_of m' = paging_of m" "pmm_of m' = pmm_of m" "locks_of m' = locks_of m"
proof -
  obtain r1 m1 where k1: "kmalloc_in sizeof_rbtree m = (r1, m1)" by fastforce
  note K1 = kmalloc_in_simps [OF k1]
  have h1: "kheap_ok (heaps_of m1)" by (rule kheap.alloc_inv [OF assms(1) K1(1)])
  show thesis
  proof (cases r1)
    case None
    then show ?thesis using assms(2) fail k1 K1 h1 kheap.alloc_fail [OF assms(1), of sizeof_rbtree "heaps_of m1"]
      by (simp add: rbtree_create_def)
  next
    case (Some a)
    have a: "a \<notin> klive (heaps_of m)" "klive (heaps_of m1) = insert a (klive (heaps_of m))"
      using kheap.alloc_fresh [OF assms(1)] kheap.alloc_live [OF assms(1)] K1(1) Some by auto
    obtain r2 m2 where k2: "kmalloc_in sizeof_rbnode m1 = (r2, m2)" by fastforce
    note K2 = kmalloc_in_simps [OF k2]
    have h2: "kheap_ok (heaps_of m2)" by (rule kheap.alloc_inv [OF h1 K2(1)])
    show ?thesis
    proof (cases r2)
      case None
      then have "klive (heaps_of m2) = klive (heaps_of m1)" using kheap.alloc_fail [OF h1] K2(1) by simp
      then have "klive (kfree a (heaps_of m2)) = klive (heaps_of m)" "kheap_ok (kfree a (heaps_of m2))"
        using kheap.release_live [OF h2] kheap.release_inv [OF h2] a by auto
      moreover have "t = None" "m' = kfree_in a m2"
        using assms(2) k1 k2 Some None by (simp_all add: rbtree_create_def)
      ultimately show ?thesis using K1(2-4) K2(2-4) by (intro fail) simp_all
    next
      case (Some b)
      then have b: "b \<notin> klive (heaps_of m1)" "klive (heaps_of m2) = insert b (klive (heaps_of m1))"
        using kheap.alloc_fresh [OF h1] kheap.alloc_live [OF h1] K2(1) by auto
      have "t = Some \<lparr>tree_ptr = a, tree_nil = b, regions = []\<rparr>" "m' = m2"
        using assms(2) k1 k2 \<open>r1 = Some a\<close> Some by (simp_all add: rbtree_create_def)
      then show ?thesis using a b h2 K1(2-4) K2(2-4) by (intro ok [of a b]) auto
    qed
  qed
qed

text \<open>Everything a memory system hands out.\<close>

definition resources :: "memsys \<Rightarrow> ptr set \<times> nat set \<times> u32 set \<times> nat set" where
  "resources m = (klive (heaps_of m), free_set (pmm_of m), live_slots (paging_of m), live_locks (locks_of m))"

definition memsys_ok :: "memsys \<Rightarrow> bool" where
  "memsys_ok m \<longleftrightarrow> kheap_ok (heaps_of m) \<and> pmm_inv (pmm_of m) \<and> pool_ok (paging_of m) \<and> pool_inv (locks_of m) \<and>
     dir_ok (paging_of m) (kernel_pdir_phys (paging_of m))"

definition created :: "memsys \<Rightarrow> memsys \<Rightarrow> vmm_control_block \<Rightarrow> bool" where
  "created m m' v \<longleftrightarrow> (\<exists>a b l. tree v = Some \<lparr>tree_ptr = a, tree_nil = b, regions = []\<rparr> \<and> vcb_lock v = Some l \<and>
     a \<noteq> b \<and> a \<notin> klive (heaps_of m) \<and> b \<notin> klive (heaps_of m) \<and> l \<notin> live_locks (locks_of m) \<and>
     cr3 v \<in> free_slots (paging_of m) \<and> cr3 v \<notin> live_slots (paging_of m) \<and> cr3 v \<noteq> 0 \<and> aligned (cr3 v) \<and>
     kheap_ok (heaps_of m') \<and> klive (heaps_of m') = {a, b} \<union> klive (heaps_of m) \<and> pmm_of m' = pmm_of m \<and>
     pool_inv (locks_of m') \<and> live_locks (locks_of m') = insert l (live_locks (locks_of m)) \<and>
     pool_ok (paging_of m') \<and> same_regs (paging_of m) (paging_of m') \<and>
     live_slots (paging_of m') = insert (cr3 v) (live_slots (paging_of m)) \<and>
     (\<forall>i<1024. pde_at (paging_of m') (cr3 v) (of_nat i) = pde_at (paging_of m) (kernel_pdir_phys (paging_of m)) (of_nat i)) \<and>
     (\<forall>a. page_no a \<noteq> page_no (cr3 v) \<longrightarrow> tables (paging_of m') a = tables (paging_of m) a))"


lemma rbtree_destroy_live:
  assumes "kheap_ok (heaps_of m)" and "a \<in> klive (heaps_of m)" and "b \<in> klive (heaps_of m)" and "a \<noteq> b"
  shows "klive (heaps_of (rbtree_destroy (Some \<lparr>tree_ptr = a, tree_nil = b, regions = rs\<rparr>) m)) = klive (heaps_of m) - {a, b}"
    and "kheap_ok (heaps_of (rbtree_destroy (Some \<lparr>tree_ptr = a, tree_nil = b, regions = rs\<rparr>) m))"
proof -
  have b: "klive (kfree b (heaps_of m)) = klive (heaps_of m) - {b}" "kheap_ok (kfree b (heaps_of m))"
    using kheap.release_live kheap.release_inv assms by auto
  then have "a \<in> klive (kfree b (heaps_of m))" using assms by auto
  then show "klive (heaps_of (rbtree_destroy (Some \<lparr>tree_ptr = a, tree_nil = b, regions = rs\<rparr>) m)) = klive (heaps_of m) - {a, b}"
    "kheap_ok (heaps_of (rbtree_destroy (Some \<lparr>tree_ptr = a, tree_nil = b, regions = rs\<rparr>) m))"
    using kheap.release_live [OF b(2)] kheap.release_inv [OF b(2)] b(1) by (auto simp: rbtree_destroy_def)
qed

lemma rbtree_destroy_other [simp]:
  "paging_of (rbtree_destroy t m) = paging_of m" "pmm_of (rbtree_destroy t m) = pmm_of m"
  "locks_of (rbtree_destroy t m) = locks_of m"
  by (simp_all add: rbtree_destroy_def split: option.split)

lemma vmm_create_cases:
  assumes ok: "memsys_ok m" and call: "vmm_create v u m = (r, v', m')"
  shows "if r = 0 then created m m' v' else r = E_NOMEM \<and> resources m' = resources m"
proof -
  have M: "kheap_ok (heaps_of m)" "pool_ok (paging_of m)" "pool_inv (locks_of m)"
    "dir_ok (paging_of m) (kernel_pdir_phys (paging_of m))" using ok by (auto simp: memsys_ok_def)
  obtain lo ls where l: "spinlock_alloc (locks_of m) = (lo, ls)" by fastforce
  show ?thesis
  proof (cases lo)
    case None
    then have "ls = locks_of m" using l by (simp add: spinlock_alloc_None)
    then show ?thesis using call l None by (auto simp: vmm_create_def resources_def)
  next
    case (Some i)
    have L: "i \<notin> live_locks (locks_of m)" "live_locks ls = insert i (live_locks (locks_of m))" "pool_inv ls"
      using live_locks_alloc [OF M(3)] locks.alloc_inv [OF M(3) l] l Some by auto
    then have Lr: "live_locks (spinlock_release (Some i) ls) = live_locks (locks_of m)"
      by (auto simp: live_locks_release)
    obtain t m1 where t: "rbtree_create (m\<lparr>locks_of := ls\<rparr>) = (t, m1)" by fastforce
    have "kheap_ok (heaps_of (m\<lparr>locks_of := ls\<rparr>))" using M(1) by simp
    from this t show ?thesis
    proof (cases rule: rbtree_create_cases)
      case fail
      then show ?thesis using call l Some t Lr by (auto simp: vmm_create_def resources_def)
    next
      case T: (ok a b)
      let ?t = "\<lparr>tree_ptr = a, tree_nil = b, regions = []\<rparr>"
      have pg1: "pool_ok (paging_of m1)" using M(2) T by simp
      from pg1 show ?thesis
      proof (cases rule: pool_alloc_cases)
        case full
        then have m': "r = E_NOMEM" "m' = upd_locks (spinlock_release (Some i)) (rbtree_destroy (Some ?t) m1)"
          using call l Some t T(1) by (auto simp: vmm_create_def Let_def)
        have "klive (heaps_of (rbtree_destroy (Some ?t) m1)) = klive (heaps_of m1) - {a, b}"
          by (rule rbtree_destroy_live(1) [OF T(6) _ _ T(2)]) (simp_all add: T(5))
        also have "\<dots> = klive (heaps_of m)" using T(3-5) by auto
        finally show ?thesis using m' T(7-9) Lr by (simp add: resources_def)
      next
        case P: (page pa pg)
        have al: "aligned (kernel_pdir_phys pg)" "pa \<noteq> kernel_pdir_phys pg"
          using P(2,6) dir_okD(1,3) [OF M(4)] T(7) by (auto simp: same_regs_def)
        note C = clone_fill [OF P(4) al P(3), of u]
        have m': "r = 0" "v' = v\<lparr>vcb_lock := Some i, tree := Some ?t, cr3 := pa\<rparr>"
          "m' = m1\<lparr>paging_of := fill pa (\<lambda>i. pde_at pg (kernel_pdir_phys pg) (of_nat i)) pg\<rparr>"
          using call l Some t T(1) P(1,3) C by (auto simp: vmm_create_def Let_def)
        have sl: "live_slots (fill pa f pg) = live_slots pg" for f by (rule slots_cong) simp_all
        have kd: "pde_at pg (kernel_pdir_phys pg) (of_nat j) = pde_at (paging_of m) (kernel_pdir_phys (paging_of m)) (of_nat j)"
          if "j < 1024" for j
        proof -
          have "page_no (entry (kernel_pdir_phys pg) (of_nat j)) \<noteq> page_no pa"
            using that al P(4) by (simp add: page_no_entry aligned_eq)
          then show ?thesis using P(6,10) T(7) by (simp add: same_regs_def)
        qed
        let ?pg = "fill pa (\<lambda>i. pde_at pg (kernel_pdir_phys pg) (of_nat i)) pg"
        have paging: "pool_ok ?pg" "same_regs (paging_of m) ?pg" "live_slots ?pg = insert pa (live_slots (paging_of m))"
          "pa \<in> free_slots (paging_of m)" "pa \<notin> live_slots (paging_of m)"
          using P(2,5,6,8,9) T(7) sl by (simp_all add: pool_ok_def)
        have tabs: "\<forall>i<1024. pde_at ?pg pa (of_nat i) = pde_at (paging_of m) (kernel_pdir_phys (paging_of m)) (of_nat i)"
          "\<forall>a. page_no a \<noteq> page_no pa \<longrightarrow> tables ?pg a = tables (paging_of m) a"
          using kd P(4,10) T(7) by (simp_all add: fill_in fill_other)
        have "created m m' v'"
          unfolding created_def m' using L T(2-6,8,9) P(3,4) paging tabs
          by (intro exI [of _ a] exI [of _ b] exI [of _ i]) simp
        then show ?thesis using m'(1) by simp
      qed
    qed
  qed
qed


text \<open>
  Property C37: a new address space.  When \<^verbatim>\<open>vmm_create\<close> succeeds, every virtual address translates in the new space
  exactly as in the kernel's master directory, and the new directory is a page nobody else uses.
\<close>

theorem vmm_create_clones:
  assumes "memsys_ok m" and "vmm_create v u m = (0, v', m')"
  shows "walk (tables (paging_of m')) (cr3 v') va = walk (tables (paging_of m)) (kernel_pdir_phys (paging_of m)) va \<and>
    cr3 v' \<notin> live_slots (paging_of m) \<and> cr3 v' \<in> live_slots (paging_of m') \<and> regions_of v' = []"
proof -
  have c: "created m m' v'" using vmm_create_cases [OF assms] by simp
  let ?k = "kernel_pdir_phys (paging_of m)"
  have k: "dir_ok (paging_of m) ?k" using assms(1) by (simp add: memsys_ok_def)
  have d: "pde_at (paging_of m') (cr3 v') (PD_INDEX va) = pde_at (paging_of m) ?k (PD_INDEX va)"
  proof -
    have "\<forall>i<1024. pde_at (paging_of m') (cr3 v') (of_nat i) = pde_at (paging_of m) ?k (of_nat i)"
      using c unfolding created_def by blast
    from this [rule_format, OF PD_INDEX_lt [of va]] show ?thesis by simp
  qed
  have t: "tables (paging_of m') (entry (pde_at (paging_of m) ?k (PD_INDEX va) AND PAGE_MASK) (PT_INDEX va)) =
      tables (paging_of m) (entry (pde_at (paging_of m) ?k (PD_INDEX va) AND PAGE_MASK) (PT_INDEX va))"
    if "is_table (pde_at (paging_of m) ?k (PD_INDEX va))"
  proof -
    have "pde_at (paging_of m) ?k (PD_INDEX va) AND PAGE_MASK \<noteq> cr3 v'" "aligned (cr3 v')"
      using c dir_okD(6) [OF k PD_INDEX_lt that] by (auto simp: created_def)
    then have "page_no (entry (pde_at (paging_of m) ?k (PD_INDEX va) AND PAGE_MASK) (PT_INDEX va)) \<noteq> page_no (cr3 v')"
      by (simp add: page_no_entry aligned_eq)
    then show ?thesis using c unfolding created_def by blast
  qed
  have "walk (tables (paging_of m')) (cr3 v') va = walk (tables (paging_of m)) ?k va"
    unfolding walk_def Let_def d using t by (auto simp: is_table_def)
  then show ?thesis using c by (auto simp: created_def regions_of_def)
qed

lemma created_no_private:
  assumes "memsys_ok m" and "created m m' v" and "n \<le> 1024"
  shows "private_tables (paging_of m') (cr3 v) n = []"
proof -
  let ?k = "kernel_pdir_phys (paging_of m)"
  have k: "dir_ok (paging_of m) ?k" using assms(1) by (simp add: memsys_ok_def)
  have kr: "kernel_pdir_phys (paging_of m') = ?k" and al: "aligned (cr3 v)" "cr3 v \<noteq> ?k"
    using assms(2) dir_okD(3) [OF k] by (auto simp: created_def same_regs_def)
  have "\<not> private_pde (paging_of m') (cr3 v) i" if "i < 1024" for i
  proof -
    have "page_no (entry ?k (of_nat i)) \<noteq> page_no (cr3 v)"
      using that al dir_okD(1) [OF k] by (simp add: page_no_entry aligned_eq)
    then have "pde_at (paging_of m') ?k (of_nat i) = pde_at (paging_of m) ?k (of_nat i)"
      using assms(2) unfolding created_def by blast
    moreover have "pde_at (paging_of m') (cr3 v) (of_nat i) = pde_at (paging_of m) ?k (of_nat i)"
      using assms(2) that unfolding created_def by blast
    ultimately show ?thesis by (simp add: private_pde_def kr)
  qed
  then show ?thesis using assms(3) by (auto simp: private_tables_def filter_empty_conv)
qed

text \<open>
  Property C38: \<^verbatim>\<open>vmm_destroy\<close> undoes \<^verbatim>\<open>vmm_create\<close>: the heap blocks, the frames, the pages of the paging pool and
  the locks in use are exactly those from before the creation.
\<close>

theorem vmm_create_destroy_roundtrip:
  assumes "memsys_ok m" and "vmm_create v u m = (0, v', m')" and "vmm_destroy v' m' = (v'', m'')"
  shows "resources m'' = resources m \<and> cr3 v'' = 0 \<and> tree v'' = None"
proof -
  have c: "created m m' v'" using vmm_create_cases [OF assms(1,2)] by simp
  then obtain a b l where C: "tree v' = Some \<lparr>tree_ptr = a, tree_nil = b, regions = []\<rparr>" "vcb_lock v' = Some l"
    "a \<noteq> b" "a \<notin> klive (heaps_of m)" "b \<notin> klive (heaps_of m)" "l \<notin> live_locks (locks_of m)"
    "cr3 v' \<notin> live_slots (paging_of m)" "cr3 v' \<noteq> 0" "aligned (cr3 v')"
    "kheap_ok (heaps_of m')" "klive (heaps_of m') = {a, b} \<union> klive (heaps_of m)" "pmm_of m' = pmm_of m"
    "live_locks (locks_of m') = insert l (live_locks (locks_of m))" "pool_ok (paging_of m')"
    "same_regs (paging_of m) (paging_of m')" "live_slots (paging_of m') = insert (cr3 v') (live_slots (paging_of m))"
    unfolding created_def by blast
  have k: "dir_ok (paging_of m) (kernel_pdir_phys (paging_of m))" using assms(1) by (simp add: memsys_ok_def)
  have kr: "kernel_pdir_phys (paging_of m') = kernel_pdir_phys (paging_of m)" "cr3 v' \<noteq> kernel_pdir_phys (paging_of m)"
    using C(15) c dir_okD(3) [OF k] by (auto simp: created_def same_regs_def)
  let ?pg = "arch_destroy_address_space (cr3 v') (paging_of m')"
  have np: "private_tables (paging_of m') (cr3 v') 960 = []" by (rule created_no_private [OF assms(1) c]) simp
  have "pool_ok ?pg" "live_slots ?pg = live_slots (paging_of m')"
    using destroy_loop [OF C(14,9), of 960] np dir_okD(1) [OF k] kr C(8)
    by (simp_all add: arch_destroy_address_space_def USER_SPACE_TOP_def)
  then have pool: "live_slots (arch_paging_pool_free (cr3 v') ?pg) = live_slots (paging_of m)"
    using pool_free_live(2) [of ?pg "cr3 v'"] C(7,16) by auto
  have heap: "klive (heaps_of (rbtree_destroy (Some \<lparr>tree_ptr = a, tree_nil = b, regions = []\<rparr>) m')) = klive (heaps_of m)"
    using rbtree_destroy_live(1) [OF C(10) _ _ C(3)] C(4,5,11) by auto
  have "live_locks (spinlock_release (Some l) (locks_of m')) = live_locks (locks_of m)"
    using C(6,13) by (auto simp: live_locks_release)
  moreover have "m'' = upd_locks (spinlock_release (Some l)) (upd_paging (arch_paging_pool_free (cr3 v'))
      (upd_paging (arch_destroy_address_space (cr3 v')) (rbtree_destroy (tree v') m')))"
    "v'' = v'\<lparr>tree := None, cr3 := 0\<rparr>"
    using assms(3) C(1,2,8) by (auto simp: vmm_destroy_def Let_def)
  ultimately show ?thesis using pool heap C(1,12) by (simp add: resources_def)
qed

section \<open>Fixed mappings\<close>

text \<open>
  The overlap test of \<^verbatim>\<open>vmm_map_fixed\<close> is exact as long as neither range reaches the top of the address
  space.  A range that ends at the very top wraps to 0, and the test misses the overlap.
\<close>

lemma region_overlap_exact:
  assumes "region_ok r" and "unat vs + unat sz < 4294967296" and "sz \<noteq> 0"
  shows "region_overlap vs sz r \<longleftrightarrow>
    {unat vs..<unat vs + unat sz} \<inter> {unat (start_va r)..<rg_end r} \<noteq> {}"
proof -
  have "region_overlap vs sz r \<longleftrightarrow> unat vs < rg_end r \<and> unat (start_va r) < unat vs + unat sz"
    using assms by (simp add: region_overlap_def region_ok_def word_less_nat_alt unat_add_u32)
  moreover have "0 < unat sz" "0 < unat (rg_size r)" using assms by (simp_all add: region_ok_def unat_gt_0)
  ultimately show ?thesis by auto
qed

lemma region_overlap_wraps: "\<not> region_overlap 0xFFFFF000 0x1000 (r\<lparr>start_va := 0xFFFFF000, rg_size := 0x1000\<rparr>)"
  by (simp add: region_overlap_def)

lemma cap_check_Some:
  "cap_check (Some p) CAP_MAP_MEM (Some (Mem mem)) = 0 \<Longrightarrow> \<exists>c\<in>held p. covers c (Mem mem)"
  using cap_check_iff [of p "Mem mem" CAP_MAP_MEM] by (cases "cap_lock p") (auto simp: cap_check_def)

lemma aligned_and: "aligned a \<longleftrightarrow> a AND (4096 - 1) = 0"
proof -
  have m: "(4096 - 1 :: u32) = mask 12" by (simp add: mask_eq_exp_minus_1)
  have "a AND (4096 - 1) = take_bit 12 a" unfolding m by (rule bit_eqI) (auto simp: bit_simps)
  then have "unat (a AND (4096 - 1)) = unat a mod 4096" by (simp add: take_bit_eq_mod unat_mod)
  then show ?thesis by (simp add: aligned_def unat_eq_u32 [of _ 0])
qed

text \<open>A region apart from all others is inserted in order.\<close>

lemma map_fixed_region:
  assumes "regions_ok rs" and "aligned va" and "aligned sz" and "sz \<noteq> 0" and "unat va + unat sz < 4294967296"
    and "\<forall>r\<in>set rs. \<not> region_overlap va sz r" and "start_va r = va" and "rg_size r = sz"
  shows "regions_ok (region_insert r rs)" and "\<forall>x\<in>set rs. {unat va..<unat va + unat sz} \<inter> {unat (start_va x)..<rg_end x} = {}"
proof -
  show d: "\<forall>x\<in>set rs. {unat va..<unat va + unat sz} \<inter> {unat (start_va x)..<rg_end x} = {}"
    using region_overlap_exact [OF _ assms(5,4)] assms(1,6) unfolding regions_ok_def by blast
  have "region_ok x \<and> 0 < unat (rg_size x)" if "x \<in> set rs" for x
    using assms(1) that by (auto simp: regions_ok_def region_ok_def unat_gt_0)
  moreover have "0 < unat sz" using assms(4) by (simp add: unat_gt_0)
  ultimately have "\<forall>x\<in>set rs. rg_end x \<le> unat va \<or> unat va + unat sz \<le> unat (start_va x)" using d by fastforce
  then show "regions_ok (region_insert r rs)"
    using assms by (intro regions_ok_insert) (auto simp: region_ok_def)
qed

text \<open>
  Property C19: \<^verbatim>\<open>vmm_map_fixed\<close> maps only what the process is entitled to.  If it succeeds on a range that ends below
  the top of the address space, the process holds a memory capability that covers the whole physical range with
  the flags asked for; no address of the range belonged to a region the process had; the range is a new region
  and the regions are still apart and in order; exactly the pages of the range were mapped, each to its page
  of the physical range, and the capabilities of the process are unchanged.  (A range that ends at 4 GB escapes the
  overlap test, see \<^verbatim>\<open>region_overlap_wraps\<close>, so it is left out.)
\<close>

theorem vmm_map_fixed_authorised:
  assumes "vmm_map_fixed (Some p) pa va sz flags own m = (0, Some p', m')"
    and "pool_ok (paging_of m)" and "dir_ok (paging_of m) (cr3 (vcb p))" and "user_dir (paging_of m) (cr3 (vcb p))"
    and "tree (vcb p) \<noteq> None" and "regions_ok (regions_of (vcb p))" and "unat va + unat sz < 4294967296"
  shows "(\<exists>c\<in>held (caps p). covers c (Mem \<lparr>mbase = pa, msize = sz, mflags = flags\<rparr>)) \<and>
    (\<forall>r\<in>set (regions_of (vcb p)). {unat va..<unat va + unat sz} \<inter> {unat (start_va r)..<rg_end r} = {}) \<and>
    (\<exists>node. regions_of (vcb p') = region_insert \<lparr>rg_node = node, start_va = va, rg_size = sz, rg_flags = flags,
       rg_pa = pa, own_phys = own\<rparr> (regions_of (vcb p))) \<and> regions_ok (regions_of (vcb p')) \<and>
    range_mapped (cr3 (vcb p)) va pa flags (unat sz div 4096) (paging_of m) (paging_of m') \<and> caps p' = caps p"
proof -
  from assms(1) have g: "pa AND (4096 - 1) = 0" "va AND (4096 - 1) = 0" "sz AND (4096 - 1) = 0" "sz \<noteq> 0"
    "cap_check (Some (caps p)) CAP_MAP_MEM (Some (Mem \<lparr>mbase = pa, msize = sz, mflags = flags\<rparr>)) = 0"
    by (auto simp: vmm_map_fixed_def Let_def split: if_splits)
  from assms(1) g obtain node m1 where k: "kmalloc_in sizeof_vmm_region m = (Some node, m1)"
    by (auto simp: vmm_map_fixed_def Let_def split: if_splits prod.splits option.splits)
  let ?r = "\<lparr>rg_node = node, start_va = va, rg_size = sz, rg_flags = flags, rg_pa = pa, own_phys = own\<rparr>"
  have R: "(case tree (vcb p) of None \<Rightarrow> [] | Some t \<Rightarrow> regions t) = regions_of (vcb p)" by (simp add: regions_of_def)
  from assms(1) g k have ov: "\<forall>r\<in>set (regions_of (vcb p)). \<not> region_overlap va sz r"
    by (auto simp: vmm_map_fixed_def Let_def R split: if_splits)
  from assms(1) g k ov obtain pg where mp: "map_pages (cr3 (vcb p)) va pa flags (unat (sz div 4096)) (paging_of m1) = Inl pg"
    and r: "m' = m1\<lparr>paging_of := pg\<rparr>" "caps p' = caps p" "vcb p' = tree_insert ?r (vcb p)"
    by (auto simp: vmm_map_fixed_def Let_def R set_vcb_def split: if_splits sum.splits prod.splits)
  have al: "aligned va" "aligned sz" using g(2,3) by (simp_all only: aligned_and)
  then have "4096 * (unat sz div 4096) = unat sz" by (auto simp: aligned_def)
  then have "range_mapped (cr3 (vcb p)) va pa flags (unat sz div 4096) (paging_of m) pg"
    using map_pages_ok [OF assms(2,3), of va "unat sz div 4096" flags "unat sz div 4096" pa pg] mp al(1) assms(7)
      user_dir_reach [OF assms(4)] kmalloc_in_simps(3) [OF k] by (simp add: unat_div)
  moreover have "regions_of (vcb p') = region_insert ?r (regions_of (vcb p))" using assms(5) r(3) by (simp add: regions_of_insert)
  moreover note map_fixed_region [OF assms(6) al g(4) assms(7) ov, of ?r]
  ultimately show ?thesis using cap_check_Some [OF g(5)] r by simp blast
qed

section \<open>Enough resources\<close>

lemma map_4kb_slots:
  assumes "pool_ok s" and "dir_ok s c" and "arch_map_4kb c va pa flags s = (r, s')"
  shows "card (free_slots s) - 1 \<le> card (free_slots s')" and "free_slots s \<noteq> {} \<Longrightarrow> r = 0"
proof -
  have nz: "c \<noteq> 0" using dir_okD [OF assms(2)] by auto
  have fin: "finite (free_slots s)" by (simp add: free_slots_def)
  have "card (free_slots s) - 1 \<le> card (free_slots s') \<and> (free_slots s \<noteq> {} \<longrightarrow> r = 0)"
    using assms(1,2) PD_INDEX_lt [of va]
  proof (cases rule: ensure_table_cases [of s c "PD_INDEX va" "user flags"])
    case full
    then show ?thesis using assms(3) nz by (auto simp: arch_map_4kb_eq)
  next
    case there
    then have "free_slots s' = free_slots s" "r = 0"
      using assms(3) nz by (auto simp: arch_map_4kb_eq intro!: slots_cong)
    then show ?thesis by simp
  next
    case (added t ptl e f)
    then have "free_slots s' = free_slots t" "r = 0"
      using assms(3) nz by (auto simp: arch_map_4kb_eq intro!: slots_cong)
    moreover have "free_slots t = free_slots s - {ptl}" using added(3) by (simp add: installs_def)
    ultimately show ?thesis using card_Diff1_le [of "free_slots s" ptl] diff_card_le_card_Diff [of "{ptl}" "free_slots s"] by simp
  qed
  then show "card (free_slots s) - 1 \<le> card (free_slots s')" "free_slots s \<noteq> {} \<Longrightarrow> r = 0" by auto
qed

lemma map_pages_total:
  assumes "pool_ok pg" and "dir_ok pg c"
  shows "n \<le> card (free_slots pg) \<Longrightarrow>
    \<exists>pg'. map_pages c va pa flags n pg = Inl pg' \<and> pool_ok pg' \<and> dir_ok pg' c \<and> card (free_slots pg) - n \<le> card (free_slots pg')"
proof (induction n)
  case 0
  then show ?case using assms by (simp add: map_pages_def)
next
  case (Suc n)
  then obtain t where t: "map_pages c va pa flags n pg = Inl t" "pool_ok t" "dir_ok t c"
    "card (free_slots pg) - n \<le> card (free_slots t)" by auto
  obtain r s' where m: "arch_map_4kb c (va + of_nat n * 4096) (pa + of_nat n * 4096) flags t = (r, s')" by fastforce
  have "free_slots t \<noteq> {}" using t(4) Suc.prems by auto
  then have "r = 0" using map_4kb_slots(2) [OF t(2,3) m] by simp
  then show ?case
    using m t map_4kb_ok [OF t(2,3) m] map_4kb_slots(1) [OF t(2,3) m] by (auto simp: map_pages_Suc)
qed






lemma vmm_create_succeeds:
  assumes "memsys_ok m" and "room 56 (heaps_of m)" and "free_slots (paging_of m) \<noteq> {}"
    and "live_locks (locks_of m) \<noteq> {..<SPIN_LOCK_MAX_COUNT}"
  shows "\<exists>v' m'. vmm_create v u m = (0, v', m')"
proof -
  obtain r v' m' where c: "vmm_create v u m = (r, v', m')" using prod_cases3 by blast
  obtain lo ls where l: "spinlock_alloc (locks_of m) = (lo, ls)" by fastforce
  have M: "pool_ok (paging_of m)" "pool_inv (locks_of m)" "dir_ok (paging_of m) (kernel_pdir_phys (paging_of m))"
    using assms(1) by (auto simp: memsys_ok_def)
  obtain i where i: "lo = Some i" using live_locks_full(1) [OF M(2)] l assms(4) by (cases lo) auto
  have sz: "unat (req_size sizeof_rbtree) = 24" "unat (req_size sizeof_rbnode) = 32"
    "\<not> HEAP_TOTAL_SIZE < sizeof_rbtree" "\<not> HEAP_TOTAL_SIZE < sizeof_rbnode"
    by (simp_all add: req_size_def aligned_size_def sizeof_rbtree_def sizeof_rbnode_def HEAP_ALIGN_def HEAP_TOTAL_SIZE_def)
  obtain a h1 where a: "kalloc sizeof_rbtree (heaps_of m) = (Some a, h1)" "room 32 h1"
    using room_alloc [OF assms(2), of sizeof_rbtree] sz by auto
  obtain b h2 where b: "kalloc sizeof_rbnode h1 = (Some b, h2)"
    using room_alloc [OF a(2), of sizeof_rbnode] sz by auto
  from M(1) have "r = 0"
  proof (cases rule: pool_alloc_cases)
    case full
    then show ?thesis using assms(3) by simp
  next
    case (page pa pg)
    then have "fst (arch_clone_kernel_pde pa u pg) = pa" by (simp add: arch_clone_kernel_pde_def)
    then show ?thesis
      using c l i a(1) b page(1,3) by (auto simp: vmm_create_def rbtree_create_def kmalloc_in_def Let_def split: prod.splits if_splits)
  qed
  then show ?thesis using c by blast
qed


section \<open>Witnesses\<close>

definition ex_vcb :: vmm_control_block where
  "ex_vcb = \<lparr>tree = Some \<lparr>tree_ptr = 0x1000, tree_nil = 0x2000, regions = []\<rparr>, cr3 = 0x300000, vcb_lock = Some 5\<rparr>"

definition ex_proc :: vproc where
  "ex_proc = \<lparr>caps = \<lparr>cap_lock = Some 6, capabilities = [(0x3000, Mem \<lparr>mbase = 0x5000000, msize = 0x10000, mflags = 7\<rparr>)]\<rparr>,
     vcb = ex_vcb\<rparr>"

lemma ex_memsys:
  "\<exists>m. memsys_ok m \<and> aspace_ok m ex_vcb \<and> room 16000000 (heaps_of m) \<and> pmm_of m = ex_pmm \<and> paging_of m = two_spaces \<and>
     locks_of m = spinlocks"
proof -
  obtain H :: heaps where H: "room 16000000 H" using ex_room by blast
  let ?m = "\<lparr>heaps_of = H, pmm_of = ex_pmm, paging_of = two_spaces, locks_of = spinlocks\<rparr>"
  have "kernel_pdir_phys two_spaces = 0x200000" by (simp add: two_spaces_def)
  then have "memsys_ok ?m"
    using room_ok [OF H] ex_pmm(1) two_spaces_pool two_spaces_dirs(1) by (simp add: memsys_ok_def pool_inv_def spinlocks_def)
  moreover have "aspace_ok ?m ex_vcb"
    using room_ok [OF H] ex_pmm(1) two_spaces_pool two_spaces_dirs(2) by (simp add: aspace_ok_def ex_vcb_def)
  ultimately show ?thesis using H by (intro exI [of _ ?m]) simp
qed

lemma two_spaces_slots: "card (free_slots two_spaces) = PAGING_POOL_SLOTS"
proof -
  have "\<not> slot_used two_spaces i" if "i < PAGING_POOL_SLOTS" for i
    using that by (simp add: slot_used_def two_spaces_def PAGING_POOL_SLOTS_def)
  then have "free_slots two_spaces = slot two_spaces ` {..<PAGING_POOL_SLOTS}" by (auto simp: free_slots_def)
  moreover have "inj_on (slot two_spaces) {..<PAGING_POOL_SLOTS}"
    using slot_inj [OF two_spaces_pool] by (auto simp: inj_on_def)
  ultimately show ?thesis by (simp add: card_image)
qed

lemma two_spaces_user: "user_dir two_spaces 0x300000"
  by (auto simp: user_dir_def two_spaces_pde is_table_def)

lemma ex_regions: "regions_of ex_vcb = []" "cr3 ex_vcb = 0x300000"
  by (simp_all add: ex_vcb_def regions_of_def)


lemma ex_alloc:
  "\<exists>m v' m'. memsys_ok m \<and> aspace_ok m ex_vcb \<and> pmm_of m = ex_pmm \<and> paging_of m = two_spaces \<and>
     vmm_alloc_pages (Some ex_vcb) 3 7 m = (0xD0000000, Some v', m')"
proof -
  obtain m where m: "memsys_ok m" "aspace_ok m ex_vcb" "room 16000000 (heaps_of m)" "pmm_of m = ex_pmm" "paging_of m = two_spaces"
    using ex_memsys by blast
  obtain pa pm where al: "pmm_alloc_pages 3 (pmm_of m) = (pa, pm)" by fastforce
  have pa: "pa \<noteq> 0" using pmm_alloc_pages_run [OF ex_pmm(1) _ al [unfolded m(4)]] ex_run(1) by auto
  have "unat (req_size sizeof_vmm_region) \<le> 16000000" "\<not> HEAP_TOTAL_SIZE < sizeof_vmm_region"
    by (simp_all add: req_size_def aligned_size_def sizeof_vmm_region_def HEAP_ALIGN_def HEAP_TOTAL_SIZE_def)
  then obtain node h where ka: "kalloc sizeof_vmm_region (heaps_of m) = (Some node, h)"
    using room_alloc [OF m(3)] by blast
  have "unat (3 :: u32) \<le> card (free_slots two_spaces)" by (simp add: two_spaces_slots PAGING_POOL_SLOTS_def)
  then obtain pg where mp: "map_pages 0x300000 0xD0000000 pa 7 (unat (3 :: u32)) two_spaces = Inl pg"
    using map_pages_total [OF two_spaces_pool two_spaces_dirs(2)] by blast
  have "\<exists>v' m'. vmm_alloc_pages (Some ex_vcb) 3 7 m = (0xD0000000, Some v', m')"
    using al pa ka mp m(4,5)
    by (simp add: vmm_alloc_pages_def Let_def kmalloc_in_def ex_vcb_def USER_ANON_BASE_def tree_insert_def)
  then show ?thesis using m by blast
qed

theorem vmm_alloc_pages_correct_witness:
  "\<exists>m v' m' pa. paging_of m = two_spaces \<and> vmm_alloc_pages (Some ex_vcb) 3 7 m = (0xD0000000, Some v', m') \<and>
     walk (tables (paging_of m')) 0x300000 0xD0001000 = Some (pa, True, True) \<and> aspace_ok m' v'"
proof -
  obtain m v' m' where m: "aspace_ok m ex_vcb" "paging_of m = two_spaces"
    and c: "vmm_alloc_pages (Some ex_vcb) 3 7 m = (0xD0000000, Some v', m')" using ex_alloc by blast
  from vmm_alloc_pages_correct [OF m(1) _ _ _ c] two_spaces_user
  obtain r where r: "start_va r = 0xD0000000" "pages_added m ex_vcb 3 7 r m' v'" "aspace_ok m' v'"
    by (auto simp: m(2) ex_regions)
  then have "range_mapped 0x300000 0xD0000000 (rg_pa r) 7 3 two_spaces (paging_of m')"
    by (simp add: pages_added_def ex_regions m(2))
  then have "walk (tables (paging_of m')) 0x300000 0xD0001000 = Some ((rg_pa r + 4096) AND PAGE_MASK, True, True)"
    by (auto simp: range_mapped_def dest: spec [of _ "1 :: nat"])
  then show ?thesis using m c r(3) by blast
qed

theorem vmm_alloc_free_roundtrip_witness:
  "\<exists>m v' m' m''. vmm_alloc_pages (Some ex_vcb) 3 7 m = (0xD0000000, Some v', m') \<and>
     vmm_free_pages (Some v') 0xD0000000 m' = (Some ex_vcb, m'') \<and> free_set (pmm_of m'') = {769..<16384}"
proof -
  obtain m v' m' where m: "aspace_ok m ex_vcb" "pmm_of m = ex_pmm" "paging_of m = two_spaces"
    and c: "vmm_alloc_pages (Some ex_vcb) 3 7 m = (0xD0000000, Some v', m')" using ex_alloc by blast
  obtain vo m'' where f: "vmm_free_pages (Some v') 0xD0000000 m' = (vo, m'')" by fastforce
  from vmm_alloc_free_roundtrip [OF m(1) _ _ _ c _ f] two_spaces_user ex_pmm(4) m(2,3)
  show ?thesis using c f by (auto simp: ex_regions)
qed

theorem vmm_alloc_pages_fails_clean_witness:
  "\<exists>m m'. vmm_alloc_pages (Some ex_vcb) 16384 7 m = (0, Some ex_vcb, m') \<and> free_set (pmm_of m') = {769..<16384}"
proof -
  obtain m where m: "aspace_ok m ex_vcb" "pmm_of m = ex_pmm" using ex_memsys by blast
  obtain pa pm where al: "pmm_alloc_pages 16384 (pmm_of m) = (pa, pm)" by fastforce
  have "\<not> run ex_pmm 16384 i" for i
  proof
    assume "run ex_pmm 16384 i"
    then have "i + 16384 \<le> nblocks ex_pmm" "\<forall>j. i \<le> j \<and> j < i + 16384 \<longrightarrow> j \<in> free_set ex_pmm"
      by (auto simp: run_def free_set_def)
    then show False using ex_pmm(2,4) by (auto dest: spec [of _ "0 :: nat"])
  qed
  then have "pa = 0" using pmm_alloc_pages_run [OF ex_pmm(1) _ al [unfolded m(2)]] by (auto split: if_splits)
  then obtain vo m' where c: "vmm_alloc_pages (Some ex_vcb) 16384 7 m = (0, vo, m')"
    using al by (simp add: vmm_alloc_pages_def ex_vcb_def)
  from vmm_alloc_pages_fails_clean [OF m(1) _ c] show ?thesis
    using c m(2) ex_pmm(4) by (auto simp: ex_regions USER_ANON_BASE_def)
qed

lemma ex_create: "\<exists>m v' m'. memsys_ok m \<and> paging_of m = two_spaces \<and> vmm_create ex_vcb True m = (0, v', m')"
proof -
  obtain m where m: "memsys_ok m" "room 16000000 (heaps_of m)" "paging_of m = two_spaces" "locks_of m = spinlocks"
    using ex_memsys by blast
  have "room 56 (heaps_of m)" using room_mono [OF m(2)] by simp
  moreover have "0 \<notin> live_locks spinlocks" "0 < SPIN_LOCK_MAX_COUNT"
    by (simp_all add: live_locks_def spinlocks_def SPIN_LOCK_MAX_COUNT_def)
  then have "live_locks spinlocks \<noteq> {..<SPIN_LOCK_MAX_COUNT}" by blast
  ultimately show ?thesis
    using vmm_create_succeeds [OF m(1), of ex_vcb True] m two_spaces_free(3) by auto
qed

theorem vmm_create_clones_witness:
  "\<exists>m v' m'. vmm_create ex_vcb True m = (0, v', m') \<and>
     walk (tables (paging_of m')) (cr3 v') 0x1234 = Some (0x1234, False, True)"
proof -
  obtain m v' m' where m: "memsys_ok m" "paging_of m = two_spaces" "vmm_create ex_vcb True m = (0, v', m')"
    using ex_create by blast
  have "PD_INDEX 0x1234 = 0" by (simp add: PD_INDEX_def)
  then have "walk (tables two_spaces) 0x200000 0x1234 = Some (0x1234, False, True)"
    by (simp add: walk_def two_spaces_pde)
  moreover have "kernel_pdir_phys two_spaces = 0x200000" by (simp add: two_spaces_def)
  ultimately show ?thesis using vmm_create_clones [OF m(1,3), of "0x1234"] m by auto
qed

theorem vmm_create_destroy_roundtrip_witness:
  "\<exists>m v' m' v'' m''. vmm_create ex_vcb True m = (0, v', m') \<and> vmm_destroy v' m' = (v'', m'') \<and>
     resources m'' = resources m"
proof -
  obtain m v' m' where m: "memsys_ok m" "vmm_create ex_vcb True m = (0, v', m')" using ex_create by blast
  obtain v'' m'' where d: "vmm_destroy v' m' = (v'', m'')" by fastforce
  show ?thesis using vmm_create_destroy_roundtrip [OF m d] m(2) d by blast
qed

theorem vmm_map_fixed_authorised_witness:
  "\<exists>m p' m'. vmm_map_fixed (Some ex_proc) 0x5001000 0xE0000000 0x2000 7 False m = (0, Some p', m') \<and>
     walk (tables (paging_of m')) 0x300000 0xE0001000 = Some (0x5002000, True, True)"
proof -
  obtain m :: memsys where m: "room 16000000 (heaps_of m)" "paging_of m = two_spaces" using ex_memsys by blast
  have "unat (req_size sizeof_vmm_region) \<le> 16000000" "\<not> HEAP_TOTAL_SIZE < sizeof_vmm_region"
    by (simp_all add: req_size_def aligned_size_def sizeof_vmm_region_def HEAP_ALIGN_def HEAP_TOTAL_SIZE_def)
  then obtain node h where ka: "kalloc sizeof_vmm_region (heaps_of m) = (Some node, h)"
    using room_alloc [OF m(1)] by blast
  have "2 \<le> card (free_slots two_spaces)" by (simp add: two_spaces_slots PAGING_POOL_SLOTS_def)
  then obtain pg where mp: "map_pages 0x300000 0xE0000000 0x5001000 7 2 two_spaces = Inl pg"
    using map_pages_total [OF two_spaces_pool two_spaces_dirs(2)] by blast
  have cap: "cap_check (Some (caps ex_proc)) CAP_MAP_MEM (Some (Mem \<lparr>mbase = 0x5001000, msize = 0x2000, mflags = 7\<rparr>)) = 0"
    by (simp add: ex_proc_def cap_check_def cap_mem_check_def)
  have "\<exists>p' m'. vmm_map_fixed (Some ex_proc) 0x5001000 0xE0000000 0x2000 7 False m = (0, Some p', m')"
    using ka mp cap m(2)
    by (simp add: vmm_map_fixed_def Let_def kmalloc_in_def tree_insert_def) (simp add: ex_proc_def ex_vcb_def)
  then obtain p' m' where c: "vmm_map_fixed (Some ex_proc) 0x5001000 0xE0000000 0x2000 7 False m = (0, Some p', m')" by blast
  have "cr3 (vcb ex_proc) = 0x300000" by (simp add: ex_proc_def ex_vcb_def)
  then have "range_mapped 0x300000 0xE0000000 0x5001000 7 2 two_spaces (paging_of m')"
    using vmm_map_fixed_authorised [OF c] two_spaces_pool two_spaces_dirs(2) two_spaces_user m(2)
    by (simp add: ex_proc_def ex_vcb_def regions_of_def)
  then have "walk (tables (paging_of m')) 0x300000 0xE0001000 = Some (0x5002000, True, True)"
    by (auto simp: range_mapped_def PAGE_MASK_def dest: spec [of _ "1 :: nat"])
  then show ?thesis using c by blast
qed

end
