(* ===== verification/Kernel.thy ===== *)
theory Kernel
  imports Vmm
begin

text \<open>
  The kernel's objects and its global state: threads and processes (\<^verbatim>\<open>include/kernel/process.h\<close>),
  task contexts (\<^verbatim>\<open>arch/i386/arch_task.h\<close>), wait queues and semaphores (\<^verbatim>\<open>include/sync\<close>), mails,
  mailboxes and portals (\<^verbatim>\<open>include/ipc\<close>), system calls (\<^verbatim>\<open>include/kernel/syscall.h\<close>) and interrupt lines (\<^verbatim>\<open>include/kernel/irq.h\<close>).

  An object lives at the address the kernel heap returned for it; one store per type maps
  addresses to contents.  An intrusive list is the list of the addresses of its elements in
  the order of \<^verbatim>\<open>list_for_each\<close>, so \<^verbatim>\<open>list_add\<close> at the head is \<open>Cons\<close> and \<^verbatim>\<open>list_del\<close> of an
  element is its removal, which is what \<open>DList\<close> shows of the linked representation.  The address of a
  wait queue that is a member of another object is named by that object.

  The system-call and interrupt gates run with interrupts off on one CPU, so a handler is one
  transition of this state and the locks it takes and returns are not visible outside it.
\<close>

section \<open>Tasks (arch/i386/arch_task.h)\<close>

record regs =
  r_gs :: u32
  r_fs :: u32
  r_es :: u32
  r_ds :: u32
  r_edi :: u32
  r_esi :: u32
  r_ebp :: u32
  r_kesp :: u32
  r_ebx :: u32
  r_edx :: u32
  r_ecx :: u32
  r_eax :: u32
  r_eip :: u32
  r_cs :: u32
  r_eflags :: u32
  r_esp :: u32
  r_ss :: u32

definition sizeof_regs :: u32 where "sizeof_regs = 68"

record arch_task_context =
  ctx_regs :: ptr
  ldts :: "u32 list"
  stack :: ptr
  ring :: u8

record tss =
  tss_ss0 :: u32
  tss_esp0 :: u32
  tss_iobase :: u16

definition TASK_PRIV_KERNEL :: u32 where "TASK_PRIV_KERNEL = 0"
definition TASK_PRIV_USER :: u32 where "TASK_PRIV_USER = 1"

section \<open>Threads and processes (include/kernel/process.h)\<close>

datatype thread_state = TS_NULL | TS_READY | TS_PENDING
datatype proc_state = PS_NULL | PS_READY | PS_PENDING | PS_ZOMBIE

definition PROC_PRIV_KERNEL :: u32 where "PROC_PRIV_KERNEL = 0"
definition PROC_PRIV_USER :: u32 where "PROC_PRIV_USER = 1"

text \<open>The wait queue of the semaphore, or of the mailbox, at an address.\<close>

datatype wq_ref = Sem_wq ptr | Mb_wq ptr

record wait_queue =
  waiters :: "ptr list"
  wq_lock :: "nat option"

record tcb =
  task_ctx :: arch_task_context
  tid :: int
  t_state :: thread_state
  wake_pending :: bool
  t_lock :: "nat option"
  parent :: ptr
  t_param :: ptr
  t_irqs :: "ptr list"
  t_mailbox :: "ptr option"
  waiting_on :: "wq_ref option"

record pcb =
  pid :: int
  p_state :: proc_state
  priv :: u32
  tcbs :: "ptr list"
  p_param :: ptr
  p_lock :: "nat option"
  space :: vproc

definition sizeof_tcb :: u32 where "sizeof_tcb = 96"
definition sizeof_pcb :: u32 where "sizeof_pcb = 60"

section \<open>Semaphores, mails and interrupts\<close>

text \<open>Arithmetic on \<^verbatim>\<open>int\<close> wraps at 32 bits.\<close>

definition c_int :: "int \<Rightarrow> int" where
  "c_int v = sint (word_of_int v :: u32)"

lemma c_int_id: "- 2147483648 \<le> v \<Longrightarrow> v < 2147483648 \<Longrightarrow> c_int v = v"
  using signed_take_bit_int_eq_self [of 31 v] by (simp add: c_int_def signed_of_int)

record semaphore =
  sem_id :: int
  sem_value :: int

definition sizeof_semaphore :: u32 where "sizeof_semaphore = 28"

record mail =
  m_magic :: u32
  sender_tid :: int
  receiver_tid :: int
  m_data :: "u8 list"
  data_size :: u32

record mailmeta =
  unique_id :: u32
  ref_count :: int
  payload :: ptr
  meta_lock :: "nat option"

record mailbox =
  owner_pid :: int
  owner_tid :: int
  subscriptions :: "u32 list"
  mb_lock :: "nat option"
  mails :: "ptr list"
  handlers :: "(ptr \<times> ptr) list"

definition MAX_SUBSCRIPTION_COUNT :: nat where "MAX_SUBSCRIPTION_COUNT = 16"
definition MAIL_ANY_TID :: int where "MAIL_ANY_TID = -0xcd"

definition sizeof_mail :: u32 where "sizeof_mail = 272"
definition sizeof_mailmeta :: u32 where "sizeof_mailmeta = 32"
definition sizeof_mailhandler :: u32 where "sizeof_mailhandler = 12"
definition sizeof_mailbox :: u32 where "sizeof_mailbox = 104"

record irq =
  irq_name :: ptr
  irq_context :: ptr
  major :: u32
  minor :: u32
  enabled :: bool
  is_user_irq :: bool
  irq_tid :: int
  irq_owner :: "ptr option"
  irq_lock :: "nat option"
  irq_handler :: ptr

record irqline =
  line_major :: u32
  line_enabled :: bool
  line_lock :: "nat option"
  line_irqs :: "ptr list"

definition sizeof_irq :: u32 where "sizeof_irq = 56"
definition sizeof_irqline :: u32 where "sizeof_irqline = 20"

record portal =
  po_id :: u32
  po_pid :: int
  po_tid :: int
  po_reqs :: "ptr list"
  req_sem :: "ptr option"

record portal_req =
  client_id :: u32
  server_pid :: int
  shm_va :: u32
  shm_size :: u32
  dequeued :: bool
  done_sem :: "ptr option"
  resp_ret :: int

definition sizeof_portal :: u32 where "sizeof_portal = 32"
definition sizeof_portal_req :: u32 where "sizeof_portal_req = 44"

text \<open>A registered system call: its number, the address of its handler and the size of its parameter.\<close>

record syscall =
  sc_handle :: int
  sc_fn :: ptr
  max_param_size :: u32

definition sizeof_syscall :: u32 where "sizeof_syscall = 20"

text \<open>The mask registers of the two interrupt controllers, behind ports 0x21 and 0xA1.\<close>

record pic =
  imr_master :: u8
  imr_slave :: u8

section \<open>Zeroed objects\<close>

text \<open>What \<^verbatim>\<open>kmalloc\<close> and \<^verbatim>\<open>memset\<close> leave in a fresh object.\<close>

definition null_context :: arch_task_context where
  "null_context = \<lparr>ctx_regs = 0, ldts = replicate 4 0, stack = 0, ring = 0\<rparr>"

definition null_tcb :: tcb where
  "null_tcb = \<lparr>task_ctx = null_context, tid = 0, t_state = TS_NULL, wake_pending = False, t_lock = None, parent = 0,
     t_param = 0, t_irqs = [], t_mailbox = None, waiting_on = None\<rparr>"

definition null_pcb :: pcb where
  "null_pcb = \<lparr>pid = 0, p_state = PS_NULL, priv = 0, tcbs = [], p_param = 0, p_lock = None,
     space = \<lparr>caps = \<lparr>cap_lock = None, capabilities = []\<rparr>,
              vcb = \<lparr>tree = None, cr3 = 0, vcb_lock = None\<rparr>\<rparr>\<rparr>"

definition null_mail :: mail where
  "null_mail = \<lparr>m_magic = 0, sender_tid = 0, receiver_tid = 0, m_data = replicate 256 0, data_size = 0\<rparr>"

definition null_meta :: mailmeta where
  "null_meta = \<lparr>unique_id = 0, ref_count = 0, payload = 0, meta_lock = None\<rparr>"

definition null_mailbox :: mailbox where
  "null_mailbox = \<lparr>owner_pid = 0, owner_tid = 0, subscriptions = replicate MAX_SUBSCRIPTION_COUNT 0,
     mb_lock = None, mails = [], handlers = []\<rparr>"

section \<open>The state\<close>

text \<open>
  \<open>switch_vcb\<close> and \<open>switch_ctx\<close> are the pending switch \<^verbatim>\<open>thread_ctx_info\<close>: the process whose
  \<^verbatim>\<open>vcb\<close> and the thread whose \<^verbatim>\<open>context\<close> it points at.  \<open>curr_task_ctx\<close> is the thread whose context
  the CPU restores.  \<open>calls\<close> records the kernel callbacks (mail handlers and interrupt handlers) that
  were called, with their argument, latest first.
\<close>

record kernel =
  mem :: memsys
  frames :: "ptr \<Rightarrow> regs"
  g_tss :: tss
  gdt :: "64 word list"
  curr_task_ctx :: "ptr option"
  tcb_at :: "ptr \<Rightarrow> tcb"
  pcb_at :: "ptr \<Rightarrow> pcb"
  thread_head :: "ptr list"
  proc_head :: "ptr list"
  thread_run :: "ptr option"
  switch_vcb :: "ptr option"
  switch_ctx :: "ptr option"
  next_tid :: u32
  next_pid :: u32
  timeslice :: u32
  schedule_lock :: "nat option"
  wq_at :: "wq_ref \<Rightarrow> wait_queue"
  sem_at :: "ptr \<Rightarrow> semaphore"
  semaphore_head :: "ptr list"
  next_sem :: i32
  mail_at :: "ptr \<Rightarrow> mail"
  meta_at :: "ptr \<Rightarrow> mailmeta"
  inflight :: "ptr list"
  next_mail :: u32
  mb_at :: "ptr \<Rightarrow> mailbox"
  irq_at :: "ptr \<Rightarrow> irq"
  line_at :: "ptr \<Rightarrow> irqline"
  irqlines :: "nat \<Rightarrow> ptr option"
  pic_of :: pic
  portal_at :: "ptr \<Rightarrow> portal"
  req_at :: "ptr \<Rightarrow> portal_req"
  portal_header :: "ptr list"
  portal_next_id :: u32
  syscall_at :: "ptr \<Rightarrow> syscall"
  syscall_header :: "ptr list"
  calls :: "(ptr \<times> ptr) list"

definition set_tcb :: "ptr \<Rightarrow> (tcb \<Rightarrow> tcb) \<Rightarrow> kernel \<Rightarrow> kernel" where
  "set_tcb t f s = s\<lparr>tcb_at := (tcb_at s)(t := f (tcb_at s t))\<rparr>"

definition set_pcb :: "ptr \<Rightarrow> (pcb \<Rightarrow> pcb) \<Rightarrow> kernel \<Rightarrow> kernel" where
  "set_pcb p f s = s\<lparr>pcb_at := (pcb_at s)(p := f (pcb_at s p))\<rparr>"

definition set_wq :: "wq_ref \<Rightarrow> (wait_queue \<Rightarrow> wait_queue) \<Rightarrow> kernel \<Rightarrow> kernel" where
  "set_wq q f s = s\<lparr>wq_at := (wq_at s)(q := f (wq_at s q))\<rparr>"

definition set_mb :: "ptr \<Rightarrow> (mailbox \<Rightarrow> mailbox) \<Rightarrow> kernel \<Rightarrow> kernel" where
  "set_mb b f s = s\<lparr>mb_at := (mb_at s)(b := f (mb_at s b))\<rparr>"

definition set_meta :: "ptr \<Rightarrow> (mailmeta \<Rightarrow> mailmeta) \<Rightarrow> kernel \<Rightarrow> kernel" where
  "set_meta b f s = s\<lparr>meta_at := (meta_at s)(b := f (meta_at s b))\<rparr>"

definition set_irq :: "ptr \<Rightarrow> (irq \<Rightarrow> irq) \<Rightarrow> kernel \<Rightarrow> kernel" where
  "set_irq b f s = s\<lparr>irq_at := (irq_at s)(b := f (irq_at s b))\<rparr>"

definition set_line :: "ptr \<Rightarrow> (irqline \<Rightarrow> irqline) \<Rightarrow> kernel \<Rightarrow> kernel" where
  "set_line b f s = s\<lparr>line_at := (line_at s)(b := f (line_at s b))\<rparr>"

text \<open>Allocation in the composed state.\<close>

definition kmalloc_k :: "u32 \<Rightarrow> kernel \<Rightarrow> ptr option \<times> kernel" where
  "kmalloc_k n s = (let (p, m) = kmalloc_in n (mem s) in (p, s\<lparr>mem := m\<rparr>))"

definition kfree_k :: "ptr \<Rightarrow> kernel \<Rightarrow> kernel" where
  "kfree_k p s = s\<lparr>mem := kfree_in p (mem s)\<rparr>"

definition lock_alloc_k :: "kernel \<Rightarrow> nat option \<times> kernel" where
  "lock_alloc_k s = (let (l, ls) = spinlock_alloc (locks_of (mem s)) in (l, s\<lparr>mem := (mem s)\<lparr>locks_of := ls\<rparr>\<rparr>))"

definition lock_release_k :: "nat option \<Rightarrow> kernel \<Rightarrow> kernel" where
  "lock_release_k l s = s\<lparr>mem := upd_locks (spinlock_release l) (mem s)\<rparr>"

text \<open>\<^verbatim>\<open>list_del\<close> of a node of a kernel list.\<close>

definition list_remove :: "'a \<Rightarrow> 'a list \<Rightarrow> 'a list" where
  "list_remove x xs = filter (\<lambda>y. y \<noteq> x) xs"

section \<open>The state before initialisation\<close>

definition boot_kernel :: "memsys \<Rightarrow> kernel" where
  "boot_kernel m = \<lparr>mem = m, frames = (\<lambda>_. \<lparr>r_gs = 0, r_fs = 0, r_es = 0, r_ds = 0, r_edi = 0, r_esi = 0, r_ebp = 0, r_kesp = 0,
       r_ebx = 0, r_edx = 0, r_ecx = 0, r_eax = 0, r_eip = 0, r_cs = 0, r_eflags = 0, r_esp = 0, r_ss = 0\<rparr>),
     g_tss = \<lparr>tss_ss0 = 0, tss_esp0 = 0, tss_iobase = 0\<rparr>, gdt = replicate 255 0, curr_task_ctx = None,
     tcb_at = (\<lambda>_. null_tcb), pcb_at = (\<lambda>_. null_pcb), thread_head = [], proc_head = [], thread_run = None,
     switch_vcb = None, switch_ctx = None, next_tid = 0, next_pid = 0, timeslice = 0, schedule_lock = None,
     wq_at = (\<lambda>_. \<lparr>waiters = [], wq_lock = None\<rparr>), sem_at = (\<lambda>_. \<lparr>sem_id = 0, sem_value = 0\<rparr>), semaphore_head = [],
     next_sem = 0, mail_at = (\<lambda>_. null_mail), meta_at = (\<lambda>_. null_meta), inflight = [], next_mail = 0,
     mb_at = (\<lambda>_. null_mailbox),
     irq_at = (\<lambda>_. \<lparr>irq_name = 0, irq_context = 0, major = 0, minor = 0, enabled = False, is_user_irq = False, irq_tid = 0,
       irq_owner = None, irq_lock = None, irq_handler = 0\<rparr>),
     line_at = (\<lambda>_. \<lparr>line_major = 0, line_enabled = False, line_lock = None, line_irqs = []\<rparr>), irqlines = (\<lambda>_. None),
     pic_of = \<lparr>imr_master = 0xff, imr_slave = 0xff\<rparr>,
     portal_at = (\<lambda>_. \<lparr>po_id = 0, po_pid = 0, po_tid = 0, po_reqs = [], req_sem = None\<rparr>),
     req_at = (\<lambda>_. \<lparr>client_id = 0, server_pid = 0, shm_va = 0, shm_size = 0, dequeued = False, done_sem = None, resp_ret = 0\<rparr>),
     portal_header = [], portal_next_id = 2, syscall_at = (\<lambda>_. \<lparr>sc_handle = 0, sc_fn = 0, max_param_size = 0\<rparr>),
     syscall_header = [], calls = []\<rparr>"

text \<open>
  A small running system for examples: process 1 at 0x10 with threads 0 and 1, process 2 at 0x20 with
  thread 2; thread 0 runs.
\<close>

definition demo_tcb :: "int \<Rightarrow> ptr \<Rightarrow> tcb" where
  "demo_tcb n p = null_tcb\<lparr>tid := n, t_state := TS_READY, parent := p, t_lock := Some (nat n), t_mailbox := Some (0x1000 + of_int n)\<rparr>"

definition demo_pcb :: "int \<Rightarrow> ptr list \<Rightarrow> u32 \<Rightarrow> pcb" where
  "demo_pcb n ts c = null_pcb\<lparr>pid := n, p_state := PS_READY, tcbs := ts, p_lock := Some (nat n + 3),
     space := (space null_pcb)\<lparr>vcb := (vcb (space null_pcb))\<lparr>cr3 := c\<rparr>\<rparr>\<rparr>"

definition demo :: "memsys \<Rightarrow> kernel" where
  "demo m = (boot_kernel (m\<lparr>paging_of := (paging_of m)\<lparr>cpu_cr3 := 0x4000\<rparr>\<rparr>))\<lparr>
     tcb_at := (\<lambda>_. null_tcb)(0x100 := demo_tcb 0 0x10, 0x200 := demo_tcb 1 0x10, 0x300 := demo_tcb 2 0x20),
     pcb_at := (\<lambda>_. null_pcb)(0x10 := demo_pcb 1 [0x200, 0x100] 0x4000, 0x20 := demo_pcb 2 [0x300] 0x5000),
     thread_head := [0x300, 0x200, 0x100], proc_head := [0x20, 0x10], thread_run := Some 0x100, curr_task_ctx := Some 0x100,
     next_tid := 3, next_pid := 3\<rparr>"

section \<open>Fields after an update\<close>

lemma set_tcb_fields [simp]:
  "mem (set_tcb p f s) = mem s" "curr_task_ctx (set_tcb p f s) = curr_task_ctx s"
  "thread_head (set_tcb p f s) = thread_head s" "proc_head (set_tcb p f s) = proc_head s"
  "thread_run (set_tcb p f s) = thread_run s" "switch_vcb (set_tcb p f s) = switch_vcb s"
  "switch_ctx (set_tcb p f s) = switch_ctx s" "schedule_lock (set_tcb p f s) = schedule_lock s"
  "next_tid (set_tcb p f s) = next_tid s" "next_pid (set_tcb p f s) = next_pid s"
  "semaphore_head (set_tcb p f s) = semaphore_head s" "inflight (set_tcb p f s) = inflight s"
  "pcb_at (set_tcb p f s) = pcb_at s" "wq_at (set_tcb p f s) = wq_at s" "mb_at (set_tcb p f s) = mb_at s"
  "meta_at (set_tcb p f s) = meta_at s" "irq_at (set_tcb p f s) = irq_at s" "line_at (set_tcb p f s) = line_at s"
  "sem_at (set_tcb p f s) = sem_at s" "mail_at (set_tcb p f s) = mail_at s" "irqlines (set_tcb p f s) = irqlines s"
  "tcb_at (set_tcb p f s) = (tcb_at s)(p := f (tcb_at s p))"
  by (simp_all add: set_tcb_def)

lemma set_pcb_fields [simp]:
  "mem (set_pcb p f s) = mem s" "curr_task_ctx (set_pcb p f s) = curr_task_ctx s"
  "thread_head (set_pcb p f s) = thread_head s" "proc_head (set_pcb p f s) = proc_head s"
  "thread_run (set_pcb p f s) = thread_run s" "switch_vcb (set_pcb p f s) = switch_vcb s"
  "switch_ctx (set_pcb p f s) = switch_ctx s" "schedule_lock (set_pcb p f s) = schedule_lock s"
  "next_tid (set_pcb p f s) = next_tid s" "next_pid (set_pcb p f s) = next_pid s"
  "semaphore_head (set_pcb p f s) = semaphore_head s" "inflight (set_pcb p f s) = inflight s"
  "tcb_at (set_pcb p f s) = tcb_at s" "wq_at (set_pcb p f s) = wq_at s" "mb_at (set_pcb p f s) = mb_at s"
  "meta_at (set_pcb p f s) = meta_at s" "irq_at (set_pcb p f s) = irq_at s" "line_at (set_pcb p f s) = line_at s"
  "sem_at (set_pcb p f s) = sem_at s" "mail_at (set_pcb p f s) = mail_at s" "irqlines (set_pcb p f s) = irqlines s"
  "pcb_at (set_pcb p f s) = (pcb_at s)(p := f (pcb_at s p))"
  by (simp_all add: set_pcb_def)

lemma set_wq_fields [simp]:
  "mem (set_wq p f s) = mem s" "curr_task_ctx (set_wq p f s) = curr_task_ctx s"
  "thread_head (set_wq p f s) = thread_head s" "proc_head (set_wq p f s) = proc_head s"
  "thread_run (set_wq p f s) = thread_run s" "switch_vcb (set_wq p f s) = switch_vcb s"
  "switch_ctx (set_wq p f s) = switch_ctx s" "schedule_lock (set_wq p f s) = schedule_lock s"
  "next_tid (set_wq p f s) = next_tid s" "next_pid (set_wq p f s) = next_pid s"
  "semaphore_head (set_wq p f s) = semaphore_head s" "inflight (set_wq p f s) = inflight s"
  "tcb_at (set_wq p f s) = tcb_at s" "pcb_at (set_wq p f s) = pcb_at s" "mb_at (set_wq p f s) = mb_at s"
  "meta_at (set_wq p f s) = meta_at s" "irq_at (set_wq p f s) = irq_at s" "line_at (set_wq p f s) = line_at s"
  "sem_at (set_wq p f s) = sem_at s" "mail_at (set_wq p f s) = mail_at s" "irqlines (set_wq p f s) = irqlines s"
  "wq_at (set_wq p f s) = (wq_at s)(p := f (wq_at s p))"
  by (simp_all add: set_wq_def)

lemma set_mb_fields [simp]:
  "mem (set_mb p f s) = mem s" "curr_task_ctx (set_mb p f s) = curr_task_ctx s"
  "thread_head (set_mb p f s) = thread_head s" "proc_head (set_mb p f s) = proc_head s"
  "thread_run (set_mb p f s) = thread_run s" "switch_vcb (set_mb p f s) = switch_vcb s"
  "switch_ctx (set_mb p f s) = switch_ctx s" "schedule_lock (set_mb p f s) = schedule_lock s"
  "next_tid (set_mb p f s) = next_tid s" "next_pid (set_mb p f s) = next_pid s"
  "semaphore_head (set_mb p f s) = semaphore_head s" "inflight (set_mb p f s) = inflight s"
  "tcb_at (set_mb p f s) = tcb_at s" "pcb_at (set_mb p f s) = pcb_at s" "wq_at (set_mb p f s) = wq_at s"
  "meta_at (set_mb p f s) = meta_at s" "irq_at (set_mb p f s) = irq_at s" "line_at (set_mb p f s) = line_at s"
  "sem_at (set_mb p f s) = sem_at s" "mail_at (set_mb p f s) = mail_at s" "irqlines (set_mb p f s) = irqlines s"
  "mb_at (set_mb p f s) = (mb_at s)(p := f (mb_at s p))"
  by (simp_all add: set_mb_def)

lemma set_meta_fields [simp]:
  "mem (set_meta p f s) = mem s" "curr_task_ctx (set_meta p f s) = curr_task_ctx s"
  "thread_head (set_meta p f s) = thread_head s" "proc_head (set_meta p f s) = proc_head s"
  "thread_run (set_meta p f s) = thread_run s" "switch_vcb (set_meta p f s) = switch_vcb s"
  "switch_ctx (set_meta p f s) = switch_ctx s" "schedule_lock (set_meta p f s) = schedule_lock s"
  "next_tid (set_meta p f s) = next_tid s" "next_pid (set_meta p f s) = next_pid s"
  "semaphore_head (set_meta p f s) = semaphore_head s" "inflight (set_meta p f s) = inflight s"
  "tcb_at (set_meta p f s) = tcb_at s" "pcb_at (set_meta p f s) = pcb_at s" "wq_at (set_meta p f s) = wq_at s"
  "mb_at (set_meta p f s) = mb_at s" "irq_at (set_meta p f s) = irq_at s" "line_at (set_meta p f s) = line_at s"
  "sem_at (set_meta p f s) = sem_at s" "mail_at (set_meta p f s) = mail_at s"
  "irqlines (set_meta p f s) = irqlines s" "meta_at (set_meta p f s) = (meta_at s)(p := f (meta_at s p))"
  by (simp_all add: set_meta_def)

lemma set_irq_fields [simp]:
  "mem (set_irq p f s) = mem s" "curr_task_ctx (set_irq p f s) = curr_task_ctx s"
  "thread_head (set_irq p f s) = thread_head s" "proc_head (set_irq p f s) = proc_head s"
  "thread_run (set_irq p f s) = thread_run s" "switch_vcb (set_irq p f s) = switch_vcb s"
  "switch_ctx (set_irq p f s) = switch_ctx s" "schedule_lock (set_irq p f s) = schedule_lock s"
  "next_tid (set_irq p f s) = next_tid s" "next_pid (set_irq p f s) = next_pid s"
  "semaphore_head (set_irq p f s) = semaphore_head s" "inflight (set_irq p f s) = inflight s"
  "tcb_at (set_irq p f s) = tcb_at s" "pcb_at (set_irq p f s) = pcb_at s" "wq_at (set_irq p f s) = wq_at s"
  "mb_at (set_irq p f s) = mb_at s" "meta_at (set_irq p f s) = meta_at s" "line_at (set_irq p f s) = line_at s"
  "sem_at (set_irq p f s) = sem_at s" "mail_at (set_irq p f s) = mail_at s" "irqlines (set_irq p f s) = irqlines s"
  "irq_at (set_irq p f s) = (irq_at s)(p := f (irq_at s p))"
  by (simp_all add: set_irq_def)

lemma set_line_fields [simp]:
  "mem (set_line p f s) = mem s" "curr_task_ctx (set_line p f s) = curr_task_ctx s"
  "thread_head (set_line p f s) = thread_head s" "proc_head (set_line p f s) = proc_head s"
  "thread_run (set_line p f s) = thread_run s" "switch_vcb (set_line p f s) = switch_vcb s"
  "switch_ctx (set_line p f s) = switch_ctx s" "schedule_lock (set_line p f s) = schedule_lock s"
  "next_tid (set_line p f s) = next_tid s" "next_pid (set_line p f s) = next_pid s"
  "semaphore_head (set_line p f s) = semaphore_head s" "inflight (set_line p f s) = inflight s"
  "tcb_at (set_line p f s) = tcb_at s" "pcb_at (set_line p f s) = pcb_at s" "wq_at (set_line p f s) = wq_at s"
  "mb_at (set_line p f s) = mb_at s" "meta_at (set_line p f s) = meta_at s" "irq_at (set_line p f s) = irq_at s"
  "sem_at (set_line p f s) = sem_at s" "mail_at (set_line p f s) = mail_at s"
  "irqlines (set_line p f s) = irqlines s" "line_at (set_line p f s) = (line_at s)(p := f (line_at s p))"
  by (simp_all add: set_line_def)

end
