(* ===== verification/Task.thy ===== *)
theory Task
  imports Kernel
begin

text \<open>
  Segment descriptors (\<^verbatim>\<open>arch/i386/protm.c\<close>) and task contexts (\<^verbatim>\<open>arch/i386/task.c\<close>): the initial stack and
  frame of a thread, their release, and the switch of \<^verbatim>\<open>curr_task_ctx\<close>, the TSS and the LDT to a thread.
\<close>

section \<open>Segment descriptors\<close>

datatype arch_seltype = SYS_CODE | SYS_DATA | USER_CODE | USER_DATA | TSS | LDT

fun sel_no :: "arch_seltype \<Rightarrow> nat" where
  "sel_no SYS_CODE = 1"
| "sel_no SYS_DATA = 2"
| "sel_no USER_CODE = 3"
| "sel_no USER_DATA = 4"
| "sel_no TSS = 5"
| "sel_no LDT = 6"

definition SELTYPE_START :: nat where "SELTYPE_START = 1"
definition SELTYPE_END :: nat where "SELTYPE_END = 6"
definition GDT_MAX_COUNT :: nat where "GDT_MAX_COUNT = 255"

definition arch_gen_desc :: "u32 \<Rightarrow> u32 \<Rightarrow> u16 \<Rightarrow> 64 word" where
  "arch_gen_desc base limit flags =
     (let desc = (ucast (limit AND 0x000f0000) :: 64 word);
          desc = desc OR ucast (push_bit 8 (ucast flags :: u32) AND 0x00f0ff00);
          desc = desc OR ucast (drop_bit 16 base AND 0x000000ff);
          desc = desc OR ucast (base AND 0xff000000);
          desc = push_bit 32 desc;
          desc = desc OR ucast (push_bit 16 base);
          desc = desc OR ucast (limit AND 0x0000ffff)
      in desc)"

definition add_seg :: "u32 \<Rightarrow> u32 \<Rightarrow> u16 \<Rightarrow> 64 word list \<Rightarrow> u16 \<times> 64 word list" where
  "add_seg base limit flags g =
     (case for_brk [1..<GDT_MAX_COUNT]
             (\<lambda>i g. if g ! i = 0 then Inr (of_nat (i * 8), g[i := arch_gen_desc base limit flags]) else Inl g) g of
        Inl g \<Rightarrow> (0, g) | Inr r \<Rightarrow> r)"

definition arch_get_sel :: "arch_seltype \<Rightarrow> u16" where
  "arch_get_sel type = of_nat (8 * sel_no type)"

definition arch_get_desc :: "arch_seltype \<Rightarrow> 64 word list \<Rightarrow> 64 word" where
  "arch_get_desc type g =
     (if sel_no type < SELTYPE_START \<or> sel_no type > SELTYPE_END then of_int E_INVAL else g ! sel_no type)"

definition arch_set_desc :: "arch_seltype \<Rightarrow> 64 word \<Rightarrow> 64 word list \<Rightarrow> int \<times> 64 word list" where
  "arch_set_desc type val g =
     (if sel_no type < SELTYPE_START \<or> sel_no type > SELTYPE_END then (E_INVAL, g) else (0, g[sel_no type := val]))"

section \<open>The task-state segment\<close>

text \<open>\<open>tss_addr\<close> is the address of \<^verbatim>\<open>g_tss\<close>; \<^verbatim>\<open>sizeof(tss)\<close> is 104.\<close>

definition tss_init :: "u32 \<Rightarrow> kernel \<Rightarrow> kernel" where
  "tss_init tss_addr s =
     (let s = s\<lparr>g_tss := \<lparr>tss_ss0 = ucast (arch_get_sel SYS_DATA), tss_esp0 = 0, tss_iobase = 104\<rparr>\<rparr>
      in s\<lparr>gdt := snd (arch_set_desc TSS (arch_gen_desc tss_addr 104 0x89) (gdt s))\<rparr>)"

text \<open>\<^verbatim>\<open>context->ldts\<close> of the thread at \<open>t\<close>: the context is the first member of the thread, the
  descriptors its second word.\<close>

definition ldt_reload :: "ptr option \<Rightarrow> kernel \<Rightarrow> kernel" where
  "ldt_reload co s =
     (case co of
        None \<Rightarrow> s
      | Some t \<Rightarrow> s\<lparr>gdt := snd (arch_set_desc LDT (arch_gen_desc (t + 4) (2 * 8) 0x0082) (gdt s))\<rparr>)"

section \<open>Task contexts\<close>

definition set_ctx :: "ptr \<Rightarrow> (arch_task_context \<Rightarrow> arch_task_context) \<Rightarrow> kernel \<Rightarrow> kernel" where
  "set_ctx t f = set_tcb t (\<lambda>x. x\<lparr>task_ctx := f (task_ctx x)\<rparr>)"

definition vcb_of :: "kernel \<Rightarrow> ptr \<Rightarrow> vmm_control_block" where
  "vcb_of s p = vcb (space (pcb_at s p))"

definition put_vcb :: "ptr \<Rightarrow> vmm_control_block \<Rightarrow> memsys \<Rightarrow> kernel \<Rightarrow> kernel" where
  "put_vcb p v m s = (set_pcb p (\<lambda>q. q\<lparr>space := (space q)\<lparr>vcb := v\<rparr>\<rparr>) s)\<lparr>mem := m\<rparr>"

definition vmm_alloc_pages_k :: "ptr \<Rightarrow> u32 \<Rightarrow> u32 \<Rightarrow> kernel \<Rightarrow> u32 \<times> kernel" where
  "vmm_alloc_pages_k p n flags s =
     (let (va, vo, m) = vmm_alloc_pages (Some (vcb_of s p)) n flags (mem s) in (va, put_vcb p (the vo) m s))"

definition vmm_free_pages_k :: "ptr \<Rightarrow> u32 \<Rightarrow> kernel \<Rightarrow> kernel" where
  "vmm_free_pages_k p va s =
     (let (vo, m) = vmm_free_pages (Some (vcb_of s p)) va (mem s) in put_vcb p (the vo) m s)"

definition first_frame :: "u8 \<Rightarrow> u32 \<Rightarrow> ptr \<Rightarrow> regs \<Rightarrow> regs" where
  "first_frame rg entry_pc st f = f\<lparr>
     r_cs := 0x0 OR 0x4 OR ucast rg, r_gs := 0x8 OR 0x4 OR ucast rg, r_fs := 0x8 OR 0x4 OR ucast rg,
     r_es := 0x8 OR 0x4 OR ucast rg, r_ds := 0x8 OR 0x4 OR ucast rg, r_ss := 0x8 OR 0x4 OR ucast rg,
     r_eip := entry_pc, r_esp := st + 0x1000 - sizeof_regs, r_eflags := 0x0202\<rparr>"

definition arch_task_context_init :: "ptr option \<Rightarrow> ptr option \<Rightarrow> u32 \<Rightarrow> u32 \<Rightarrow> kernel \<Rightarrow> int \<times> kernel" where
  "arch_task_context_init vo co entry_pc pv s =
     (let rg = (if pv = TASK_PRIV_KERNEL then 0 else 3) in
      case (vo, co) of
        (Some p, Some t) \<Rightarrow>
          let s = set_ctx t (\<lambda>c. c\<lparr>ldts := [0x0000ffff, 0x00cf9a00 OR push_bit 13 (ucast rg),
                                           0x0000ffff, 0x00cf9200 OR push_bit 13 (ucast rg)]\<rparr>) s;
              (st, s) = (if rg \<noteq> 0 then vmm_alloc_pages_k p 1 PTE_USER_PAGE s
                         else case kmalloc_k 0x1000 s of (None, s) \<Rightarrow> (0, s) | (Some a, s) \<Rightarrow> (a, s));
              s = set_ctx t (\<lambda>c. c\<lparr>stack := st\<rparr>) s in
          if st = 0 then (E_NOMEM, s)
          else let s = set_ctx t (\<lambda>c. c\<lparr>ctx_regs := st + 0x1000 - sizeof_regs\<rparr>) s;
                   stack_pa = (if rg \<noteq> 0 then vmm_vcb_va_to_pa (Some (vcb_of s p)) st else st) in
          if rg \<noteq> 0 \<and> stack_pa = 0 then (E_NOMEM, set_ctx t (\<lambda>c. c\<lparr>stack := 0\<rparr>) (vmm_free_pages_k p st s))
          else let frame = stack_pa + 0x1000 - sizeof_regs;
                   s = s\<lparr>frames := (frames s)(frame := first_frame rg entry_pc st (frames s frame))\<rparr>
               in (0, set_ctx t (\<lambda>c. c\<lparr>ring := rg\<rparr>) s)
      | _ \<Rightarrow> (E_INVAL, s))"

definition arch_task_context_release :: "ptr option \<Rightarrow> ptr option \<Rightarrow> kernel \<Rightarrow> kernel" where
  "arch_task_context_release vo co s =
     (case (vo, co) of
        (Some p, Some t) \<Rightarrow>
          let c = task_ctx (tcb_at s t);
              s = (if stack c \<noteq> 0
                   then if ring c \<noteq> 0 then vmm_free_pages_k p (stack c) s else kfree_k (stack c) s
                   else s)
          in set_ctx t (\<lambda>_. null_context) s
      | _ \<Rightarrow> s)"

definition arch_task_restore_context :: "ptr option \<Rightarrow> kernel \<Rightarrow> int \<times> kernel" where
  "arch_task_restore_context co s =
     (case co of
        None \<Rightarrow> (E_INVAL, s)
      | Some t \<Rightarrow>
          let c = task_ctx (tcb_at s t);
              s = (if ring c \<noteq> 0 then s\<lparr>g_tss := (g_tss s)\<lparr>tss_esp0 := ctx_regs c + sizeof_regs\<rparr>\<rparr> else s);
              s = s\<lparr>curr_task_ctx := co\<rparr>
          in (0, ldt_reload (curr_task_ctx s) s))"

section \<open>The directory register\<close>

text \<open>Releasing memory never changes which directory the CPU uses, nor which one a process owns.\<close>

lemma cpu_cr3_pool_free [simp]: "cpu_cr3 (arch_paging_pool_free p s) = cpu_cr3 s"
  by (auto simp: arch_paging_pool_free_def Let_def)

lemma cpu_cr3_unmap [simp]: "cpu_cr3 (arch_unmap_4kb c va s) = cpu_cr3 s"
  by (auto simp: arch_unmap_4kb_def Let_def split: option.splits)

lemma cpu_cr3_unmap_pages [simp]: "cpu_cr3 (unmap_pages c va n pg) = cpu_cr3 pg"
proof -
  have "cpu_cr3 (fold (\<lambda>i. arch_unmap_4kb c (va + of_nat i * 4096)) xs pg) = cpu_cr3 pg" for xs
    by (induction xs arbitrary: pg) simp_all
  then show ?thesis by (simp add: unmap_pages_def)
qed

lemma cpu_cr3_destroy [simp]: "cpu_cr3 (arch_destroy_address_space c s) = cpu_cr3 s"
proof -
  have "cpu_cr3 (destroy_body c i t) = cpu_cr3 t" for i t by (auto simp: destroy_body_def Let_def)
  then have "cpu_cr3 (fold (destroy_body c) xs t) = cpu_cr3 t" for xs t by (induction xs arbitrary: t) simp_all
  then show ?thesis by (auto simp: arch_destroy_address_space_def)
qed

lemma cpu_cr3_free_pages:
  assumes "vmm_free_pages (Some v) va m = (vo, m')"
  shows "cpu_cr3 (paging_of m') = cpu_cr3 (paging_of m)" "cr3 (the vo) = cr3 v"
  using assms
  by (auto simp: vmm_free_pages_def Let_def upd_paging_def upd_pmm_def kfree_in_def upd_heap_def tree_delete_def split: option.splits if_splits)

lemma cpu_cr3_destroy_region [simp]: "cpu_cr3 (paging_of (destroy_region c r m)) = cpu_cr3 (paging_of m)"
  by (simp add: destroy_region_def Let_def upd_paging_def upd_pmm_def kfree_in_def upd_heap_def)

lemma cpu_cr3_vmm_destroy: "cpu_cr3 (paging_of (snd (vmm_destroy v m))) = cpu_cr3 (paging_of m)"
proof -
  have "cpu_cr3 (paging_of (fold (destroy_region c) rs x)) = cpu_cr3 (paging_of x)" for c rs x
    by (induction rs arbitrary: x) simp_all
  then show ?thesis
    by (simp add: vmm_destroy_def Let_def upd_paging_def upd_locks_def rbtree_destroy_def kfree_in_def upd_heap_def split: option.splits)
qed

text \<open>Nor does allocating memory; and an allocation keeps every block of the kernel heap that is in use.\<close>

lemma cpu_cr3_fold_put [simp]: "cpu_cr3 (fold (\<lambda>i s. put_entry (a i) (f i s) s) xs s) = cpu_cr3 s"
  by (induction xs arbitrary: s) simp_all

lemma cpu_cr3_pool_alloc: "cpu_cr3 (snd (arch_paging_pool_alloc s)) = cpu_cr3 s"
proof -
  have "cpu_cr3 (clear_page pa x) = cpu_cr3 x" for pa x by (simp add: clear_page_fill)
  then show ?thesis unfolding arch_paging_pool_alloc_def Let_def for_brk_find by (simp split: option.splits)
qed

lemma cpu_cr3_split: "cpu_cr3 (snd (split_4mb_pde p u s)) = cpu_cr3 s"
  using cpu_cr3_pool_alloc [of s] by (cases "arch_paging_pool_alloc s") (simp add: split_4mb_pde_def Let_def)

lemma cpu_cr3_map: "cpu_cr3 (snd (arch_map_4kb c va pa flags s)) = cpu_cr3 s"
proof -
  let ?p = "entry c (PD_INDEX va)"
  have split: "cpu_cr3 x = cpu_cr3 s" if "split_4mb_pde ?p u s = (r, x)" for u r x using cpu_cr3_split [of ?p u s] that by simp
  have alloc: "cpu_cr3 y = cpu_cr3 x" if "arch_paging_pool_alloc x = (r, y)" for x y r using cpu_cr3_pool_alloc [of x] that by simp
  show ?thesis
    by (auto simp: arch_map_4kb_def Let_def clear_page_fill split: prod.splits if_splits dest!: split alloc)
qed

lemma cpu_cr3_map_pages:
  assumes "map_pages c va pa flags n pg = r"
  shows "cpu_cr3 (case r of Inl pg' \<Rightarrow> pg' | Inr (i, pg') \<Rightarrow> pg') = cpu_cr3 pg"
proof -
  have "cpu_cr3 (case for_brk xs (\<lambda>i pg. let (r, pg) = arch_map_4kb c (va + of_nat i * 4096) (pa + of_nat i * 4096) flags pg
      in if r \<noteq> 0 then Inr (i, pg) else Inl pg) pg of Inl pg' \<Rightarrow> pg' | Inr (i, pg') \<Rightarrow> pg') = cpu_cr3 pg" for xs :: "nat list"
  proof (induction xs arbitrary: pg)
    case (Cons i xs)
    obtain r pg' where m: "arch_map_4kb c (va + of_nat i * 4096) (pa + of_nat i * 4096) flags pg = (r, pg')" by (meson surj_pair)
    then show ?case using Cons [of pg'] cpu_cr3_map [of c "va + of_nat i * 4096" "pa + of_nat i * 4096" flags pg] by simp
  qed simp
  then show ?thesis unfolding assms [symmetric] map_pages_def .
qed

lemma cpu_cr3_map_pagesD:
  "map_pages c va pa flags n pg = Inl pg' \<Longrightarrow> cpu_cr3 pg' = cpu_cr3 pg"
  "map_pages c va pa flags n pg = Inr (i, pg') \<Longrightarrow> cpu_cr3 pg' = cpu_cr3 pg"
  by (drule cpu_cr3_map_pages; simp)+

lemma cpu_cr3_fold_unmap [simp]: "cpu_cr3 (fold (\<lambda>j. arch_unmap_4kb c (va + of_nat j * 4096)) xs pg) = cpu_cr3 pg"
  by (induction xs arbitrary: pg) simp_all

lemma cpu_cr3_alloc_pages:
  assumes "vmm_alloc_pages (Some v) n flags m = (va, vo, m')"
  shows "cpu_cr3 (paging_of m') = cpu_cr3 (paging_of m)" "cr3 (the vo) = cr3 v"
  using assms
  by (auto simp: vmm_alloc_pages_def Let_def split: option.splits prod.splits if_splits sum.splits
      dest!: kmalloc_in_simps(3) cpu_cr3_map_pagesD)

text \<open>The kernel heap is in order and holds at least the blocks it held.\<close>

definition heap_grew :: "memsys \<Rightarrow> memsys \<Rightarrow> bool" where
  "heap_grew m m' \<longleftrightarrow> (kheap_ok (heaps_of m) \<longrightarrow> kheap_ok (heaps_of m') \<and> klive (heaps_of m) \<subseteq> klive (heaps_of m'))"

lemma heap_grew_refl: "heaps_of m' = heaps_of m \<Longrightarrow> heap_grew m m'"
  by (simp add: heap_grew_def)

lemma heap_grew_trans [trans]: "heap_grew m m' \<Longrightarrow> heap_grew m' m'' \<Longrightarrow> heap_grew m m''"
  by (auto simp: heap_grew_def)

lemma heap_grew_kmalloc:
  assumes "kmalloc_in n m = (r, m')"
  shows "heap_grew m m'" "kheap_ok (heaps_of m) \<Longrightarrow> r = Some p \<Longrightarrow> p \<notin> klive (heaps_of m)"
proof -
  note k = kmalloc_in_simps(1) [OF assms]
  show "heap_grew m m'" using kheap.alloc_inv [OF _ k] kheap.alloc_mono [OF _ k] by (simp add: heap_grew_def)
  show "kheap_ok (heaps_of m) \<Longrightarrow> r = Some p \<Longrightarrow> p \<notin> klive (heaps_of m)" using kheap.alloc_fresh k by blast
qed

lemma heap_grew_undo:
  assumes "kmalloc_in n m = (Some p, m')" and "heaps_of m'' = kfree p (heaps_of m')"
  shows "heap_grew m m''"
proof -
  note k = kmalloc_in_simps(1) [OF assms(1)]
  have "kheap_ok (kfree p (heaps_of m'))" "klive (kfree p (heaps_of m')) = klive (heaps_of m)" if h: "kheap_ok (heaps_of m)"
    using kheap.release_inv [OF kheap.alloc_inv [OF h k]] kheap.alloc_live [OF h k] kheap.alloc_release_live [OF h k] by simp_all
  then show ?thesis by (simp add: heap_grew_def assms(2))
qed

lemma heap_grew_alloc_pages:
  assumes "vmm_alloc_pages (Some v) n flags m = (va, vo, m')"
  shows "heap_grew m m'"
proof (cases "tree v = None \<or> n = 0 \<or> fst (pmm_alloc_pages n (pmm_of m)) = 0")
  case True
  then have "heaps_of m' = heaps_of m"
    using assms by (cases "pmm_alloc_pages n (pmm_of m)") (auto simp: vmm_alloc_pages_def Let_def split: option.splits if_splits)
  then show ?thesis by (rule heap_grew_refl)
next
  case False
  then obtain t pa pm where t: "tree v = Some t" "n \<noteq> 0" "pmm_alloc_pages n (pmm_of m) = (pa, pm)" "pa \<noteq> 0"
    by (cases "pmm_alloc_pages n (pmm_of m)") auto
  obtain r m1 where k: "kmalloc_in sizeof_vmm_region (m\<lparr>pmm_of := pm\<rparr>) = (r, m1)" by (meson surj_pair)
  have g: "heap_grew m x \<longleftrightarrow> heap_grew (m\<lparr>pmm_of := pm\<rparr>) x" for x by (simp add: heap_grew_def)
  show ?thesis
  proof (cases r)
    case None
    then have "heaps_of m' = heaps_of m1" using assms t k by (auto simp: vmm_alloc_pages_def)
    then show ?thesis using heap_grew_kmalloc(1) [OF k] unfolding g by (simp add: heap_grew_def)
  next
    case (Some p)
    then have "heaps_of m' = heaps_of m1 \<or> heaps_of m' = kfree p (heaps_of m1)"
      using assms t k by (auto simp: vmm_alloc_pages_def Let_def split: if_splits option.splits sum.splits prod.splits)
    then show ?thesis
      using heap_grew_kmalloc(1) [OF k] heap_grew_undo [of sizeof_vmm_region "m\<lparr>pmm_of := pm\<rparr>" p m1 m'] k Some
      unfolding g by (auto simp: heap_grew_def)
  qed
qed

end
