(* ===== verification/Schedspec.thy ===== *)
theory Schedspec
  imports Kernel
begin

text \<open>
  What the scheduler promises, on an abstract state: the threads and processes in their lists, who
  runs, what each thread waits for, the switch that is pending and what the CPU is set to.  The
  operations of \<open>Sched\<close>, \<open>Waitq\<close> and \<open>Process\<close> are shown to be these operations on the abstraction
  \<open>sched_of\<close> of the kernel state; the invariants and the fairness of the scheduler are proved here once.
\<close>

section \<open>The abstract state\<close>

record thread_core =
  c_tid :: int
  c_state :: thread_state
  c_wake :: bool
  c_parent :: ptr
  c_wait :: "wq_ref option"
  c_mbox :: "ptr option"

record sched =
  threads :: "ptr list"
  procs :: "ptr list"
  running :: "ptr option"
  goal_dir :: "ptr option"
  goal_ctx :: "ptr option"
  on_ctx :: "ptr option"
  on_dir :: u32
  core :: "ptr \<Rightarrow> thread_core"
  members :: "ptr \<Rightarrow> ptr list"
  pids :: "ptr \<Rightarrow> int"
  dirs :: "ptr \<Rightarrow> u32"
  queue :: "wq_ref \<Rightarrow> ptr list"
  sems :: "ptr \<Rightarrow> semaphore"
  sem_list :: "ptr list"

definition core_of :: "tcb \<Rightarrow> thread_core" where
  "core_of x = \<lparr>c_tid = tid x, c_state = t_state x, c_wake = wake_pending x, c_parent = parent x,
     c_wait = waiting_on x, c_mbox = t_mailbox x\<rparr>"

definition sched_of :: "kernel \<Rightarrow> sched" where
  "sched_of s = \<lparr>threads = thread_head s, procs = proc_head s, running = thread_run s,
     goal_dir = switch_vcb s, goal_ctx = switch_ctx s, on_ctx = curr_task_ctx s,
     on_dir = cpu_cr3 (paging_of (mem s)), core = (\<lambda>t. core_of (tcb_at s t)), members = (\<lambda>p. tcbs (pcb_at s p)),
     pids = (\<lambda>p. pid (pcb_at s p)), dirs = (\<lambda>p. cr3 (vcb (space (pcb_at s p)))), queue = (\<lambda>q. waiters (wq_at s q)),
     sems = sem_at s, sem_list = semaphore_head s\<rparr>"

section \<open>Operations\<close>

definition list_after :: "'a \<Rightarrow> 'a list \<Rightarrow> 'a list" where
  "list_after x xs = tl (dropWhile (\<lambda>y. y \<noteq> x) xs)"

definition list_before :: "'a \<Rightarrow> 'a list \<Rightarrow> 'a list" where
  "list_before x xs = takeWhile (\<lambda>y. y \<noteq> x) xs"

definition set_core :: "ptr \<Rightarrow> (thread_core \<Rightarrow> thread_core) \<Rightarrow> sched \<Rightarrow> sched" where
  "set_core t f a = a\<lparr>core := (core a)(t := f (core a t))\<rparr>"

definition by_tid :: "int \<Rightarrow> sched \<Rightarrow> ptr option" where
  "by_tid n a = find (\<lambda>t. c_tid (core a t) = n) (threads a)"

definition next_ready :: "sched \<Rightarrow> ptr \<Rightarrow> ptr option" where
  "next_ready a c = find (\<lambda>t. c_state (core a t) = TS_READY) (list_after c (threads a) @ list_before c (threads a))"

definition a_switch :: "ptr \<Rightarrow> sched \<Rightarrow> sched" where
  "a_switch n a = (case running a of
     None \<Rightarrow> a\<lparr>running := Some n\<rparr>
   | Some c \<Rightarrow> a\<lparr>running := Some n, goal_ctx := Some n,
       goal_dir := (if c_parent (core a c) \<noteq> c_parent (core a n) then Some (c_parent (core a n)) else None)\<rparr>)"

definition a_yield :: "sched \<Rightarrow> sched" where
  "a_yield a = (case running a of
     None \<Rightarrow> a
   | Some c \<Rightarrow> case next_ready a c of
       None \<Rightarrow> a | Some n \<Rightarrow> a_switch n (set_core n (\<lambda>x. x\<lparr>c_wake := False\<rparr>) a))"

definition a_block :: "int \<Rightarrow> sched \<Rightarrow> sched" where
  "a_block n a = (if running a = None then a
     else case by_tid n a of
       None \<Rightarrow> a
     | Some t \<Rightarrow>
         if c_wake (core a t) then set_core t (\<lambda>x. x\<lparr>c_wake := False\<rparr>) a
         else let a = set_core t (\<lambda>x. x\<lparr>c_state := TS_PENDING\<rparr>) a
              in if running a = Some t then a_yield a else a)"

definition a_unblock :: "int \<Rightarrow> sched \<Rightarrow> sched" where
  "a_unblock n a = (if running a = None then a
     else case by_tid n a of
       None \<Rightarrow> a | Some t \<Rightarrow> set_core t (\<lambda>x. x\<lparr>c_wake := True, c_state := TS_READY\<rparr>) a)"

definition a_enqueue :: "wq_ref \<Rightarrow> ptr \<Rightarrow> sched \<Rightarrow> sched" where
  "a_enqueue q t a = (set_core t (\<lambda>x. x\<lparr>c_wait := Some q\<rparr>) a)\<lparr>queue := (queue a)(q := t # queue a q)\<rparr>"

definition a_dequeue :: "wq_ref \<Rightarrow> ptr \<Rightarrow> sched \<Rightarrow> sched" where
  "a_dequeue q t a = (set_core t (\<lambda>x. x\<lparr>c_wait := None\<rparr>) a)\<lparr>queue := (queue a)(q := list_remove t (queue a q))\<rparr>"

definition a_sleep :: "wq_ref \<Rightarrow> sched \<Rightarrow> sched" where
  "a_sleep q a = (case running a of
     None \<Rightarrow> a
   | Some c \<Rightarrow> if c_wait (core a c) \<noteq> None then a else a_block (c_tid (core a c)) (a_enqueue q c a))"

definition a_wake_one :: "wq_ref \<Rightarrow> sched \<Rightarrow> sched" where
  "a_wake_one q a = (case queue a q of
     [] \<Rightarrow> a | t # _ \<Rightarrow> a_unblock (c_tid (core a t)) (a_dequeue q t a))"

definition a_detach :: "ptr \<Rightarrow> sched \<Rightarrow> sched" where
  "a_detach t a = (case c_wait (core a t) of None \<Rightarrow> a | Some q \<Rightarrow> a_dequeue q t a)"

definition a_unlink :: "ptr \<Rightarrow> sched \<Rightarrow> sched" where
  "a_unlink t a = (let a = a_detach t a; p = c_parent (core a t) in
     a\<lparr>threads := list_remove t (threads a), members := (members a)(p := list_remove t (members a p))\<rparr>)"

definition a_commit :: "sched \<Rightarrow> sched" where
  "a_commit a = a\<lparr>
     on_dir := (case goal_dir a of None \<Rightarrow> on_dir a | Some p \<Rightarrow> if dirs a p = 0 then on_dir a else dirs a p),
     on_ctx := (case goal_ctx a of None \<Rightarrow> on_ctx a | Some t \<Rightarrow> Some t), goal_dir := None, goal_ctx := None\<rparr>"

definition a_states :: "thread_state \<Rightarrow> ptr list \<Rightarrow> sched \<Rightarrow> sched" where
  "a_states v ts a = fold (\<lambda>t. set_core t (\<lambda>x. x\<lparr>c_state := v\<rparr>)) ts a"

section \<open>Invariants\<close>

text \<open>
  The lists hold each thread and process once, under its own number; a process's list holds exactly its
  threads; a wait queue holds exactly the threads that wait on it; a thread waits on no mailbox but its own.
\<close>

definition threads_ok :: "sched \<Rightarrow> bool" where
  "threads_ok a \<longleftrightarrow> distinct (threads a) \<and> inj_on (\<lambda>t. c_tid (core a t)) (set (threads a)) \<and>
     set_option (running a) \<subseteq> set (threads a)"

definition procs_ok :: "sched \<Rightarrow> bool" where
  "procs_ok a \<longleftrightarrow> distinct (procs a) \<and> inj_on (pids a) (set (procs a)) \<and>
     (\<forall>p\<in>set (procs a). distinct (members a p) \<and> dirs a p \<noteq> 0 \<and>
        set (members a p) = {t\<in>set (threads a). c_parent (core a t) = p}) \<and>
     (\<forall>t\<in>set (threads a). c_parent (core a t) \<in> set (procs a))"

definition queues_ok :: "sched \<Rightarrow> bool" where
  "queues_ok a \<longleftrightarrow> (\<forall>q. distinct (queue a q) \<and> set (queue a q) = {t\<in>set (threads a). c_wait (core a t) = Some q})"

definition mboxes_ok :: "sched \<Rightarrow> bool" where
  "mboxes_ok a \<longleftrightarrow> (\<forall>t\<in>set (threads a). \<forall>b. c_wait (core a t) = Some (Mb_wq b) \<longrightarrow> c_mbox (core a t) = Some b) \<and>
     (\<forall>t\<in>set (threads a). \<forall>u\<in>set (threads a). c_mbox (core a t) = c_mbox (core a u) \<longrightarrow> c_mbox (core a t) \<noteq> None \<longrightarrow> t = u)"

definition sched_ok :: "sched \<Rightarrow> bool" where
  "sched_ok a \<longleftrightarrow> threads_ok a \<and> procs_ok a \<and> queues_ok a \<and> mboxes_ok a"

text \<open>Outside the gates no switch is pending and the CPU is set to the running thread and its process.\<close>

definition committed :: "sched \<Rightarrow> bool" where
  "committed a \<longleftrightarrow> goal_dir a = None \<and> goal_ctx a = None \<and>
     (\<forall>t. running a = Some t \<longrightarrow> on_ctx a = Some t \<and> on_dir a = dirs a (c_parent (core a t)))"

text \<open>Inside a gate: committing the pending switch would set the CPU to the running thread.\<close>

definition pending_ok :: "sched \<Rightarrow> bool" where
  "pending_ok a \<longleftrightarrow> committed (a_commit a)"

section \<open>Preservation\<close>

named_theorems a_defs

lemma sched_ok_cong:
  assumes "threads a = threads b" "procs a = procs b" "running a = running b" "members a = members b"
    "pids a = pids b" "dirs a = dirs b" "queue a = queue b"
    and "\<And>t. c_tid (core a t) = c_tid (core b t)" "\<And>t. c_parent (core a t) = c_parent (core b t)"
      "\<And>t. c_wait (core a t) = c_wait (core b t)" "\<And>t. c_mbox (core a t) = c_mbox (core b t)"
  shows "sched_ok a \<longleftrightarrow> sched_ok b"
  by (simp add: sched_ok_def threads_ok_def procs_ok_def queues_ok_def mboxes_ok_def assms)

lemma set_core_fields [simp]:
  "threads (set_core t f a) = threads a" "procs (set_core t f a) = procs a" "running (set_core t f a) = running a"
  "members (set_core t f a) = members a" "pids (set_core t f a) = pids a" "dirs (set_core t f a) = dirs a"
  "queue (set_core t f a) = queue a" "goal_dir (set_core t f a) = goal_dir a" "goal_ctx (set_core t f a) = goal_ctx a"
  "on_ctx (set_core t f a) = on_ctx a" "on_dir (set_core t f a) = on_dir a"
  "core (set_core t f a) = (core a)(t := f (core a t))" "sems (set_core t f a) = sems a" "sem_list (set_core t f a) = sem_list a"
  by (simp_all add: set_core_def)

lemma set_core_ok:
  assumes "\<And>x. c_tid (f x) = c_tid x" "\<And>x. c_parent (f x) = c_parent x" "\<And>x. c_wait (f x) = c_wait x"
    "\<And>x. c_mbox (f x) = c_mbox x"
  shows "sched_ok (set_core t f a) \<longleftrightarrow> sched_ok a"
  by (rule sched_ok_cong) (simp_all add: assms)

lemma a_switch_ok:
  assumes "sched_ok a" and "n \<in> set (threads a)"
  shows "sched_ok (a_switch n a)"
  using assms by (cases "running a") (auto simp: a_switch_def sched_ok_def threads_ok_def procs_ok_def queues_ok_def mboxes_ok_def)

lemma set_list_after: "set (list_after x xs) \<subseteq> set xs"
proof
  fix y assume "y \<in> set (list_after x xs)"
  then have "y \<in> set (dropWhile (\<lambda>y. y \<noteq> x) xs)"
    unfolding list_after_def by (cases "dropWhile (\<lambda>y. y \<noteq> x) xs") simp_all
  then show "y \<in> set xs" using set_dropWhileD [of y] by blast
qed

lemma set_list_before: "set (list_before x xs) \<subseteq> set xs"
  by (auto simp: list_before_def dest: set_takeWhileD)

lemma find_SomeD: "find P xs = Some x \<Longrightarrow> x \<in> set xs \<and> P x"
  by (induction xs) (auto split: if_splits)

lemma next_ready_Some:
  assumes "next_ready a c = Some n"
  shows "n \<in> set (threads a)" "c_state (core a n) = TS_READY"
  using find_SomeD [OF assms [unfolded next_ready_def]] set_list_after [of c "threads a"] set_list_before [of c "threads a"]
  by auto

lemma by_tid_Some:
  assumes "by_tid n a = Some t"
  shows "t \<in> set (threads a)" "c_tid (core a t) = n"
  using find_SomeD [OF assms [unfolded by_tid_def]] by auto

lemma a_yield_ok: "sched_ok a \<Longrightarrow> sched_ok (a_yield a)"
  by (auto simp: a_yield_def set_core_ok split: option.splits intro!: a_switch_ok dest: next_ready_Some)

lemma a_block_ok: "sched_ok a \<Longrightarrow> sched_ok (a_block n a)"
  by (auto simp: a_block_def Let_def set_core_ok split: option.splits intro!: a_yield_ok)

lemma a_unblock_ok: "sched_ok a \<Longrightarrow> sched_ok (a_unblock n a)"
  by (auto simp: a_unblock_def set_core_ok split: option.splits)

lemma a_states_ok: "sched_ok (a_states v ts a) \<longleftrightarrow> sched_ok a"
  by (induction ts arbitrary: a) (simp_all add: a_states_def set_core_ok)

lemma a_commit_ok: "sched_ok (a_commit a) \<longleftrightarrow> sched_ok a"
  by (rule sched_ok_cong) (simp_all add: a_commit_def)

lemma a_queue_fields [simp]:
  "threads (a_enqueue q t a) = threads a" "procs (a_enqueue q t a) = procs a" "running (a_enqueue q t a) = running a"
  "members (a_enqueue q t a) = members a" "pids (a_enqueue q t a) = pids a" "dirs (a_enqueue q t a) = dirs a"
  "goal_dir (a_enqueue q t a) = goal_dir a" "goal_ctx (a_enqueue q t a) = goal_ctx a" "on_ctx (a_enqueue q t a) = on_ctx a"
  "on_dir (a_enqueue q t a) = on_dir a" "core (a_enqueue q t a) = (core a)(t := (core a t)\<lparr>c_wait := Some q\<rparr>)"
  "queue (a_enqueue q t a) = (queue a)(q := t # queue a q)" "sems (a_enqueue q t a) = sems a" "sem_list (a_enqueue q t a) = sem_list a"
  "threads (a_dequeue q t a) = threads a" "procs (a_dequeue q t a) = procs a" "running (a_dequeue q t a) = running a"
  "members (a_dequeue q t a) = members a" "pids (a_dequeue q t a) = pids a" "dirs (a_dequeue q t a) = dirs a"
  "goal_dir (a_dequeue q t a) = goal_dir a" "goal_ctx (a_dequeue q t a) = goal_ctx a" "on_ctx (a_dequeue q t a) = on_ctx a"
  "on_dir (a_dequeue q t a) = on_dir a" "core (a_dequeue q t a) = (core a)(t := (core a t)\<lparr>c_wait := None\<rparr>)"
  "queue (a_dequeue q t a) = (queue a)(q := list_remove t (queue a q))" "sems (a_dequeue q t a) = sems a" "sem_list (a_dequeue q t a) = sem_list a"
  by (simp_all add: a_enqueue_def a_dequeue_def)

text \<open>Changing what a thread waits for, and the queues with it, keeps the rest.\<close>

lemma set_wait_ok:
  assumes "sched_ok a" and "threads b = threads a" "procs b = procs a" "running b = running a" "members b = members a"
    "pids b = pids a" "dirs b = dirs a" and core: "core b = (core a)(t := (core a t)\<lparr>c_wait := w\<rparr>)"
    and "queues_ok b" and mb: "\<And>m. w = Some (Mb_wq m) \<Longrightarrow> c_mbox (core a t) = Some m"
  shows "sched_ok b"
proof -
  have c: "c_tid (core b u) = c_tid (core a u)" "c_parent (core b u) = c_parent (core a u)"
    "c_mbox (core b u) = c_mbox (core a u)" "c_wait (core b u) = (if u = t then w else c_wait (core a u))" for u
    by (simp_all add: core)
  have "mboxes_ok b" using assms(1) mb by (simp add: sched_ok_def mboxes_ok_def c assms(2))
  then show ?thesis using assms(1-7,9) by (simp add: sched_ok_def threads_ok_def procs_ok_def c)
qed

lemma queue_mem:
  assumes "sched_ok a"
  shows "t \<in> set (queue a q) \<longleftrightarrow> t \<in> set (threads a) \<and> c_wait (core a t) = Some q" and "distinct (queue a q)"
  using assms by (auto simp: sched_ok_def queues_ok_def)

lemma queues_okI:
  assumes "\<And>q. distinct (queue a q)" "\<And>q t. t \<in> set (queue a q) \<longleftrightarrow> t \<in> set (threads a) \<and> c_wait (core a t) = Some q"
  shows "queues_ok a"
  using assms by (auto simp: queues_ok_def)

lemma a_enqueue_ok:
  assumes ok: "sched_ok a" and t: "t \<in> set (threads a)" "c_wait (core a t) = None"
    and mb: "\<And>b. q = Mb_wq b \<Longrightarrow> c_mbox (core a t) = Some b"
  shows "sched_ok (a_enqueue q t a)"
proof (rule set_wait_ok [OF ok, where t = t and w = "Some q"])
  show "queues_ok (a_enqueue q t a)"
    using queue_mem [OF ok] t by (intro queues_okI) auto
qed (use mb in auto)

lemma a_dequeue_ok:
  assumes ok: "sched_ok a" and t: "t \<in> set (threads a)" "c_wait (core a t) = Some q"
  shows "sched_ok (a_dequeue q t a)"
proof (rule set_wait_ok [OF ok, where t = t and w = None])
  show "queues_ok (a_dequeue q t a)"
    using queue_mem [OF ok] t by (intro queues_okI) (auto simp: list_remove_def)
qed auto

lemma running_thread: "sched_ok a \<Longrightarrow> running a = Some c \<Longrightarrow> c \<in> set (threads a)"
  by (simp add: sched_ok_def threads_ok_def)

lemma a_sleep_ok:
  assumes ok: "sched_ok a" and mb: "\<forall>b c. q = Mb_wq b \<longrightarrow> running a = Some c \<longrightarrow> c_mbox (core a c) = Some b"
  shows "sched_ok (a_sleep q a)"
proof (cases "running a")
  case None
  then show ?thesis using ok by (simp add: a_sleep_def)
next
  case (Some c)
  then have "c_wait (core a c) = None \<Longrightarrow> sched_ok (a_enqueue q c a)"
    using mb by (intro a_enqueue_ok [OF ok running_thread [OF ok]]) auto
  then show ?thesis using Some ok by (simp add: a_sleep_def a_block_ok)
qed

lemma a_wake_one_ok:
  assumes "sched_ok a"
  shows "sched_ok (a_wake_one q a)"
proof (cases "queue a q")
  case Nil
  then show ?thesis using assms by (simp add: a_wake_one_def)
next
  case (Cons t ts)
  then have "t \<in> set (threads a)" "c_wait (core a t) = Some q" using queue_mem(1) [OF assms, of t q] by auto
  then show ?thesis using Cons assms by (simp add: a_wake_one_def a_unblock_ok a_dequeue_ok)
qed

lemma a_detach_ok: "sched_ok a \<Longrightarrow> t \<in> set (threads a) \<Longrightarrow> sched_ok (a_detach t a)"
  by (auto simp: a_detach_def a_dequeue_ok split: option.splits)

lemma a_detach_fields [simp]:
  "threads (a_detach t a) = threads a" "procs (a_detach t a) = procs a" "running (a_detach t a) = running a"
  "members (a_detach t a) = members a" "pids (a_detach t a) = pids a" "dirs (a_detach t a) = dirs a"
  "goal_dir (a_detach t a) = goal_dir a" "goal_ctx (a_detach t a) = goal_ctx a" "on_ctx (a_detach t a) = on_ctx a"
  "on_dir (a_detach t a) = on_dir a" "c_parent (core (a_detach t a) u) = c_parent (core a u)"
  "c_tid (core (a_detach t a) u) = c_tid (core a u)" "c_mbox (core (a_detach t a) u) = c_mbox (core a u)"
  "c_state (core (a_detach t a) u) = c_state (core a u)" "c_wake (core (a_detach t a) u) = c_wake (core a u)"
  "c_wait (core (a_detach t a) u) = (if u = t then None else c_wait (core a u))"
  by (auto simp: a_detach_def split: option.splits)

lemma a_unlink_ok:
  assumes ok: "sched_ok a" and t: "t \<in> set (threads a)" and r: "running a \<noteq> Some t"
  shows "sched_ok (a_unlink t a)"
proof -
  let ?b = "a_detach t a"
  have b: "sched_ok ?b" by (rule a_detach_ok [OF ok t])
  then have q: "t \<notin> set (queue ?b q)" for q using queue_mem(1) [OF b, of t q] by simp
  have "threads_ok (a_unlink t a)"
    using b r by (auto simp: sched_ok_def threads_ok_def a_unlink_def Let_def list_remove_def inj_on_def)
  moreover have "procs_ok (a_unlink t a)"
    using b t by (auto simp: sched_ok_def procs_ok_def a_unlink_def Let_def list_remove_def)
  moreover have "queues_ok (a_unlink t a)"
    using b q by (auto simp: sched_ok_def queues_ok_def a_unlink_def Let_def list_remove_def)
  moreover have "mboxes_ok (a_unlink t a)"
    using b by (auto simp: sched_ok_def mboxes_ok_def a_unlink_def Let_def list_remove_def)
  ultimately show ?thesis by (simp add: sched_ok_def)
qed

section \<open>The pending switch\<close>

lemma committed_pending: "committed a \<Longrightarrow> pending_ok a"
  by (simp add: pending_ok_def committed_def a_commit_def)

lemma pending_commit: "pending_ok a \<Longrightarrow> committed (a_commit a)"
  by (simp add: pending_ok_def)

lemma pending_cong:
  assumes "pending_ok b" "running a = running b" "goal_dir a = goal_dir b" "goal_ctx a = goal_ctx b" "on_ctx a = on_ctx b"
    "on_dir a = on_dir b" "dirs a = dirs b" "\<And>t. c_parent (core a t) = c_parent (core b t)"
  shows "pending_ok a"
  using assms by (cases "goal_dir b"; cases "goal_ctx b") (auto simp: pending_ok_def committed_def a_commit_def)

lemma set_core_pending:
  "(\<And>x. c_parent (f x) = c_parent x) \<Longrightarrow> pending_ok a \<Longrightarrow> pending_ok (set_core t f a)"
  by (rule pending_cong) auto

lemma a_switch_pending:
  assumes "sched_ok a" "pending_ok a" "goal_dir a = None" "n \<in> set (threads a)" "running a \<noteq> None"
  shows "pending_ok (a_switch n a)"
  using assms by (auto simp: pending_ok_def committed_def a_commit_def a_switch_def sched_ok_def procs_ok_def)

lemma a_yield_pending:
  assumes "sched_ok a" "pending_ok a" "goal_dir a = None"
  shows "pending_ok (a_yield a)"
proof (cases "running a")
  case None
  then show ?thesis using assms by (simp add: a_yield_def)
next
  case (Some c)
  show ?thesis
  proof (cases "next_ready a c")
    case None
    then show ?thesis using assms Some by (simp add: a_yield_def)
  next
    case (Some n)
    let ?b = "set_core n (\<lambda>x. x\<lparr>c_wake := False\<rparr>) a"
    have "pending_ok ?b" using assms(2) by (rule set_core_pending [rotated]) simp
    then have "pending_ok (a_switch n ?b)"
      using assms Some \<open>running a = Some c\<close> by (intro a_switch_pending) (auto simp: set_core_ok dest: next_ready_Some)
    then show ?thesis using Some \<open>running a = Some c\<close> by (simp add: a_yield_def)
  qed
qed

lemma a_block_pending:
  assumes "sched_ok a" "pending_ok a" "goal_dir a = None"
  shows "pending_ok (a_block n a)"
proof -
  have w: "pending_ok (set_core t (\<lambda>x. x\<lparr>c_wake := False\<rparr>) a)" for t
    using assms(2) by (rule set_core_pending [rotated]) simp
  have p: "pending_ok (set_core t (\<lambda>x. x\<lparr>c_state := TS_PENDING\<rparr>) a)" for t
    using assms(2) by (rule set_core_pending [rotated]) simp
  have "pending_ok (a_yield (set_core t (\<lambda>x. x\<lparr>c_state := TS_PENDING\<rparr>) a))" for t
    using assms p by (intro a_yield_pending) (auto simp: set_core_ok)
  then show ?thesis using assms w p by (auto simp: a_block_def Let_def split: option.splits)
qed

lemma a_unblock_pending: "pending_ok a \<Longrightarrow> pending_ok (a_unblock n a)"
  by (auto simp: a_unblock_def split: option.splits intro: set_core_pending)

lemma a_enqueue_pending: "pending_ok a \<Longrightarrow> pending_ok (a_enqueue q t a)"
  by (rule pending_cong) (auto simp: a_enqueue_def)

lemma a_dequeue_pending: "pending_ok a \<Longrightarrow> pending_ok (a_dequeue q t a)"
  by (rule pending_cong) (auto simp: a_dequeue_def)

lemma a_states_pending: "pending_ok a \<Longrightarrow> pending_ok (a_states v ts a)"
  by (induction ts arbitrary: a) (simp_all add: a_states_def set_core_pending)

lemma a_unlink_pending: "pending_ok a \<Longrightarrow> pending_ok (a_unlink t a)"
  by (rule pending_cong) (auto simp: a_unlink_def Let_def)

lemma a_wake_one_pending: "pending_ok a \<Longrightarrow> pending_ok (a_wake_one q a)"
  by (auto simp: a_wake_one_def split: list.splits intro: a_unblock_pending a_dequeue_pending)

lemma a_sleep_pending:
  assumes ok: "sched_ok a" and p: "pending_ok a" "goal_dir a = None"
    and mb: "\<forall>b c. q = Mb_wq b \<longrightarrow> running a = Some c \<longrightarrow> c_mbox (core a c) = Some b"
  shows "pending_ok (a_sleep q a)"
proof (cases "running a")
  case None
  then show ?thesis using p by (simp add: a_sleep_def)
next
  case (Some c)
  then have "c_wait (core a c) = None \<Longrightarrow> sched_ok (a_enqueue q c a)"
    using mb by (intro a_enqueue_ok [OF ok running_thread [OF ok]]) auto
  then have "c_wait (core a c) = None \<Longrightarrow> pending_ok (a_block (c_tid (core a c)) (a_enqueue q c a))"
    using p by (intro a_block_pending) (simp_all add: a_enqueue_pending)
  then show ?thesis using Some p by (simp add: a_sleep_def)
qed

section \<open>Fairness\<close>

lemma list_split_at:
  assumes "distinct (xs @ x # ys)"
  shows "list_after x (xs @ x # ys) = ys" "list_before x (xs @ x # ys) = xs"
proof -
  have "x \<notin> set xs" using assms by simp
  then have "takeWhile (\<lambda>y. y \<noteq> x) (xs @ x # ys) = xs" "dropWhile (\<lambda>y. y \<noteq> x) (xs @ x # ys) = x # ys"
    by (induction xs) auto
  then show "list_after x (xs @ x # ys) = ys" "list_before x (xs @ x # ys) = xs"
    by (simp_all add: list_after_def list_before_def)
qed

text \<open>The order in which the scheduler looks at the others, and how it turns when the turn passes on.\<close>

abbreviation turn_order :: "ptr list \<Rightarrow> ptr \<Rightarrow> ptr list" where
  "turn_order xs c \<equiv> list_after c xs @ list_before c xs"

lemma turn_order_next:
  assumes "distinct xs" and "c \<in> set xs" and "turn_order xs c = u @ n # v"
  shows "turn_order xs n = v @ c # u"
proof -
  from assms(2) obtain pre post where xs: "xs = pre @ c # post" by (meson split_list)
  have "turn_order xs c = post @ pre" using assms(1) unfolding xs by (simp add: list_split_at)
  with assms(3) have eq: "post @ pre = u @ n # v" by simp
  from eq consider w where "post = u @ n # w" "v = w @ pre" | w where "u = post @ w" "pre = w @ n # v"
    by (auto simp: append_eq_append_conv2 append_eq_Cons_conv Cons_eq_append_conv)
  then show ?thesis
  proof cases
    case 1
    then have "xs = (pre @ c # u) @ n # w" using xs by simp
    then show ?thesis using assms(1) 1 by (metis append.assoc append_Cons list_split_at)
  next
    case 2
    then have "xs = w @ n # (v @ c # post)" using xs by simp
    then show ?thesis using assms(1) 2 by (metis append.assoc append_Cons list_split_at)
  qed
qed

lemma turn_order_set: "distinct xs \<Longrightarrow> c \<in> set xs \<Longrightarrow> set (turn_order xs c) = set xs - {c}"
proof -
  assume d: "distinct xs" and "c \<in> set xs"
  then obtain pre post where xs: "xs = pre @ c # post" by (meson split_list)
  then show ?thesis using d by (auto simp: list_split_at)
qed

lemma find_append: "find P (xs @ ys) = (case find P xs of None \<Rightarrow> find P ys | Some x \<Rightarrow> Some x)"
  by (induction xs) auto

lemma a_yield_running:
  assumes "running a = Some c" "next_ready a c = Some n"
  shows "running (a_yield a) = Some n" "threads (a_yield a) = threads a" "c_state (core (a_yield a) t) = c_state (core a t)"
  using assms by (simp_all add: a_yield_def a_switch_def)

text \<open>Every ready thread runs after fewer yields than there are threads.\<close>

lemma a_yield_fair:
  assumes "sched_ok a" "running a = Some c" "turn_order (threads a) c = u @ t # v" "c_state (core a t) = TS_READY"
  shows "\<exists>k\<le>Suc (length u). running ((a_yield ^^ k) a) = Some t"
  using assms
proof (induction "length u" arbitrary: a c u v rule: less_induct)
  case less
  let ?P = "\<lambda>t. c_state (core a t) = TS_READY"
  have "\<exists>n. find ?P (turn_order (threads a) c) = Some n"
    using less.prems by (auto simp: find_None_iff simp flip: not_None_eq)
  then obtain n where n: "next_ready a c = Some n" by (auto simp: next_ready_def)
  note y = a_yield_running [OF less.prems(2) n]
  show ?case
  proof (cases "n = t")
    case True
    then show ?thesis using y(1) by (intro exI [of _ 1]) simp
  next
    case False
    have d: "distinct (threads a)" using less.prems(1) by (simp add: sched_ok_def threads_ok_def)
    have "n \<in> set u"
      using n less.prems(3,4) False by (auto simp: next_ready_def find_append split: option.splits if_splits dest: find_SomeD)
    then obtain x z where u: "u = x @ n # z" by (meson split_list)
    then have "turn_order (threads (a_yield a)) n = z @ t # (v @ c # x)"
      using turn_order_next [OF d running_thread [OF less.prems(1,2)], of x n "z @ t # v"] less.prems(3) y(2) by simp
    moreover have "length z < length u" using u by simp
    ultimately obtain k where k: "k \<le> Suc (length z)" "running ((a_yield ^^ k) (a_yield a)) = Some t"
      using less.hyps [of z "a_yield a" n "v @ c # x"] a_yield_ok [OF less.prems(1)] y less.prems(4) by auto
    then show ?thesis using u by (intro exI [of _ "Suc k"]) (simp add: funpow_swap1)
  qed
qed

corollary a_yield_round_robin:
  assumes "sched_ok a" "running a = Some c" "t \<in> set (threads a)" "c_state (core a t) = TS_READY"
  shows "\<exists>k<length (threads a). running ((a_yield ^^ k) a) = Some t"
proof (cases "t = c")
  case True
  then show ?thesis using assms by (intro exI [of _ 0]) auto
next
  case False
  have d: "distinct (threads a)" "c \<in> set (threads a)"
    using assms(1) running_thread [OF assms(1,2)] by (simp_all add: sched_ok_def threads_ok_def)
  then have "t \<in> set (turn_order (threads a) c)" using assms(3) False turn_order_set [OF d] by blast
  then obtain u v where uv: "turn_order (threads a) c = u @ t # v" by (meson split_list)
  from d(2) obtain pre post where "threads a = pre @ c # post" by (meson split_list)
  then have "length (turn_order (threads a) c) < length (threads a)" using d(1) by (simp add: list_split_at)
  then have "Suc (length u) < length (threads a)" unfolding uv by simp
  then show ?thesis using a_yield_fair [OF assms(1,2) uv assms(4)] by (meson le_less_trans)
qed

end
