(* ===== verification/Sched.thy ===== *)
theory Sched
  imports Task Schedspec
begin

text \<open>
  Scheduling (\<^verbatim>\<open>kernel/process.c\<close>): the search for the next runnable thread, the lazy switch that is
  requested inside a gate and committed at its exit, blocking, unblocking, yielding and the timer tick,
  with the lookups of threads and processes.
\<close>

section \<open>Lookups\<close>

definition thread_get_tid :: "kernel \<Rightarrow> int" where
  "thread_get_tid s = (case thread_run s of None \<Rightarrow> -1 | Some cur \<Rightarrow> tid (tcb_at s cur))"

definition thread_get_param :: "kernel \<Rightarrow> ptr" where
  "thread_get_param s = (case thread_run s of None \<Rightarrow> 0 | Some cur \<Rightarrow> t_param (tcb_at s cur))"

definition thread_get_by_tid :: "int \<Rightarrow> kernel \<Rightarrow> ptr option" where
  "thread_get_by_tid n s = find (\<lambda>t. tid (tcb_at s t) = n) (thread_head s)"

definition proc_get_pid :: "kernel \<Rightarrow> int" where
  "proc_get_pid s = (case thread_run s of None \<Rightarrow> -1 | Some cur \<Rightarrow> pid (pcb_at s (parent (tcb_at s cur))))"

definition get_current_process :: "kernel \<Rightarrow> ptr option" where
  "get_current_process s = map_option (\<lambda>cur. parent (tcb_at s cur)) (thread_run s)"

definition get_process_by_pid :: "int \<Rightarrow> kernel \<Rightarrow> ptr option" where
  "get_process_by_pid n s = find (\<lambda>p. pid (pcb_at s p) = n) (proc_head s)"

section \<open>The next thread\<close>

definition is_ready :: "kernel \<Rightarrow> ptr \<Rightarrow> bool" where
  "is_ready s t \<longleftrightarrow> t_state (tcb_at s t) = TS_READY"

definition find_next_runnable :: "ptr option \<Rightarrow> kernel \<Rightarrow> ptr option \<times> kernel" where
  "find_next_runnable current s =
     (case current of
        None \<Rightarrow> (None, s)
      | Some c \<Rightarrow> case find (is_ready s) (list_after c (thread_head s)) of
          Some t \<Rightarrow> (Some t, set_tcb t (\<lambda>x. x\<lparr>wake_pending := False\<rparr>) s)
        | None \<Rightarrow> case find (is_ready s) (list_before c (thread_head s)) of
            Some t \<Rightarrow> (Some t, set_tcb t (\<lambda>x. x\<lparr>wake_pending := False\<rparr>) s)
          | None \<Rightarrow> (None, s))"

section \<open>The lazy switch\<close>

definition request_switch_context :: "ptr option \<Rightarrow> ptr option \<Rightarrow> kernel \<Rightarrow> kernel" where
  "request_switch_context old nxt s =
     (case (old, nxt) of
        (Some o', Some n) \<Rightarrow>
          s\<lparr>switch_vcb := (if parent (tcb_at s o') \<noteq> parent (tcb_at s n) then Some (parent (tcb_at s n)) else None),
            switch_ctx := Some n\<rparr>
      | _ \<Rightarrow> s)"

definition arch_task_context_switch :: "kernel \<Rightarrow> kernel" where
  "arch_task_context_switch s =
     (let s = (case switch_vcb s of None \<Rightarrow> s | Some p \<Rightarrow> s\<lparr>mem := vmm_switch (vcb_of s p) (mem s)\<rparr>);
          s = (case switch_ctx s of None \<Rightarrow> s | Some t \<Rightarrow> snd (arch_task_restore_context (Some t) s))
      in s\<lparr>switch_vcb := None, switch_ctx := None\<rparr>)"

text \<open>The three statements every switching operation ends with: remember the old thread, make the next
  one current, request the switch.\<close>

definition switch_to :: "ptr \<Rightarrow> kernel \<Rightarrow> kernel" where
  "switch_to n s = (let old = thread_run s; s = s\<lparr>thread_run := Some n\<rparr> in request_switch_context old (Some n) s)"

definition tcb_detach_wait :: "ptr option \<Rightarrow> kernel \<Rightarrow> kernel" where
  "tcb_detach_wait to s =
     (case to of
        None \<Rightarrow> s
      | Some t \<Rightarrow> case waiting_on (tcb_at s t) of
          None \<Rightarrow> s
        | Some wq \<Rightarrow> set_tcb t (\<lambda>x. x\<lparr>waiting_on := None\<rparr>) (set_wq wq (\<lambda>q. q\<lparr>waiters := list_remove t (waiters q)\<rparr>) s))"

section \<open>Blocking, unblocking, yielding\<close>

definition thread_block_internal :: "int \<Rightarrow> kernel \<Rightarrow> kernel" where
  "thread_block_internal n s =
     (if thread_run s = None then s
      else case thread_get_by_tid n s of
        None \<Rightarrow> s
      | Some t \<Rightarrow>
          if wake_pending (tcb_at s t) then set_tcb t (\<lambda>x. x\<lparr>wake_pending := False\<rparr>) s
          else let s = set_tcb t (\<lambda>x. x\<lparr>t_state := TS_PENDING\<rparr>) s in
               if thread_run s = Some t
               then case find_next_runnable (thread_run s) s of
                      (None, s) \<Rightarrow> s | (Some nxt, s) \<Rightarrow> switch_to nxt s
               else s)"

definition thread_unblock_locked :: "int \<Rightarrow> kernel \<Rightarrow> kernel" where
  "thread_unblock_locked n s =
     (if thread_run s = None then s
      else case thread_get_by_tid n s of
        None \<Rightarrow> s
      | Some t \<Rightarrow> set_tcb t (\<lambda>x. x\<lparr>wake_pending := True, t_state := TS_READY\<rparr>) s)"

definition thread_unblock_internal :: "int \<Rightarrow> kernel \<Rightarrow> kernel" where
  "thread_unblock_internal n s = thread_unblock_locked n s"

definition thread_yield_internal :: "kernel \<Rightarrow> kernel" where
  "thread_yield_internal s =
     (if thread_run s = None then s
      else case find_next_runnable (thread_run s) s of
             (None, s) \<Rightarrow> s | (Some nxt, s) \<Rightarrow> switch_to nxt s)"

definition proc_block_internal :: "int \<Rightarrow> kernel \<Rightarrow> kernel" where
  "proc_block_internal n s =
     (case get_process_by_pid n s of
        None \<Rightarrow> s
      | Some p \<Rightarrow>
          let s = set_pcb p (\<lambda>x. x\<lparr>p_state := PS_PENDING\<rparr>) s
          in fold (\<lambda>t. set_tcb t (\<lambda>x. x\<lparr>t_state := TS_PENDING\<rparr>)) (tcbs (pcb_at s p)) s)"

definition proc_unblock_internal :: "int \<Rightarrow> kernel \<Rightarrow> kernel" where
  "proc_unblock_internal n s =
     (case get_process_by_pid n s of
        None \<Rightarrow> s
      | Some p \<Rightarrow>
          let s = set_pcb p (\<lambda>x. x\<lparr>p_state := PS_READY\<rparr>) s
          in fold (\<lambda>t. set_tcb t (\<lambda>x. x\<lparr>t_state := TS_READY\<rparr>)) (tcbs (pcb_at s p)) s)"

section \<open>The timer tick\<close>

definition schedule_if_needed :: "kernel \<Rightarrow> int \<times> kernel" where
  "schedule_if_needed s =
     (case find_next_runnable (thread_run s) s of
        (None, s) \<Rightarrow> (E_NODEV, s)
      | (Some nxt, s) \<Rightarrow> if Some nxt = thread_run s then (E_NODEV, s) else (0, switch_to nxt s))"

definition schedule_isr :: "kernel \<Rightarrow> kernel" where
  "schedule_isr s =
     (let s = s\<lparr>timeslice := timeslice s + 1\<rparr> in
      if timeslice s < 5 then s
      else let s = s\<lparr>timeslice := 0\<rparr>;
               (r, ls) = spinlock_trylock (schedule_lock s) (locks_of (mem s));
               s = s\<lparr>mem := (mem s)\<lparr>locks_of := ls\<rparr>\<rparr> in
      if r \<noteq> 0 then s
      else let s = (if thread_run s = None then s else snd (schedule_if_needed s))
           in s\<lparr>mem := (mem s)\<lparr>locks_of := snd (spinlock_unlock (schedule_lock s) (locks_of (mem s)))\<rparr>\<rparr>)"

section \<open>Refinement\<close>

lemma sched_of_fields [simp]:
  "threads (sched_of s) = thread_head s" "procs (sched_of s) = proc_head s" "running (sched_of s) = thread_run s"
  "goal_dir (sched_of s) = switch_vcb s" "goal_ctx (sched_of s) = switch_ctx s" "on_ctx (sched_of s) = curr_task_ctx s"
  "on_dir (sched_of s) = cpu_cr3 (paging_of (mem s))" "core (sched_of s) t = core_of (tcb_at s t)"
  "members (sched_of s) p = tcbs (pcb_at s p)" "pids (sched_of s) p = pid (pcb_at s p)"
  "dirs (sched_of s) p = cr3 (vcb (space (pcb_at s p)))" "queue (sched_of s) q = waiters (wq_at s q)"
  "sems (sched_of s) = sem_at s" "sem_list (sched_of s) = semaphore_head s"
  by (simp_all add: sched_of_def)

lemma core_of_fields [simp]:
  "c_tid (core_of x) = tid x" "c_state (core_of x) = t_state x" "c_wake (core_of x) = wake_pending x"
  "c_parent (core_of x) = parent x" "c_wait (core_of x) = waiting_on x" "c_mbox (core_of x) = t_mailbox x"
  by (simp_all add: core_of_def)

lemma core_of_updates [simp]:
  "core_of (x\<lparr>tid := n\<rparr>) = (core_of x)\<lparr>c_tid := n\<rparr>" "core_of (x\<lparr>t_state := v\<rparr>) = (core_of x)\<lparr>c_state := v\<rparr>"
  "core_of (x\<lparr>wake_pending := b\<rparr>) = (core_of x)\<lparr>c_wake := b\<rparr>" "core_of (x\<lparr>parent := p\<rparr>) = (core_of x)\<lparr>c_parent := p\<rparr>"
  "core_of (x\<lparr>waiting_on := w\<rparr>) = (core_of x)\<lparr>c_wait := w\<rparr>" "core_of (x\<lparr>t_mailbox := m\<rparr>) = (core_of x)\<lparr>c_mbox := m\<rparr>"
  "core_of (x\<lparr>task_ctx := c\<rparr>) = core_of x" "core_of (x\<lparr>t_lock := l\<rparr>) = core_of x"
  "core_of (x\<lparr>t_param := a\<rparr>) = core_of x" "core_of (x\<lparr>t_irqs := r\<rparr>) = core_of x"
  by (simp_all add: core_of_def)

lemma sched_of_set_tcb:
  "core_of (f (tcb_at s t)) = g (core_of (tcb_at s t)) \<Longrightarrow> sched_of (set_tcb t f s) = set_core t g (sched_of s)"
  by (auto simp: sched_of_def set_tcb_def set_core_def)

lemma set_core_id: "f (core a t) = core a t \<Longrightarrow> set_core t f a = a"
  by (simp add: set_core_def)

lemma sched_of_set_tcb_same: "core_of (f (tcb_at s t)) = core_of (tcb_at s t) \<Longrightarrow> sched_of (set_tcb t f s) = sched_of s"
  using sched_of_set_tcb [of f s t "\<lambda>x. x"] by (simp add: set_core_id)

lemma sched_of_tcb_updates [simp]:
  "sched_of (set_tcb t (\<lambda>x. x\<lparr>t_state := v\<rparr>) s) = set_core t (\<lambda>x. x\<lparr>c_state := v\<rparr>) (sched_of s)"
  "sched_of (set_tcb t (\<lambda>x. x\<lparr>wake_pending := b\<rparr>) s) = set_core t (\<lambda>x. x\<lparr>c_wake := b\<rparr>) (sched_of s)"
  "sched_of (set_tcb t (\<lambda>x. x\<lparr>wake_pending := b, t_state := v\<rparr>) s) = set_core t (\<lambda>x. x\<lparr>c_wake := b, c_state := v\<rparr>) (sched_of s)"
  "sched_of (set_tcb t (\<lambda>x. x\<lparr>waiting_on := w\<rparr>) s) = set_core t (\<lambda>x. x\<lparr>c_wait := w\<rparr>) (sched_of s)"
  "sched_of (set_tcb t (\<lambda>x. x\<lparr>t_irqs := r\<rparr>) s) = sched_of s"
  "sched_of (set_tcb t (\<lambda>x. x\<lparr>task_ctx := h x\<rparr>) s) = sched_of s"
  by (rule sched_of_set_tcb sched_of_set_tcb_same; simp)+

lemma sched_of_set_wq [simp]:
  "sched_of (set_wq q f s) = (sched_of s)\<lparr>queue := (queue (sched_of s))(q := waiters (f (wq_at s q)))\<rparr>"
  by (auto simp: sched_of_def set_wq_def)

lemma sched_of_frame [simp]:
  "sched_of (s\<lparr>frames := x1\<rparr>) = sched_of s" "sched_of (s\<lparr>g_tss := x2\<rparr>) = sched_of s" "sched_of (s\<lparr>gdt := x3\<rparr>) = sched_of s"
  "sched_of (s\<lparr>timeslice := x4\<rparr>) = sched_of s" "sched_of (s\<lparr>next_tid := x5\<rparr>) = sched_of s"
  "sched_of (s\<lparr>mail_at := x8\<rparr>) = sched_of s"
  "sched_of (s\<lparr>inflight := x9\<rparr>) = sched_of s" "sched_of (s\<lparr>next_mail := x10\<rparr>) = sched_of s" "sched_of (s\<lparr>calls := x11\<rparr>) = sched_of s"
  "sched_of (s\<lparr>pic_of := x12\<rparr>) = sched_of s" "sched_of (set_mb b f1 s) = sched_of s" "sched_of (set_meta b f2 s) = sched_of s"
  "sched_of (set_irq b f3 s) = sched_of s" "sched_of (set_line b f4 s) = sched_of s" "sched_of (s\<lparr>irqlines := x13\<rparr>) = sched_of s"
  by (simp_all add: sched_of_def set_mb_def set_meta_def set_irq_def set_line_def)

lemma sched_of_sem [simp]:
  "sched_of (s\<lparr>sem_at := x\<rparr>) = (sched_of s)\<lparr>sems := x\<rparr>" "sched_of (s\<lparr>semaphore_head := y\<rparr>) = (sched_of s)\<lparr>sem_list := y\<rparr>"
  by (simp_all add: sched_of_def)

lemma sched_of_mem: "cpu_cr3 (paging_of m) = cpu_cr3 (paging_of (mem s)) \<Longrightarrow> sched_of (s\<lparr>mem := m\<rparr>) = sched_of s"
  by (simp add: sched_of_def)

lemma sched_of_alloc [simp]:
  "sched_of (kfree_k p s) = sched_of s" "sched_of (lock_release_k l s) = sched_of s"
  "sched_of (snd (kmalloc_k n s)) = sched_of s" "sched_of (snd (lock_alloc_k s)) = sched_of s"
  by (auto simp: kfree_k_def kfree_in_def upd_heap_def lock_release_k_def upd_locks_def kmalloc_k_def kmalloc_in_def
      lock_alloc_k_def Let_def split: prod.splits intro!: sched_of_mem)

lemma find_next_runnable_eq:
  "find_next_runnable (Some c) s = (case next_ready (sched_of s) c of
     None \<Rightarrow> (None, s) | Some n \<Rightarrow> (Some n, set_tcb n (\<lambda>x. x\<lparr>wake_pending := False\<rparr>) s))"
  by (simp add: find_next_runnable_def next_ready_def find_append is_ready_def [abs_def] split: option.splits)

lemma sched_of_switch_to: "sched_of (switch_to n s) = a_switch n (sched_of s)"
  by (auto simp: switch_to_def request_switch_context_def a_switch_def sched_of_def split: option.splits)

lemma thread_get_by_tid_eq: "thread_get_by_tid n s = by_tid n (sched_of s)"
  by (simp add: thread_get_by_tid_def by_tid_def)

lemma sched_of_yield: "sched_of (thread_yield_internal s) = a_yield (sched_of s)"
  by (auto simp: thread_yield_internal_def a_yield_def find_next_runnable_eq sched_of_switch_to split: option.splits)

lemma sched_of_block: "sched_of (thread_block_internal n s) = a_block n (sched_of s)"
  by (auto simp: thread_block_internal_def a_block_def a_yield_def find_next_runnable_eq sched_of_switch_to
      thread_get_by_tid_eq Let_def split: option.splits)

lemma sched_of_unblock_locked: "sched_of (thread_unblock_locked n s) = a_unblock n (sched_of s)"
  by (auto simp: thread_unblock_locked_def a_unblock_def thread_get_by_tid_eq split: option.splits)

lemma sched_of_restore: "sched_of (snd (arch_task_restore_context (Some t) s)) = (sched_of s)\<lparr>on_ctx := Some t\<rparr>"
  by (auto simp: arch_task_restore_context_def ldt_reload_def Let_def sched_of_def)

lemma sched_of_switch_fields [simp]:
  "sched_of (s\<lparr>switch_vcb := a, switch_ctx := b\<rparr>) = (sched_of s)\<lparr>goal_dir := a, goal_ctx := b\<rparr>"
  "sched_of (s\<lparr>mem := upd_paging (arch_load_cr3 c) (mem s)\<rparr>) = (sched_of s)\<lparr>on_dir := c\<rparr>"
  by (simp_all add: sched_of_def upd_paging_def arch_load_cr3_def)

lemma sched_of_commit: "sched_of (arch_task_context_switch s) = a_commit (sched_of s)"
  by (cases "switch_vcb s"; cases "switch_ctx s")
    (simp_all add: arch_task_context_switch_def a_commit_def sched_of_restore vmm_switch_def Let_def vcb_of_def sched_of_mem)

lemma sched_of_detach: "sched_of (tcb_detach_wait (Some t) s) = a_detach t (sched_of s)"
  by (auto simp: tcb_detach_wait_def a_detach_def a_dequeue_def split: option.splits)

lemma next_ready_other:
  assumes "sched_ok a" "running a = Some c" "next_ready a c = Some n"
  shows "n \<noteq> c"
proof -
  have "distinct (threads a)" using assms(1) by (simp add: sched_ok_def threads_ok_def)
  then show ?thesis
    using find_SomeD [OF assms(3) [unfolded next_ready_def]] turn_order_set [OF _ running_thread [OF assms(1,2)]] by blast
qed

lemma sched_of_if_needed:
  "sched_ok (sched_of s) \<Longrightarrow> sched_of (snd (schedule_if_needed s)) = a_yield (sched_of s)"
  using next_ready_other [of "sched_of s"]
  by (auto simp: schedule_if_needed_def a_yield_def find_next_runnable_eq find_next_runnable_def [of None] sched_of_switch_to
      split: option.splits)

lemma sched_of_tick:
  assumes "sched_ok (sched_of s)"
  shows "sched_of (schedule_isr s) = sched_of s \<or> sched_of (schedule_isr s) = a_yield (sched_of s)"
proof -
  have m: "sched_of (x\<lparr>mem := (mem x)\<lparr>locks_of := l\<rparr>\<rparr>) = sched_of x" for x l by (rule sched_of_mem) simp
  have n: "sched_of (s\<lparr>timeslice := 0, mem := (mem s)\<lparr>locks_of := l\<rparr>\<rparr>) = sched_of s" for l
    using m [where x = "s\<lparr>timeslice := 0\<rparr>" and l = l] by simp
  then have "sched_of (snd (schedule_if_needed (s\<lparr>timeslice := 0, mem := (mem s)\<lparr>locks_of := l\<rparr>\<rparr>))) = a_yield (sched_of s)" for l
    using sched_of_if_needed [of "s\<lparr>timeslice := 0, mem := (mem s)\<lparr>locks_of := l\<rparr>\<rparr>"] assms by simp
  with n show ?thesis by (simp add: schedule_isr_def Let_def m split: prod.splits)
qed

lemma sched_of_set_pcb_state [simp]: "sched_of (set_pcb p (\<lambda>x. x\<lparr>p_state := v\<rparr>) s) = sched_of s"
  by (auto simp: sched_of_def set_pcb_def)

lemma sched_of_states: "sched_of (fold (\<lambda>t. set_tcb t (\<lambda>x. x\<lparr>t_state := v\<rparr>)) ts s) = a_states v ts (sched_of s)"
  by (induction ts arbitrary: s) (simp_all add: a_states_def)

section \<open>Fairness\<close>

text \<open>
  Property C9: the scheduler is fair.  In a well-formed state, a ready thread that is never blocked gets the
  CPU after fewer \<^verbatim>\<open>thread_yield\<close> calls than there are threads, whichever thread runs now: the search that
  starts behind the running thread and wraps around is a round robin.
\<close>

theorem thread_yield_round_robin:
  assumes "sched_ok (sched_of s)" and "thread_run s = Some c"
    and "t \<in> set (thread_head s)" and "t_state (tcb_at s t) = TS_READY"
  shows "\<exists>k<length (thread_head s). thread_run ((thread_yield_internal ^^ k) s) = Some t"
proof -
  have "sched_of ((thread_yield_internal ^^ k) s) = (a_yield ^^ k) (sched_of s)" for k
    by (induction k) (simp_all add: sched_of_yield)
  then show ?thesis using a_yield_round_robin [of "sched_of s" c t] assms by (metis core_of_fields(2) sched_of_fields(1,3,8))
qed

lemma demo_ok: "sched_ok (sched_of (demo m))" "committed (sched_of (demo m))"
  by (auto simp: sched_ok_def threads_ok_def procs_ok_def queues_ok_def mboxes_ok_def committed_def demo_def boot_kernel_def
      demo_tcb_def demo_pcb_def null_tcb_def null_pcb_def inj_on_def)

lemma thread_yield_round_robin_witness:
  "\<forall>m. sched_ok (sched_of (demo m)) \<and> (\<exists>k<3. thread_run ((thread_yield_internal ^^ k) (demo m)) = Some 0x300)"
proof
  fix m
  have "thread_run (demo m) = Some 0x100" "0x300 \<in> set (thread_head (demo m))" "t_state (tcb_at (demo m) 0x300) = TS_READY"
    "length (thread_head (demo m)) = 3"
    by (simp_all add: demo_def boot_kernel_def demo_tcb_def null_tcb_def)
  then show "sched_ok (sched_of (demo m)) \<and> (\<exists>k<3. thread_run ((thread_yield_internal ^^ k) (demo m)) = Some 0x300)"
    using thread_yield_round_robin [OF demo_ok(1), of m "0x100" "0x300"] demo_ok(1) by metis
qed

end
