(* ===== verification/Waitq.thy ===== *)
theory Waitq
  imports Sched
begin

text \<open>
  Wait queues (\<^verbatim>\<open>kernel/sync/wait_queue.c\<close>) and counting semaphores (\<^verbatim>\<open>kernel/sync/semaphore.c\<close>).  A waiter is
  added at the head of the queue and the wake-ups take the first one.  A sleeping thread is blocked by
  \<^verbatim>\<open>thread_block\<close>, which inside a gate runs \<open>thread_block_internal\<close> directly.
\<close>

section \<open>Wait queues\<close>

definition wait_queue_init :: "wq_ref \<Rightarrow> kernel \<Rightarrow> int \<times> kernel" where
  "wait_queue_init wq s =
     (let (l, s) = lock_alloc_k s; s = set_wq wq (\<lambda>q. q\<lparr>wq_lock := l\<rparr>) s in
      if l = None then (E_LIMIT, s)
      else (0, set_wq wq (\<lambda>q. q\<lparr>waiters := []\<rparr>) s))"

definition wait_queue_destroy :: "wq_ref \<Rightarrow> kernel \<Rightarrow> kernel" where
  "wait_queue_destroy wq s = set_wq wq (\<lambda>q. q\<lparr>wq_lock := None\<rparr>) (lock_release_k (wq_lock (wq_at s wq)) s)"

definition wait_queue_sleep_locked :: "wq_ref \<Rightarrow> kernel \<Rightarrow> kernel" where
  "wait_queue_sleep_locked wq s =
     (case thread_get_by_tid (thread_get_tid s) s of
        None \<Rightarrow> s
      | Some me \<Rightarrow>
          if waiting_on (tcb_at s me) \<noteq> None then s
          else let s = set_tcb me (\<lambda>x. x\<lparr>waiting_on := Some wq\<rparr>) s;
                   s = set_wq wq (\<lambda>q. q\<lparr>waiters := me # waiters q\<rparr>) s
               in thread_block_internal (tid (tcb_at s me)) s)"

text \<open>The three statements that take the waiter \<open>t\<close> off the queue and make it runnable.\<close>

definition wake_waiter :: "wq_ref \<Rightarrow> ptr \<Rightarrow> kernel \<Rightarrow> kernel" where
  "wake_waiter wq t s =
     (let s = set_tcb t (\<lambda>x. x\<lparr>waiting_on := None\<rparr>) s;
          s = set_wq wq (\<lambda>q. q\<lparr>waiters := list_remove t (waiters q)\<rparr>) s
      in thread_unblock_internal (tid (tcb_at s t)) s)"

definition wait_queue_wake_one :: "wq_ref \<Rightarrow> kernel \<Rightarrow> kernel" where
  "wait_queue_wake_one wq s =
     (if waiters (wq_at s wq) = [] then s
      else case find (\<lambda>t. waiting_on (tcb_at s t) = Some wq) (waiters (wq_at s wq)) of
             None \<Rightarrow> s | Some t \<Rightarrow> wake_waiter wq t s)"

definition wait_queue_wake_one_locked :: "wq_ref \<Rightarrow> kernel \<Rightarrow> kernel" where
  "wait_queue_wake_one_locked wq s =
     (if waiters (wq_at s wq) = [] then s
      else case find (\<lambda>t. waiting_on (tcb_at s t) = Some wq) (waiters (wq_at s wq)) of
             None \<Rightarrow> s
           | Some t \<Rightarrow>
               let s = set_tcb t (\<lambda>x. x\<lparr>waiting_on := None\<rparr>) s;
                   s = set_wq wq (\<lambda>q. q\<lparr>waiters := list_remove t (waiters q)\<rparr>) s
               in thread_unblock_locked (tid (tcb_at s t)) s)"

definition wait_queue_wake_by_tid :: "wq_ref \<Rightarrow> u32 \<Rightarrow> kernel \<Rightarrow> kernel" where
  "wait_queue_wake_by_tid wq n s =
     (if waiters (wq_at s wq) = [] then s
      else case find (\<lambda>t. waiting_on (tcb_at s t) = Some wq \<and> (of_int (tid (tcb_at s t)) :: u32) = n) (waiters (wq_at s wq)) of
             None \<Rightarrow> s | Some t \<Rightarrow> wake_waiter wq t s)"

definition wait_queue_wake_all :: "wq_ref \<Rightarrow> kernel \<Rightarrow> kernel" where
  "wait_queue_wake_all wq s =
     fold (\<lambda>t s. if waiting_on (tcb_at s t) = Some wq then wake_waiter wq t s else s) (waiters (wq_at s wq)) s"

section \<open>Semaphores\<close>

definition set_sem :: "ptr \<Rightarrow> (semaphore \<Rightarrow> semaphore) \<Rightarrow> kernel \<Rightarrow> kernel" where
  "set_sem p f s = s\<lparr>sem_at := (sem_at s)(p := f (sem_at s p))\<rparr>"

definition semaphore_create :: "int \<Rightarrow> kernel \<Rightarrow> ptr option \<times> kernel" where
  "semaphore_create init_value s =
     (case kmalloc_k sizeof_semaphore s of
        (None, s) \<Rightarrow> (None, s)
      | (Some sem, s) \<Rightarrow>
          let (r, s) = wait_queue_init (Sem_wq sem) s in
          if r \<noteq> 0 then (None, kfree_k sem s)
          else let s = set_sem sem (\<lambda>_. \<lparr>sem_id = sint (next_sem s), sem_value = init_value\<rparr>) (s\<lparr>next_sem := next_sem s + 1\<rparr>)
               in (Some sem, s\<lparr>semaphore_head := sem # semaphore_head s\<rparr>))"

definition semaphore_destroy :: "ptr option \<Rightarrow> kernel \<Rightarrow> int \<times> kernel" where
  "semaphore_destroy po s =
     (case po of
        None \<Rightarrow> (E_INVAL, s)
      | Some sem \<Rightarrow>
          if waiters (wq_at s (Sem_wq sem)) \<noteq> [] then (E_BUSY, s)
          else let s = s\<lparr>semaphore_head := list_remove sem (semaphore_head s)\<rparr>;
                   s = lock_release_k (wq_lock (wq_at s (Sem_wq sem))) s
               in (0, kfree_k sem s))"

definition semaphore_get :: "int \<Rightarrow> kernel \<Rightarrow> ptr option" where
  "semaphore_get n s = find (\<lambda>p. sem_id (sem_at s p) = n) (semaphore_head s)"

definition semaphore_wait :: "int \<Rightarrow> kernel \<Rightarrow> int \<times> kernel" where
  "semaphore_wait semid s =
     (case semaphore_get semid s of
        None \<Rightarrow> (E_INVAL, s)
      | Some sem \<Rightarrow>
          let s = set_sem sem (\<lambda>x. x\<lparr>sem_value := c_int (sem_value x - 1)\<rparr>) s
          in (0, if sem_value (sem_at s sem) < 0 then wait_queue_sleep_locked (Sem_wq sem) s else s))"

definition semaphore_signal :: "int \<Rightarrow> kernel \<Rightarrow> int \<times> kernel" where
  "semaphore_signal semid s =
     (case semaphore_get semid s of
        None \<Rightarrow> (E_INVAL, s)
      | Some sem \<Rightarrow>
          let s = set_sem sem (\<lambda>x. x\<lparr>sem_value := c_int (sem_value x + 1)\<rparr>) s;
              wake = sem_value (sem_at s sem) \<le> 0
          in (0, if wake then wait_queue_wake_one (Sem_wq sem) s else s))"

definition semaphore_has_waiters :: "ptr option \<Rightarrow> kernel \<Rightarrow> bool" where
  "semaphore_has_waiters po s = (case po of None \<Rightarrow> False | Some sem \<Rightarrow> waiters (wq_at s (Sem_wq sem)) \<noteq> [])"

section \<open>Refinement\<close>

lemma find_unique: "x \<in> set xs \<Longrightarrow> P x \<Longrightarrow> {y\<in>set xs. P y} \<subseteq> {x} \<Longrightarrow> find P xs = Some x"
proof (induction xs)
  case (Cons y ys)
  show ?case
  proof (cases "P y")
    case True
    then show ?thesis using Cons.prems(3) by auto
  next
    case False
    then have "x \<in> set ys" using Cons.prems by auto
    moreover have "{y\<in>set ys. P y} \<subseteq> {x}" using Cons.prems(3) by auto
    ultimately show ?thesis using False Cons.IH Cons.prems(2) by simp
  qed
qed simp

lemma by_tid_of:
  assumes "sched_ok a" and t: "t \<in> set (threads a)"
  shows "by_tid (c_tid (core a t)) a = Some t"
proof -
  have "inj_on (\<lambda>t. c_tid (core a t)) (set (threads a))" using assms(1) by (simp add: sched_ok_def threads_ok_def)
  then have "{y\<in>set (threads a). c_tid (core a y) = c_tid (core a t)} \<subseteq> {t}"
    using t by (blast dest: inj_onD)
  then show ?thesis unfolding by_tid_def using t by (intro find_unique) simp_all
qed

lemma sched_of_sleep:
  assumes ok: "sched_ok (sched_of s)" and run: "thread_run s = Some c"
  shows "sched_of (wait_queue_sleep_locked q s) = a_sleep q (sched_of s)"
proof -
  have "thread_get_by_tid (thread_get_tid s) s = Some c"
    using by_tid_of [OF ok running_thread [OF ok], of c] run by (simp add: thread_get_by_tid_eq thread_get_tid_def)
  then show ?thesis using run by (simp add: wait_queue_sleep_locked_def a_sleep_def Let_def sched_of_block a_enqueue_def)
qed

lemma sched_of_wake_waiter: "sched_of (wake_waiter q t s) = a_unblock (tid (tcb_at s t)) (a_dequeue q t (sched_of s))"
  by (simp add: wake_waiter_def Let_def thread_unblock_internal_def sched_of_unblock_locked a_dequeue_def)

lemma waiters_head:
  assumes ok: "sched_ok (sched_of s)" and "waiters (wq_at s q) = t # ts"
  shows "find (\<lambda>t. waiting_on (tcb_at s t) = Some q) (waiters (wq_at s q)) = Some t"
  using queue_mem(1) [OF ok, of t q] assms(2) by simp

lemma sched_of_wake_one:
  assumes "sched_ok (sched_of s)"
  shows "sched_of (wait_queue_wake_one q s) = a_wake_one q (sched_of s)"
    "sched_of (wait_queue_wake_one_locked q s) = a_wake_one q (sched_of s)"
proof -
  show "sched_of (wait_queue_wake_one q s) = a_wake_one q (sched_of s)"
    using waiters_head [OF assms, of q]
    by (auto simp: wait_queue_wake_one_def a_wake_one_def sched_of_wake_waiter split: list.splits)
  show "sched_of (wait_queue_wake_one_locked q s) = a_wake_one q (sched_of s)"
    using waiters_head [OF assms, of q]
    by (auto simp: wait_queue_wake_one_locked_def a_wake_one_def sched_of_unblock_locked Let_def a_dequeue_def split: list.splits)
qed

section \<open>What waiting and waking do\<close>

lemma a_yield_keeps [simp]:
  "threads (a_yield a) = threads a" "queue (a_yield a) = queue a" "sems (a_yield a) = sems a" "sem_list (a_yield a) = sem_list a"
  "c_state (core (a_yield a) t) = c_state (core a t)" "c_wait (core (a_yield a) t) = c_wait (core a t)"
  by (auto simp: a_yield_def a_switch_def split: option.splits)

lemma a_sleep_effect:
  assumes ok: "sched_ok a" and c: "running a = Some c" "c_wait (core a c) = None" "\<not> c_wake (core a c)"
    and q: "q = Sem_wq p \<or> q = Mb_wq b \<and> c_mbox (core a c) = Some b"
  shows "queue (a_sleep q a) = (queue a)(q := c # queue a q)" "c_state (core (a_sleep q a) c) = TS_PENDING"
    "c_wait (core (a_sleep q a) c) = Some q" "sems (a_sleep q a) = sems a" "sem_list (a_sleep q a) = sem_list a"
proof -
  have e: "sched_ok (a_enqueue q c a)"
    using q by (intro a_enqueue_ok [OF ok running_thread [OF ok c(1)] c(2)]) auto
  have "by_tid (c_tid (core a c)) (a_enqueue q c a) = Some c"
    using by_tid_of [OF e, of c] running_thread [OF ok c(1)] by simp
  then show "queue (a_sleep q a) = (queue a)(q := c # queue a q)" "c_state (core (a_sleep q a) c) = TS_PENDING"
    "c_wait (core (a_sleep q a) c) = Some q" "sems (a_sleep q a) = sems a" "sem_list (a_sleep q a) = sem_list a"
    using c by (simp_all add: a_sleep_def a_block_def Let_def)
qed

lemma a_wake_one_effect:
  assumes ok: "sched_ok a" and r: "running a \<noteq> None" and q: "queue a q = t # ts"
  shows "a_wake_one q a = set_core t (\<lambda>x. x\<lparr>c_wait := None, c_wake := True, c_state := TS_READY\<rparr>) (a\<lparr>queue := (queue a)(q := ts)\<rparr>)"
proof -
  have t: "t \<in> set (threads a)" "c_wait (core a t) = Some q" using queue_mem(1) [OF ok, of t q] q by auto
  have "by_tid (c_tid (core a t)) (a_dequeue q t a) = Some t"
    using by_tid_of [OF a_dequeue_ok [OF ok t], of t] t by simp
  moreover have "list_remove t (queue a q) = ts"
    using queue_mem(2) [OF ok, of q] q by (auto simp: list_remove_def filter_id_conv)
  ultimately show ?thesis
    using q r by (auto simp: a_wake_one_def a_unblock_def a_dequeue_def set_core_def split: option.splits)
qed

section \<open>Semaphores\<close>

text \<open>A negative value counts the waiters; a semaphore with a value of at least 0 has none.\<close>

definition sem_ok :: "sched \<Rightarrow> ptr \<Rightarrow> bool" where
  "sem_ok a p \<longleftrightarrow> int (length (queue a (Sem_wq p))) = max 0 (- sem_value (sems a p))"

abbreviation sem_put :: "ptr \<Rightarrow> int \<Rightarrow> sched \<Rightarrow> sched" where
  "sem_put p v a \<equiv> a\<lparr>sems := (sems a)(p := (sems a p)\<lparr>sem_value := v\<rparr>)\<rparr>"

lemma sem_put_ok [simp]: "sched_ok (a\<lparr>sems := x\<rparr>) \<longleftrightarrow> sched_ok a" "sched_ok (a\<lparr>sem_list := y\<rparr>) \<longleftrightarrow> sched_ok a"
  by (rule sched_ok_cong; simp)+

lemma sched_of_sem_wait:
  assumes "sched_ok (sched_of s)" "thread_run s = Some c" "semaphore_get n s = Some p"
  shows "sched_of (snd (semaphore_wait n s)) =
    (let v = c_int (sem_value (sem_at s p) - 1); a = sem_put p v (sched_of s) in if v < 0 then a_sleep (Sem_wq p) a else a)"
  using assms sched_of_sleep [of "set_sem p (\<lambda>x. x\<lparr>sem_value := c_int (sem_value x - 1)\<rparr>) s" c "Sem_wq p"]
  by (simp add: semaphore_wait_def set_sem_def Let_def)

lemma sched_of_sem_signal:
  assumes "sched_ok (sched_of s)" "semaphore_get n s = Some p"
  shows "sched_of (snd (semaphore_signal n s)) =
    (let v = c_int (sem_value (sem_at s p) + 1); a = sem_put p v (sched_of s) in if v \<le> 0 then a_wake_one (Sem_wq p) a else a)"
  using assms sched_of_wake_one(1) [of "set_sem p (\<lambda>x. x\<lparr>sem_value := c_int (sem_value x + 1)\<rparr>) s" "Sem_wq p"]
  by (simp add: semaphore_signal_def set_sem_def Let_def)

lemma sem_wait_effect:
  assumes ok: "sched_ok (sched_of s)" and get: "semaphore_get n s = Some p" and sem: "sem_ok (sched_of s) p"
    and run: "thread_run s = Some c" and c: "\<not> wake_pending (tcb_at s c)" "waiting_on (tcb_at s c) = None"
    and b: "- 2147483648 < sem_value (sem_at s p)" "sem_value (sem_at s p) < 2147483647"
    and w: "w = snd (semaphore_wait n s)"
  shows "sched_ok (sched_of w)" "sem_ok (sched_of w) p" "sem_value (sem_at w p) = sem_value (sem_at s p) - 1"
    "if 0 < sem_value (sem_at s p) then tcb_at w = tcb_at s \<and> thread_run w = Some c
     else waiters (wq_at w (Sem_wq p)) = c # waiters (wq_at s (Sem_wq p)) \<and> t_state (tcb_at w c) = TS_PENDING \<and>
       waiting_on (tcb_at w c) = Some (Sem_wq p)"
proof -
  let ?v = "sem_value (sem_at s p) - 1"
  let ?a = "sem_put p ?v (sched_of s)"
  have cv: "c_int ?v = ?v" using b by (intro c_int_id) simp_all
  have len: "int (length (waiters (wq_at s (Sem_wq p)))) = max 0 (- sem_value (sem_at s p))" using sem by (simp add: sem_ok_def)
  have "(sched_ok (sched_of w) \<and> sem_ok (sched_of w) p \<and> sem_value (sem_at w p) = ?v) \<and>
    (if 0 < sem_value (sem_at s p) then tcb_at w = tcb_at s \<and> thread_run w = Some c
     else waiters (wq_at w (Sem_wq p)) = c # waiters (wq_at s (Sem_wq p)) \<and> t_state (tcb_at w c) = TS_PENDING \<and>
       waiting_on (tcb_at w c) = Some (Sem_wq p))"
  proof (cases "0 < sem_value (sem_at s p)")
    case True
    then have "w = set_sem p (\<lambda>x. x\<lparr>sem_value := ?v\<rparr>) s"
      using w get cv by (simp add: semaphore_wait_def set_sem_def)
    then show ?thesis using True ok run len by (simp add: set_sem_def sem_ok_def)
  next
    case False
    have sw: "sched_of w = a_sleep (Sem_wq p) ?a" using False sched_of_sem_wait [OF ok run get] w cv by (simp add: Let_def)
    have oka: "sched_ok ?a" using ok by simp
    have "running ?a = Some c" "c_wait (core ?a c) = None" "\<not> c_wake (core ?a c)" using run c by simp_all
    note e = a_sleep_effect [OF oka this disjI1 [OF refl], of p]
    have e': "queue (sched_of w) = (queue ?a)(Sem_wq p := c # queue ?a (Sem_wq p))" "c_state (core (sched_of w) c) = TS_PENDING"
      "c_wait (core (sched_of w) c) = Some (Sem_wq p)" "sems (sched_of w) = sems ?a"
      unfolding sw by (rule e)+
    have "sched_ok (sched_of w)" unfolding sw by (rule a_sleep_ok [OF oka]) simp
    moreover have "waiters (wq_at w (Sem_wq p)) = c # waiters (wq_at s (Sem_wq p))"
      using fun_cong [OF e'(1), of "Sem_wq p"] by simp
    moreover have "sem_value (sem_at w p) = ?v" using e'(4) by simp
    ultimately show ?thesis using False e'(2,3) len by (simp add: sem_ok_def)
  qed
  then show "sched_ok (sched_of w)" "sem_ok (sched_of w) p" "sem_value (sem_at w p) = sem_value (sem_at s p) - 1"
    "if 0 < sem_value (sem_at s p) then tcb_at w = tcb_at s \<and> thread_run w = Some c
     else waiters (wq_at w (Sem_wq p)) = c # waiters (wq_at s (Sem_wq p)) \<and> t_state (tcb_at w c) = TS_PENDING \<and>
       waiting_on (tcb_at w c) = Some (Sem_wq p)" by blast+
qed

lemma sem_signal_effect:
  assumes ok: "sched_ok (sched_of s)" and get: "semaphore_get n s = Some p" and sem: "sem_ok (sched_of s) p"
    and run: "thread_run s \<noteq> None" and b: "- 2147483648 < sem_value (sem_at s p)" "sem_value (sem_at s p) < 2147483647"
    and g: "g = snd (semaphore_signal n s)"
  shows "sched_ok (sched_of g) \<and> sem_ok (sched_of g) p \<and> sem_value (sem_at g p) = sem_value (sem_at s p) + 1 \<and>
    (case waiters (wq_at s (Sem_wq p)) of
       [] \<Rightarrow> tcb_at g = tcb_at s
     | t # ts \<Rightarrow> waiters (wq_at g (Sem_wq p)) = ts \<and> t_state (tcb_at g t) = TS_READY \<and> waiting_on (tcb_at g t) = None)"
proof -
  have cv: "c_int (sem_value (sem_at s p) + 1) = sem_value (sem_at s p) + 1" using b by (intro c_int_id) simp_all
  show ?thesis
  proof (cases "waiters (wq_at s (Sem_wq p))")
    case Nil
    then have v: "0 \<le> sem_value (sem_at s p)" using sem by (simp add: sem_ok_def)
    then have "g = set_sem p (\<lambda>x. x\<lparr>sem_value := sem_value (sem_at s p) + 1\<rparr>) s"
      using g get cv by (simp add: semaphore_signal_def set_sem_def)
    then show ?thesis using Nil v ok by (simp add: set_sem_def sem_ok_def)
  next
    case (Cons t ts)
    let ?v = "sem_value (sem_at s p) + 1"
    let ?a = "sem_put p ?v (sched_of s)"
    have len: "int (length (t # ts)) = max 0 (- sem_value (sem_at s p))" using sem Cons by (simp add: sem_ok_def)
    then have v: "?v \<le> 0" by simp
    have oka: "sched_ok ?a" using ok by simp
    have sg: "sched_of g = a_wake_one (Sem_wq p) ?a" using v sched_of_sem_signal [OF ok get] g cv by (simp add: Let_def)
    also have "\<dots> = set_core t (\<lambda>x. x\<lparr>c_wait := None, c_wake := True, c_state := TS_READY\<rparr>) (?a\<lparr>queue := (queue ?a)(Sem_wq p := ts)\<rparr>)"
      using a_wake_one_effect [OF oka, of "Sem_wq p" t ts] run Cons by simp
    finally have e: "queue (sched_of g) (Sem_wq p) = ts" "c_state (core (sched_of g) t) = TS_READY"
      "c_wait (core (sched_of g) t) = None" "sems (sched_of g) = sems ?a" by simp_all
    moreover have "sched_ok (sched_of g)" unfolding sg by (rule a_wake_one_ok [OF oka])
    ultimately show ?thesis using Cons len by (simp add: sem_ok_def)
  qed
qed

text \<open>
  Property C16: the semaphore counts.  Called in a well-formed state by a thread that is not yet waiting and has
  no wake-up pending, and with a value short of the limits of a 32-bit \<^verbatim>\<open>int\<close>, \<^verbatim>\<open>semaphore_wait\<close> lets the caller pass and takes a unit when the value is positive, and
  otherwise puts it to sleep at the head of the queue; \<^verbatim>\<open>semaphore_signal\<close> wakes exactly the waiter at the head
  of the queue, or adds a unit when nobody waits.  Both keep the value equal to the units left minus
  the number of waiters, and the scheduler's state well formed.
\<close>

theorem semaphore_counts:
  assumes ok: "sched_ok (sched_of s)" and get: "semaphore_get n s = Some p" and sem: "sem_ok (sched_of s) p"
    and run: "thread_run s = Some c" and c: "\<not> wake_pending (tcb_at s c)" "waiting_on (tcb_at s c) = None"
    and b: "- 2147483648 < sem_value (sem_at s p)" "sem_value (sem_at s p) < 2147483647"
  shows "let v = sem_value (sem_at s p); q = Sem_wq p; w = snd (semaphore_wait n s); g = snd (semaphore_signal n s) in
    sched_ok (sched_of w) \<and> sem_ok (sched_of w) p \<and> sem_value (sem_at w p) = v - 1 \<and>
    (if 0 < v then tcb_at w = tcb_at s \<and> thread_run w = Some c
     else waiters (wq_at w q) = c # waiters (wq_at s q) \<and> t_state (tcb_at w c) = TS_PENDING \<and> waiting_on (tcb_at w c) = Some q) \<and>
    sched_ok (sched_of g) \<and> sem_ok (sched_of g) p \<and> sem_value (sem_at g p) = v + 1 \<and>
    (case waiters (wq_at s q) of
       [] \<Rightarrow> tcb_at g = tcb_at s
     | t # ts \<Rightarrow> waiters (wq_at g q) = ts \<and> t_state (tcb_at g t) = TS_READY \<and> waiting_on (tcb_at g t) = None)"
  unfolding Let_def using sem_wait_effect [OF ok get sem run c b refl] sem_signal_effect [OF ok get sem _ b refl] run by simp

text \<open>The example system with a semaphore of value 0, numbered 7.\<close>

definition demo_sem :: "memsys \<Rightarrow> kernel" where
  "demo_sem m = (demo m)\<lparr>sem_at := (\<lambda>_. \<lparr>sem_id = 7, sem_value = 0\<rparr>), semaphore_head := [0x900]\<rparr>"

lemma demo_sem_fields [simp]:
  "thread_run (demo_sem m) = Some 0x100" "thread_head (demo_sem m) = [0x300, 0x200, 0x100]" "semaphore_get 7 (demo_sem m) = Some 0x900"
  "sem_value (sem_at (demo_sem m) p) = 0" "waiters (wq_at (demo_sem m) q) = []" "sched_ok (sched_of (demo_sem m))"
  "\<not> wake_pending (tcb_at (demo_sem m) t)" "waiting_on (tcb_at (demo_sem m) t) = None"
  using demo_ok(1) [of m]
  by (simp_all add: demo_sem_def semaphore_get_def) (simp_all add: demo_def boot_kernel_def demo_tcb_def null_tcb_def)

lemma semaphore_counts_witness:
  "\<forall>m. sched_ok (sched_of (demo_sem m)) \<and> sem_ok (sched_of (demo_sem m)) 0x900 \<and>
     waiters (wq_at (snd (semaphore_wait 7 (demo_sem m))) (Sem_wq 0x900)) = [0x100] \<and>
     sem_value (sem_at (snd (semaphore_signal 7 (demo_sem m))) 0x900) = 1"
proof
  fix m
  have sem: "sem_ok (sched_of (demo_sem m)) 0x900" by (simp add: sem_ok_def)
  show "sched_ok (sched_of (demo_sem m)) \<and> sem_ok (sched_of (demo_sem m)) 0x900 \<and>
     waiters (wq_at (snd (semaphore_wait 7 (demo_sem m))) (Sem_wq 0x900)) = [0x100] \<and>
     sem_value (sem_at (snd (semaphore_signal 7 (demo_sem m))) 0x900) = 1"
    using semaphore_counts [of "demo_sem m" 7 "0x900" "0x100"] sem by (simp add: Let_def)
qed

end
