(* ===== verification/Mailbox.thy ===== *)
theory Mailbox
  imports Waitq
begin

text \<open>
  Mails and mailboxes (\<^verbatim>\<open>kernel/ipc/mailbox.c\<close>).  A mail has two parts: the user-visible \<^verbatim>\<open>mail\<close> in the user
  heap and its bookkeeping \<^verbatim>\<open>mailmeta\<close> in the kernel heap; the registry \<open>inflight\<close> links them.  A mail
  is queued at the head of the receiver's list and taken from its tail.
\<close>

section \<open>Allocation\<close>

definition malloc_k :: "u32 \<Rightarrow> kernel \<Rightarrow> ptr option \<times> kernel" where
  "malloc_k n s = (case malloc n (heaps_of (mem s)) of
     None \<Rightarrow> (None, s)
   | Some (p, h) \<Rightarrow> (if p = 0 then None else Some p, s\<lparr>mem := (mem s)\<lparr>heaps_of := h\<rparr>\<rparr>))"

definition free_k :: "ptr \<Rightarrow> kernel \<Rightarrow> kernel" where
  "free_k p s = s\<lparr>mem := upd_heap (free p) (mem s)\<rparr>"

section \<open>Mails\<close>

definition get_mailmeta :: "ptr \<Rightarrow> kernel \<Rightarrow> ptr option" where
  "get_mailmeta m s = (if m = 0 then None else find (\<lambda>meta. payload (meta_at s meta) = m) (inflight s))"

definition alloc_mail :: "kernel \<Rightarrow> ptr option \<times> kernel" where
  "alloc_mail s =
     (case malloc_k sizeof_mail s of
        (None, s) \<Rightarrow> (None, s)
      | (Some m, s) \<Rightarrow> case kmalloc_k sizeof_mailmeta s of
          (None, s) \<Rightarrow> (None, free_k m s)
        | (Some meta, s) \<Rightarrow>
            let s = s\<lparr>mail_at := (mail_at s)(m := null_mail)\<rparr>;
                s = set_meta meta (\<lambda>x. null_meta\<lparr>payload := m, ref_count := 1\<rparr>) s;
                (l, s) = lock_alloc_k s;
                s = set_meta meta (\<lambda>x. x\<lparr>meta_lock := l\<rparr>) s in
            if l = None then (None, free_k m (kfree_k meta s))
            else let s = set_meta meta (\<lambda>x. x\<lparr>unique_id := next_mail s\<rparr>) s;
                     s = s\<lparr>next_mail := next_mail s + 1\<rparr>
                 in (Some m, s\<lparr>inflight := meta # inflight s\<rparr>))"

definition release_mail :: "ptr \<Rightarrow> kernel \<Rightarrow> kernel" where
  "release_mail m s =
     (if m = 0 then s
      else case get_mailmeta m s of
        None \<Rightarrow> s
      | Some meta \<Rightarrow>
          let s = set_meta meta (\<lambda>x. x\<lparr>ref_count := ref_count x - 1\<rparr>) s in
          if ref_count (meta_at s meta) > 0 then s
          else let s = lock_release_k (meta_lock (meta_at s meta)) s;
                   s = s\<lparr>inflight := list_remove meta (inflight s)\<rparr>;
                   s = set_meta meta (\<lambda>_. null_meta) s;
                   s = kfree_k meta s;
                   s = s\<lparr>mail_at := (mail_at s)(m := null_mail)\<rparr>
               in free_k m s)"

section \<open>Mailboxes\<close>

definition alloc_mailbox :: "int \<Rightarrow> int \<Rightarrow> kernel \<Rightarrow> ptr option \<times> kernel" where
  "alloc_mailbox opid otid s =
     (case kmalloc_k sizeof_mailbox s of
        (None, s) \<Rightarrow> (None, s)
      | (Some mb, s) \<Rightarrow>
          let (l, s) = lock_alloc_k s in
          if l = None then (None, kfree_k mb s)
          else let s = set_mb mb (\<lambda>_. null_mailbox\<lparr>mb_lock := l, owner_pid := opid, owner_tid := otid\<rparr>) s;
                   s = set_wq (Mb_wq mb) (\<lambda>q. q\<lparr>waiters := [], wq_lock := l\<rparr>) s
               in (Some mb, s))"

definition release_mailbox :: "ptr option \<Rightarrow> kernel \<Rightarrow> kernel" where
  "release_mailbox mbo s =
     (case mbo of
        None \<Rightarrow> s
      | Some mb \<Rightarrow>
          let s = fold (\<lambda>meta s. release_mail (payload (meta_at s meta))
                                   (set_mb mb (\<lambda>x. x\<lparr>mails := list_remove meta (mails x)\<rparr>) s)) (rev (mails (mb_at s mb))) s;
              s = fold (\<lambda>(mh, h) s. kfree_k mh (set_mb mb (\<lambda>x. x\<lparr>handlers := list_remove (mh, h) (handlers x)\<rparr>) s))
                    (rev (handlers (mb_at s mb))) s;
              s = lock_release_k (mb_lock (mb_at s mb)) s;
              s = set_mb mb (\<lambda>_. null_mailbox) s;
              s = set_wq (Mb_wq mb) (\<lambda>q. q\<lparr>waiters := [], wq_lock := None\<rparr>) s
          in kfree_k mb s)"

section \<open>Sending\<close>

text \<open>
  A handler is a function of the kernel registered by address.  Its call is recorded in \<open>calls\<close>, newest first and with
  its mail; what it does itself is not modelled, so what is proved of mailboxes with handlers is about the sender's side.
\<close>

definition run_handlers :: "ptr \<Rightarrow> ptr \<Rightarrow> kernel \<Rightarrow> kernel" where
  "run_handlers mb m s =
     fold (\<lambda>(mh, h) s. if h \<noteq> 0 then s\<lparr>calls := (h, m) # calls s\<rparr> else s) (handlers (mb_at s mb)) s"

definition send_mail :: "ptr option \<Rightarrow> ptr \<Rightarrow> kernel \<Rightarrow> int \<times> kernel" where
  "send_mail mbo m s =
     (case mbo of
        None \<Rightarrow> (E_INVAL, s)
      | Some mb \<Rightarrow>
          if m = 0 then (E_INVAL, s)
          else if handlers (mb_at s mb) \<noteq> [] then (0, release_mail m (run_handlers mb m s))
          else case get_mailmeta m s of
                 None \<Rightarrow> (E_INVAL, release_mail m s)
               | Some meta \<Rightarrow>
                   (0, wait_queue_wake_one (Mb_wq mb) (set_mb mb (\<lambda>x. x\<lparr>mails := meta # mails x\<rparr>) s)))"

definition subscribed :: "mailbox \<Rightarrow> u32 \<Rightarrow> bool" where
  "subscribed b magic \<longleftrightarrow> magic \<noteq> 0 \<and> find (\<lambda>i. subscriptions b ! i = magic) [0..<MAX_SUBSCRIPTION_COUNT] \<noteq> None"

definition handler_recipients :: "u32 \<Rightarrow> kernel \<Rightarrow> nat" where
  "handler_recipients magic s =
     length (filter (\<lambda>t. case t_mailbox (tcb_at s t) of
       None \<Rightarrow> False | Some mb \<Rightarrow> handlers (mb_at s mb) \<noteq> [] \<and> subscribed (mb_at s mb) magic) (thread_head s))"

definition queue_clone :: "ptr \<Rightarrow> ptr \<Rightarrow> kernel \<Rightarrow> kernel" where
  "queue_clone mb m s =
     (case alloc_mail s of
        (None, s) \<Rightarrow> s
      | (Some clone, s) \<Rightarrow>
          let o' = mail_at s m;
              s = s\<lparr>mail_at := (mail_at s)(clone := (mail_at s clone)\<lparr>m_magic := m_magic o', sender_tid := sender_tid o',
                      receiver_tid := receiver_tid o', data_size := data_size o', m_data := m_data o'\<rparr>)\<rparr>;
              s = (case get_mailmeta clone s of
                     None \<Rightarrow> s | Some cm \<Rightarrow> set_mb mb (\<lambda>x. x\<lparr>mails := cm # mails x\<rparr>) s)
          in wait_queue_wake_one_locked (Mb_wq mb) s)"

definition deliver_to :: "ptr \<Rightarrow> ptr \<Rightarrow> kernel \<Rightarrow> kernel" where
  "deliver_to m t s =
     (case t_mailbox (tcb_at s t) of
        None \<Rightarrow> s
      | Some mb \<Rightarrow>
          let has_handler = handlers (mb_at s mb) \<noteq> [];
              has_subscribed = subscribed (mb_at s mb) (m_magic (mail_at s m)) in
          if \<not> has_subscribed then s
          else if has_handler then snd (send_mail (Some mb) m s)
          else queue_clone mb m s)"

definition send_broadcast :: "ptr \<Rightarrow> kernel \<Rightarrow> int \<times> kernel" where
  "send_broadcast m s =
     (let has_any_mailbox = list_ex (\<lambda>t. t_mailbox (tcb_at s t) \<noteq> None) (thread_head s) in
      if \<not> has_any_mailbox then (0, release_mail m s)
      else case get_mailmeta m s of
             None \<Rightarrow> (E_INVAL, s)
           | Some meta \<Rightarrow>
               let n = handler_recipients (m_magic (mail_at s m)) s;
                   s = set_meta meta (\<lambda>x. x\<lparr>ref_count := ref_count x + int n\<rparr>) s;
                   s = fold (deliver_to m) (thread_head s) s
               in (0, release_mail m s))"

definition send :: "ptr \<Rightarrow> kernel \<Rightarrow> int \<times> kernel" where
  "send m s =
     (if m = 0 then (E_INVAL, s)
      else if receiver_tid (mail_at s m) = MAIL_ANY_TID then send_broadcast m s
      else case thread_get_by_tid (receiver_tid (mail_at s m)) s of
             None \<Rightarrow> (E_NOTFOUND, release_mail m s)
           | Some receiver \<Rightarrow> case t_mailbox (tcb_at s receiver) of
               None \<Rightarrow> (E_NOTFOUND, release_mail m s)
             | Some mb \<Rightarrow> send_mail (Some mb) m s)"

section \<open>Receiving\<close>

definition try_get_mail :: "ptr option \<Rightarrow> kernel \<Rightarrow> ptr \<times> kernel" where
  "try_get_mail mbo s =
     (case mbo of
        None \<Rightarrow> (0, s)
      | Some mb \<Rightarrow>
          if mails (mb_at s mb) = [] then (0, s)
          else let meta = last (mails (mb_at s mb));
                   s = set_mb mb (\<lambda>x. x\<lparr>mails := list_remove meta (mails x)\<rparr>) s
               in (payload (meta_at s meta), s))"

definition register_handler :: "ptr option \<Rightarrow> ptr \<Rightarrow> kernel \<Rightarrow> int \<times> kernel" where
  "register_handler mbo h s =
     (case mbo of
        None \<Rightarrow> (E_INVAL, s)
      | Some mb \<Rightarrow>
          if h = 0 then (E_INVAL, s)
          else case kmalloc_k sizeof_mailhandler s of
                 (None, s) \<Rightarrow> (E_NOMEM, s)
               | (Some mh, s) \<Rightarrow> (0, set_mb mb (\<lambda>x. x\<lparr>handlers := (mh, h) # handlers x\<rparr>) s))"

definition unregister_handler :: "ptr option \<Rightarrow> ptr \<Rightarrow> kernel \<Rightarrow> int \<times> kernel" where
  "unregister_handler mbo h s =
     (case mbo of
        None \<Rightarrow> (E_INVAL, s)
      | Some mb \<Rightarrow>
          if h = 0 then (E_INVAL, s)
          else case find (\<lambda>(mh, g). g = h) (handlers (mb_at s mb)) of
                 None \<Rightarrow> (0, s)
               | Some (mh, g) \<Rightarrow>
                   (0, kfree_k mh (set_mb mb (\<lambda>x. x\<lparr>handlers := list_remove (mh, g) (handlers x)\<rparr>) s)))"

section \<open>The mailbox system call\<close>

record mailbox_ctrl_config =
  mc_cmd :: u8
  mc_m :: ptr
  mc_mb :: "ptr option"
  mc_handler :: ptr
  mc_pid :: int
  mc_tid :: int
  mc_magic :: u32
  mc_ret :: int

definition MAILBOX_CTRL_SEND :: u8 where "MAILBOX_CTRL_SEND = 0"
definition MAILBOX_CTRL_LISTEN :: u8 where "MAILBOX_CTRL_LISTEN = 1"
definition MAILBOX_CTRL_REGISTER_HANDLER :: u8 where "MAILBOX_CTRL_REGISTER_HANDLER = 2"
definition MAILBOX_CTRL_UNREGISTER_HANDLER :: u8 where "MAILBOX_CTRL_UNREGISTER_HANDLER = 3"
definition MAILBOX_CTRL_ALLOC_MAIL :: u8 where "MAILBOX_CTRL_ALLOC_MAIL = 4"
definition MAILBOX_CTRL_RELEASE_MAIL :: u8 where "MAILBOX_CTRL_RELEASE_MAIL = 5"
definition MAILBOX_CTRL_ALLOC :: u8 where "MAILBOX_CTRL_ALLOC = 6"
definition MAILBOX_CTRL_RELEASE :: u8 where "MAILBOX_CTRL_RELEASE = 7"
definition MAILBOX_CTRL_SUBSCRIBE_MAIL :: u8 where "MAILBOX_CTRL_SUBSCRIBE_MAIL = 8"
definition MAILBOX_CTRL_UNSUBSCRIBE_MAIL :: u8 where "MAILBOX_CTRL_UNSUBSCRIBE_MAIL = 9"
definition MAILBOX_CTRL_LISTEN_BLOCK :: u8 where "MAILBOX_CTRL_LISTEN_BLOCK = 10"

text \<open>A missing mailbox is the calling thread's own one.\<close>

definition own_mailbox :: "mailbox_ctrl_config \<Rightarrow> kernel \<Rightarrow> mailbox_ctrl_config" where
  "own_mailbox c s =
     (if mc_mb c = None
      then c\<lparr>mc_mb := (case thread_get_by_tid (thread_get_tid s) s of
                         None \<Rightarrow> None | Some t \<Rightarrow> t_mailbox (tcb_at s t))\<rparr>
      else c)"

definition exec_listen_block :: "mailbox_ctrl_config \<Rightarrow> kernel \<Rightarrow> mailbox_ctrl_config \<times> kernel" where
  "exec_listen_block c s =
     (let c = own_mailbox c s in
      case mc_mb c of
        None \<Rightarrow> (c\<lparr>mc_ret := E_INVAL\<rparr>, s)
      | Some mb \<Rightarrow>
          (c\<lparr>mc_ret := 0\<rparr>, if mails (mb_at s mb) = [] then wait_queue_sleep_locked (Mb_wq mb) s else s))"

definition exec_subscribe :: "mailbox_ctrl_config \<Rightarrow> kernel \<Rightarrow> mailbox_ctrl_config \<times> kernel" where
  "exec_subscribe c s =
     (let c = own_mailbox c s in
      case mc_mb c of
        None \<Rightarrow> (c\<lparr>mc_ret := E_INVAL\<rparr>, s)
      | Some mb \<Rightarrow>
          if mc_magic c = 0 then (c\<lparr>mc_ret := E_INVAL\<rparr>, s)
          else if find (\<lambda>i. subscriptions (mb_at s mb) ! i = mc_magic c) [0..<MAX_SUBSCRIPTION_COUNT] \<noteq> None
               then (c\<lparr>mc_ret := 0\<rparr>, s)
          else case find (\<lambda>i. subscriptions (mb_at s mb) ! i = 0) [0..<MAX_SUBSCRIPTION_COUNT] of
                 Some i \<Rightarrow> (c\<lparr>mc_ret := 0\<rparr>, set_mb mb (\<lambda>x. x\<lparr>subscriptions := (subscriptions x)[i := mc_magic c]\<rparr>) s)
               | None \<Rightarrow> (c\<lparr>mc_ret := E_NOMEM\<rparr>, s))"

definition exec_unsubscribe :: "mailbox_ctrl_config \<Rightarrow> kernel \<Rightarrow> mailbox_ctrl_config \<times> kernel" where
  "exec_unsubscribe c s =
     (let c = own_mailbox c s in
      case mc_mb c of
        None \<Rightarrow> (c\<lparr>mc_ret := E_INVAL\<rparr>, s)
      | Some mb \<Rightarrow>
          if mc_magic c = 0 then (c\<lparr>mc_ret := E_INVAL\<rparr>, s)
          else case find (\<lambda>i. subscriptions (mb_at s mb) ! i = mc_magic c) [0..<MAX_SUBSCRIPTION_COUNT] of
                 Some i \<Rightarrow> (c\<lparr>mc_ret := 0\<rparr>, set_mb mb (\<lambda>x. x\<lparr>subscriptions := (subscriptions x)[i := 0]\<rparr>) s)
               | None \<Rightarrow> (c\<lparr>mc_ret := E_INVAL\<rparr>, s))"

definition mailbox_exec :: "mailbox_ctrl_config \<Rightarrow> kernel \<Rightarrow> mailbox_ctrl_config \<times> kernel" where
  "mailbox_exec c s =
     (if mc_cmd c = MAILBOX_CTRL_SEND then let (r, s) = send (mc_m c) s in (c\<lparr>mc_ret := r\<rparr>, s)
      else if mc_cmd c = MAILBOX_CTRL_LISTEN then
        let c = own_mailbox c s; (m, s) = try_get_mail (mc_mb c) s
        in (c\<lparr>mc_m := m, mc_ret := (if m \<noteq> 0 then 0 else -1)\<rparr>, s)
      else if mc_cmd c = MAILBOX_CTRL_LISTEN_BLOCK then exec_listen_block c s
      else if mc_cmd c = MAILBOX_CTRL_REGISTER_HANDLER then
        let (r, s) = register_handler (mc_mb c) (mc_handler c) s in (c\<lparr>mc_ret := r\<rparr>, s)
      else if mc_cmd c = MAILBOX_CTRL_UNREGISTER_HANDLER then
        let (r, s) = unregister_handler (mc_mb c) (mc_handler c) s in (c\<lparr>mc_ret := r\<rparr>, s)
      else if mc_cmd c = MAILBOX_CTRL_ALLOC_MAIL then
        case alloc_mail s of
          (None, s) \<Rightarrow> (c\<lparr>mc_m := 0, mc_ret := E_NOMEM\<rparr>, s) | (Some m, s) \<Rightarrow> (c\<lparr>mc_m := m, mc_ret := 0\<rparr>, s)
      else if mc_cmd c = MAILBOX_CTRL_RELEASE_MAIL then (c\<lparr>mc_ret := 0\<rparr>, release_mail (mc_m c) s)
      else if mc_cmd c = MAILBOX_CTRL_ALLOC then
        let (mb, s) = alloc_mailbox (mc_pid c) (mc_tid c) s
        in (c\<lparr>mc_mb := mb, mc_ret := (if mb \<noteq> None then 0 else E_NOMEM)\<rparr>, s)
      else if mc_cmd c = MAILBOX_CTRL_RELEASE then (c\<lparr>mc_ret := 0\<rparr>, release_mailbox (mc_mb c) s)
      else if mc_cmd c = MAILBOX_CTRL_SUBSCRIBE_MAIL then exec_subscribe c s
      else if mc_cmd c = MAILBOX_CTRL_UNSUBSCRIBE_MAIL then exec_unsubscribe c s
      else (c\<lparr>mc_ret := E_INVAL\<rparr>, s))"

definition mailbox_syscall_isr :: "mailbox_ctrl_config \<Rightarrow> kernel \<Rightarrow> mailbox_ctrl_config \<times> kernel" where
  "mailbox_syscall_isr c s =
     (case get_current_process s of
        Some p \<Rightarrow>
          if priv (pcb_at s p) \<noteq> PROC_PRIV_KERNEL then
            if mc_mb c \<noteq> None then (c\<lparr>mc_ret := E_INVAL\<rparr>, s)
            else if cap_check (Some (caps (space (pcb_at s p)))) CAP_IPC (Some (Issue_ipc 1)) \<noteq> 0
                 then (c\<lparr>mc_ret := E_PERM\<rparr>, s)
            else mailbox_exec c s
          else mailbox_exec c s
      | None \<Rightarrow> mailbox_exec c s)"

section \<open>Frame\<close>

text \<open>
  What the mail operations change of the scheduler's state: nothing, except that a delivery wakes the first
  thread that waits on the receiving mailbox and that releasing a mailbox empties its wait queue.
\<close>

lemma sched_of_malloc [simp]: "sched_of (snd (malloc_k n s)) = sched_of s" "sched_of (free_k p s) = sched_of s"
  by (auto simp: malloc_k_def free_k_def upd_heap_def split: option.splits intro!: sched_of_mem)

lemma alloc_eqD:
  "malloc_k n s = (r, s') \<Longrightarrow> sched_of s' = sched_of s" "kmalloc_k n s = (r, s') \<Longrightarrow> sched_of s' = sched_of s"
  "lock_alloc_k s = (l, s') \<Longrightarrow> sched_of s' = sched_of s"
  using sched_of_malloc(1) [of n s] sched_of_alloc(3) [of n s] sched_of_alloc(4) [of s] by simp_all

lemma sched_of_alloc_mail [simp]: "sched_of (snd (alloc_mail s)) = sched_of s"
  by (auto simp: alloc_mail_def Let_def split: prod.splits option.splits dest!: alloc_eqD)

lemma sched_of_release_mail [simp]: "sched_of (release_mail m s) = sched_of s"
  by (auto simp: release_mail_def Let_def split: option.splits)

lemma sched_of_fold: "(\<And>x s. sched_of (f x s) = sched_of s) \<Longrightarrow> sched_of (fold f xs s) = sched_of s"
  by (induction xs arbitrary: s) simp_all

lemma sched_of_release_mailbox:
  "sched_of (release_mailbox mbo s) = (case mbo of None \<Rightarrow> sched_of s
     | Some mb \<Rightarrow> (sched_of s)\<lparr>queue := (queue (sched_of s))(Mb_wq mb := [])\<rparr>)"
  by (simp add: release_mailbox_def Let_def sched_of_fold split: option.splits prod.splits)

lemma sched_of_run_handlers [simp]: "sched_of (run_handlers mb m s) = sched_of s"
  by (simp add: run_handlers_def sched_of_fold split: prod.splits)

text \<open>A sequence of wake-ups.\<close>

definition wakes :: "sched \<Rightarrow> sched \<Rightarrow> bool" where
  "wakes a b \<longleftrightarrow> (\<exists>qs. b = fold a_wake_one qs a)"

lemma wakes_refl [simp]: "wakes a a"
  unfolding wakes_def by (rule exI [of _ "[]"]) simp

lemma wakes_one [simp]: "wakes a (a_wake_one q a)"
  unfolding wakes_def by (rule exI [of _ "[q]"]) simp

lemma wakes_trans: "wakes a b \<Longrightarrow> wakes b c \<Longrightarrow> wakes a c"
  unfolding wakes_def by (metis comp_apply fold_append)

lemma wakes_ok: "wakes a b \<Longrightarrow> sched_ok a \<Longrightarrow> sched_ok b"
proof -
  have "sched_ok a \<Longrightarrow> sched_ok (fold a_wake_one qs a)" for qs by (induction qs arbitrary: a) (simp_all add: a_wake_one_ok)
  then show "wakes a b \<Longrightarrow> sched_ok a \<Longrightarrow> sched_ok b" by (auto simp: wakes_def)
qed

lemma wakes_pending: "wakes a b \<Longrightarrow> pending_ok a \<Longrightarrow> pending_ok b"
proof -
  have "pending_ok a \<Longrightarrow> pending_ok (fold a_wake_one qs a)" for qs by (induction qs arbitrary: a) (simp_all add: a_wake_one_pending)
  then show "wakes a b \<Longrightarrow> pending_ok a \<Longrightarrow> pending_ok b" by (auto simp: wakes_def)
qed

lemma wakes_send_mail:
  "sched_ok (sched_of s) \<Longrightarrow> wakes (sched_of s) (sched_of (snd (send_mail mbo m s)))"
  by (auto simp: send_mail_def sched_of_wake_one split: option.splits)

lemma wakes_queue_clone: "sched_ok (sched_of s) \<Longrightarrow> wakes (sched_of s) (sched_of (queue_clone mb m s))"
proof -
  assume ok: "sched_ok (sched_of s)"
  obtain r s' where a: "alloc_mail s = (r, s')" by (cases "alloc_mail s")
  then have "sched_of s' = sched_of s" using sched_of_alloc_mail [of s] by simp
  with a ok show ?thesis
    by (auto simp: queue_clone_def Let_def sched_of_wake_one split: option.splits)
qed

lemma wakes_deliver: "sched_ok (sched_of s) \<Longrightarrow> wakes (sched_of s) (sched_of (deliver_to m t s))"
  by (auto simp: deliver_to_def Let_def wakes_send_mail wakes_queue_clone split: option.splits)

lemma wakes_fold_deliver: "sched_ok (sched_of s) \<Longrightarrow> wakes (sched_of s) (sched_of (fold (deliver_to m) ts s))"
proof (induction ts arbitrary: s)
  case (Cons t ts)
  from wakes_deliver [OF Cons.prems, of m t] Cons.IH [of "deliver_to m t s"] show ?case
    using Cons.prems wakes_ok wakes_trans by fastforce
qed simp

lemma wakes_send: "sched_ok (sched_of s) \<Longrightarrow> wakes (sched_of s) (sched_of (snd (send m s)))"
  using wakes_fold_deliver [of "set_meta x f s" for x f]
  by (auto simp: send_def send_broadcast_def Let_def wakes_send_mail split: option.splits)

section \<open>A mailbox is a queue\<close>

text \<open>
  The contract of a message queue: \<open>put\<close> appends a message that may be sent, \<open>get\<close> takes the oldest one or
  reports that there is none.
\<close>

locale message_queue =
  fixes ok :: "'s \<Rightarrow> bool" and contents :: "'s \<Rightarrow> 'm list" and sendable :: "'m \<Rightarrow> 's \<Rightarrow> bool"
    and put :: "'m \<Rightarrow> 's \<Rightarrow> 's" and get :: "'s \<Rightarrow> 'm \<times> 's" and none :: 'm
  assumes put_ok: "ok s \<Longrightarrow> sendable m s \<Longrightarrow> ok (put m s)"
    and put_contents: "ok s \<Longrightarrow> sendable m s \<Longrightarrow> contents (put m s) = contents s @ [m]"
    and put_sendable: "ok s \<Longrightarrow> sendable m s \<Longrightarrow> sendable m' s \<Longrightarrow> m' \<noteq> m \<Longrightarrow> sendable m' (put m s)"
    and get_ok: "ok s \<Longrightarrow> ok (snd (get s))"
    and get_empty: "ok s \<Longrightarrow> contents s = [] \<Longrightarrow> get s = (none, s)"
    and get_first: "ok s \<Longrightarrow> contents s = m # ms \<Longrightarrow> fst (get s) = m"
    and get_rest: "ok s \<Longrightarrow> contents s = m # ms \<Longrightarrow> contents (snd (get s)) = ms"
begin

lemma put_all:
  "ok s \<Longrightarrow> distinct ms \<Longrightarrow> (\<And>m. m \<in> set ms \<Longrightarrow> sendable m s) \<Longrightarrow>
   ok (fold put ms s) \<and> contents (fold put ms s) = contents s @ ms"
proof (induction ms arbitrary: s)
  case (Cons m ms)
  have m: "sendable m s" using Cons.prems by simp
  have "sendable m' (put m s)" if "m' \<in> set ms" for m'
    using that Cons.prems by (intro put_sendable [OF Cons.prems(1) m]) auto
  then show ?case
    using Cons.IH [OF put_ok [OF Cons.prems(1) m]] Cons.prems(2) put_contents [OF Cons.prems(1) m] by simp
qed simp

end

text \<open>Taking \<open>n\<close> messages.\<close>

primrec take_messages :: "('s \<Rightarrow> 'm \<times> 's) \<Rightarrow> nat \<Rightarrow> 's \<Rightarrow> 'm list \<times> 's" where
  "take_messages get 0 s = ([], s)"
| "take_messages get (Suc n) s = (let (m, s) = get s; (ms, s) = take_messages get n s in (m # ms, s))"

context message_queue
begin

lemma take_all:
  "ok s \<Longrightarrow> take_messages get (length (contents s)) s = (ms, s') \<Longrightarrow> ms = contents s \<and> contents s' = [] \<and> ok s'"
proof (induction "contents s" arbitrary: s ms s')
  case Nil
  then show ?case by (metis Pair_inject list.size(3) take_messages.simps(1))
next
  case (Cons m rest)
  obtain x where g: "get s = (m, x)" using get_first [OF Cons.prems(1) Cons.hyps(2) [symmetric]] by (metis prod.collapse)
  have x: "contents x = rest" "ok x"
    using get_rest [OF Cons.prems(1) Cons.hyps(2) [symmetric]] get_ok [OF Cons.prems(1)] g by simp_all
  obtain ns y where t: "take_messages get (length rest) x = (ns, y)" by (meson surj_pair)
  have "ns = rest \<and> contents y = [] \<and> ok y" using Cons.hyps(1) [OF x(1) [symmetric] x(2)] t x(1) by simp
  then show ?case using Cons.prems(2) Cons.hyps(2) [symmetric] g t by simp
qed

lemma put_all_take_all:
  assumes "ok s" and "distinct ms" and "\<And>m. m \<in> set ms \<Longrightarrow> sendable m s"
    and "take_messages get (length (contents s) + length ms) (fold put ms s) = (got, s')"
  shows "got = contents s @ ms \<and> get s' = (none, s')"
proof -
  have p: "ok (fold put ms s)" "contents (fold put ms s) = contents s @ ms" using put_all [OF assms(1-3)] by auto
  then show ?thesis using take_all [OF p(1)] assms(4) get_empty by simp
qed

end

text \<open>
  The queue a mailbox without handlers holds, oldest mail first.  Its mails are registered, each once, under
  different addresses; a mail may be sent when it is registered and not in the mailbox already.
\<close>

definition mbox_ok :: "ptr \<Rightarrow> kernel \<Rightarrow> bool" where
  "mbox_ok mb s \<longleftrightarrow> handlers (mb_at s mb) = [] \<and> distinct (mails (mb_at s mb)) \<and> set (mails (mb_at s mb)) \<subseteq> set (inflight s) \<and>
     inj_on (\<lambda>meta. payload (meta_at s meta)) (set (inflight s))"

definition mbox_contents :: "ptr \<Rightarrow> kernel \<Rightarrow> ptr list" where
  "mbox_contents mb s = map (\<lambda>meta. payload (meta_at s meta)) (rev (mails (mb_at s mb)))"

definition mail_ready :: "ptr \<Rightarrow> ptr \<Rightarrow> kernel \<Rightarrow> bool" where
  "mail_ready mb m s \<longleftrightarrow> get_mailmeta m s \<noteq> None \<and> m \<notin> set (mbox_contents mb s)"

lemma wake_one_fields [simp]:
  "mb_at (wait_queue_wake_one q s) = mb_at s" "meta_at (wait_queue_wake_one q s) = meta_at s"
  "inflight (wait_queue_wake_one q s) = inflight s"
  by (simp_all add: wait_queue_wake_one_def wake_waiter_def thread_unblock_internal_def thread_unblock_locked_def Let_def
      split: option.splits)

lemma get_mailmeta_cong:
  "meta_at s = meta_at s' \<Longrightarrow> inflight s = inflight s' \<Longrightarrow> get_mailmeta m s = get_mailmeta m s'"
  by (simp add: get_mailmeta_def)

lemma get_mailmetaD:
  assumes "get_mailmeta m s = Some meta"
  shows "m \<noteq> 0" "meta \<in> set (inflight s)" "payload (meta_at s meta) = m"
  using assms find_SomeD [of "\<lambda>meta. payload (meta_at s meta) = m" "inflight s" meta]
  by (auto simp: get_mailmeta_def split: if_splits)

lemma send_mail_queues:
  assumes "handlers (mb_at s mb) = []" and "get_mailmeta m s = Some meta"
  shows "send_mail (Some mb) m s = (0, wait_queue_wake_one (Mb_wq mb) (set_mb mb (\<lambda>x. x\<lparr>mails := meta # mails x\<rparr>) s))"
  using assms get_mailmetaD(1) [OF assms(2)] by (simp add: send_mail_def)

lemma send_mail_ready:
  assumes ok: "mbox_ok mb s" and m: "mail_ready mb m s"
  shows "mbox_ok mb (snd (send_mail (Some mb) m s))" "mbox_contents mb (snd (send_mail (Some mb) m s)) = mbox_contents mb s @ [m]"
    "fst (send_mail (Some mb) m s) = 0"
    "mail_ready mb m' s \<Longrightarrow> m' \<noteq> m \<Longrightarrow> mail_ready mb m' (snd (send_mail (Some mb) m s))"
proof -
  obtain meta where meta: "get_mailmeta m s = Some meta" using m by (auto simp: mail_ready_def)
  note d = get_mailmetaD [OF meta]
  have h: "handlers (mb_at s mb) = []" using ok by (simp add: mbox_ok_def)
  note e = send_mail_queues [OF h meta]
  have "meta \<notin> set (mails (mb_at s mb))" using m d(3) by (auto simp: mail_ready_def mbox_contents_def)
  then show "mbox_ok mb (snd (send_mail (Some mb) m s))" using ok d(2) by (simp add: e mbox_ok_def)
  show c: "mbox_contents mb (snd (send_mail (Some mb) m s)) = mbox_contents mb s @ [m]"
    using d(3) by (simp add: e mbox_contents_def)
  show "fst (send_mail (Some mb) m s) = 0" by (simp add: e)
  have "get_mailmeta m' (snd (send_mail (Some mb) m s)) = get_mailmeta m' s"
    unfolding e by (rule get_mailmeta_cong) simp_all
  then show "mail_ready mb m' s \<Longrightarrow> m' \<noteq> m \<Longrightarrow> mail_ready mb m' (snd (send_mail (Some mb) m s))"
    by (simp add: mail_ready_def c)
qed

lemma try_get_mail_ok:
  assumes ok: "mbox_ok mb s"
  shows "mbox_ok mb (snd (try_get_mail (Some mb) s))"
    "mbox_contents mb s = [] \<Longrightarrow> try_get_mail (Some mb) s = (0, s)"
    "mbox_contents mb s = m # ms \<Longrightarrow> fst (try_get_mail (Some mb) s) = m"
    "mbox_contents mb s = m # ms \<Longrightarrow> mbox_contents mb (snd (try_get_mail (Some mb) s)) = ms"
proof -
  show "mbox_ok mb (snd (try_get_mail (Some mb) s))"
    using ok by (auto simp: try_get_mail_def mbox_ok_def Let_def list_remove_def)
  show "mbox_contents mb s = [] \<Longrightarrow> try_get_mail (Some mb) s = (0, s)"
    by (simp add: mbox_contents_def try_get_mail_def)
  assume "mbox_contents mb s = m # ms"
  then obtain meta xs where x: "mails (mb_at s mb) = xs @ [meta]" "payload (meta_at s meta) = m"
    "ms = map (\<lambda>meta. payload (meta_at s meta)) (rev xs)"
    by (cases "mails (mb_at s mb)" rule: rev_cases) (auto simp: mbox_contents_def)
  moreover from this ok have "list_remove meta xs = xs"
    by (auto simp: mbox_ok_def list_remove_def filter_id_conv)
  ultimately show "fst (try_get_mail (Some mb) s) = m" "mbox_contents mb (snd (try_get_mail (Some mb) s)) = ms"
    by (simp_all add: try_get_mail_def mbox_contents_def Let_def list_remove_def)
qed

interpretation mbq: message_queue "mbox_ok mb" "mbox_contents mb" "mail_ready mb" "\<lambda>m s. snd (send_mail (Some mb) m s)"
    "try_get_mail (Some mb)" 0 for mb
  by unfold_locales (simp_all add: send_mail_ready try_get_mail_ok)

text \<open>
  Property C15: a mailbox without handlers delivers every mail once and in order.  Mails that are sent to it one
  after the other, each registered and none in the mailbox yet, come out of \<^verbatim>\<open>try_get_mail\<close> after the mails that
  were waiting before them, in the order they were sent; then the mailbox is empty and returns NULL.
\<close>

theorem mailbox_fifo:
  assumes "mbox_ok mb s" and "distinct ms" and "\<forall>m\<in>set ms. mail_ready mb m s"
    and "take_messages (try_get_mail (Some mb)) (length (mails (mb_at s mb)) + length ms)
           (fold (\<lambda>m s. snd (send_mail (Some mb) m s)) ms s) = (got, s')"
  shows "got = mbox_contents mb s @ ms \<and> try_get_mail (Some mb) s' = (0, s')"
proof (rule mbq.put_all_take_all [OF assms(1,2)])
  show "\<And>m. m \<in> set ms \<Longrightarrow> mail_ready mb m s" using assms(3) by blast
  have "length (mbox_contents mb s) = length (mails (mb_at s mb))" by (simp add: mbox_contents_def)
  then show "take_messages (try_get_mail (Some mb)) (length (mbox_contents mb s) + length ms)
      (fold (\<lambda>m s. snd (send_mail (Some mb) m s)) ms s) = (got, s')" using assms(4) by simp
qed

text \<open>The example system with two registered mails, at 0x700 and 0x800.\<close>

definition demo_mail :: "memsys \<Rightarrow> kernel" where
  "demo_mail m = (demo m)\<lparr>inflight := [0x70, 0x80],
     meta_at := (\<lambda>a. null_meta\<lparr>payload := (if a = 0x70 then 0x700 else 0x800)\<rparr>)\<rparr>"

lemma demo_mail_ready:
  "mbox_ok 0x1000 (demo_mail m)" "mails (mb_at (demo_mail m) 0x1000) = []"
  "mail_ready 0x1000 0x700 (demo_mail m)" "mail_ready 0x1000 0x800 (demo_mail m)"
  by (simp_all add: demo_mail_def demo_def boot_kernel_def mbox_ok_def mail_ready_def mbox_contents_def get_mailmeta_def
      null_mailbox_def null_meta_def)

lemma mailbox_fifo_witness:
  "\<forall>m. fst (take_messages (try_get_mail (Some 0x1000)) (Suc (Suc 0))
     (fold (\<lambda>m s. snd (send_mail (Some 0x1000) m s)) [0x800, 0x700] (demo_mail m))) = [0x800, 0x700]"
proof
  fix m
  obtain got s' where t: "take_messages (try_get_mail (Some 0x1000)) (Suc (Suc 0))
     (fold (\<lambda>m s. snd (send_mail (Some 0x1000) m s)) [0x800, 0x700] (demo_mail m)) = (got, s')" by (meson surj_pair)
  have "got = mbox_contents 0x1000 (demo_mail m) @ [0x800, 0x700] \<and> try_get_mail (Some 0x1000) s' = (0, s')"
    using mailbox_fifo [OF demo_mail_ready(1), of "[0x800, 0x700]" m got s'] t demo_mail_ready(2-4)
    by (simp del: take_messages.simps)
  then show "fst (take_messages (try_get_mail (Some 0x1000)) (Suc (Suc 0))
     (fold (\<lambda>m s. snd (send_mail (Some 0x1000) m s)) [0x800, 0x700] (demo_mail m))) = [0x800, 0x700]"
    using t demo_mail_ready(2) by (simp add: mbox_contents_def)
qed

end
