(* ===== verification/Irq.thy ===== *)
theory Irq
  imports Mailbox
begin

text \<open>
  Interrupt lines (\<^verbatim>\<open>kernel/irq.c\<close>) and the masks of the interrupt controllers (\<^verbatim>\<open>arch/i386/irq.c\<close>).  A line
  holds the list of the interrupts registered on it; a user interrupt is delivered as a mail to
  the thread that registered it.  What the code behind a kernel handler's address does is a parameter.
\<close>

section \<open>The interrupt controllers\<close>

definition arch_unmask_irq :: "u16 \<Rightarrow> pic \<Rightarrow> pic" where
  "arch_unmask_irq irq_nr c =
     (if irq_nr < 0x20 \<or> irq_nr > 0x35 then c
      else if irq_nr \<ge> 0x28
           then c\<lparr>imr_slave := imr_slave c AND NOT (ucast (push_bit (unat (irq_nr - 0x28)) (1 :: u32)))\<rparr>
      else c\<lparr>imr_master := imr_master c AND NOT (ucast (push_bit (unat (irq_nr - 0x20)) (1 :: u32)))\<rparr>)"

definition arch_mask_irq :: "u16 \<Rightarrow> pic \<Rightarrow> pic" where
  "arch_mask_irq irq_nr c =
     (if irq_nr < 0x20 \<or> irq_nr > 0x35 then c
      else if irq_nr \<ge> 0x28
           then c\<lparr>imr_slave := imr_slave c OR ucast (push_bit (unat (irq_nr - 0x28)) (1 :: u32))\<rparr>
      else c\<lparr>imr_master := imr_master c OR ucast (push_bit (unat (irq_nr - 0x20)) (1 :: u32))\<rparr>)"

section \<open>Lines\<close>

definition IDT_ENTRIES :: nat where "IDT_ENTRIES = 256"
definition IRQ_ANY_MINOR :: u32 where "IRQ_ANY_MINOR = 0xFFFFFFFF"
definition MAIL_MAGIC_IRQ :: u32 where "MAIL_MAGIC_IRQ = 0x66666666"

definition irqline_alloc :: "u32 \<Rightarrow> kernel \<Rightarrow> (int + ptr) \<times> kernel" where
  "irqline_alloc mj s =
     (case kmalloc_k sizeof_irqline s of
        (None, s) \<Rightarrow> (Inl E_NOMEM, s)
      | (Some line, s) \<Rightarrow>
          let (l, s) = lock_alloc_k s
          in (Inr line, set_line line (\<lambda>_. \<lparr>line_major = mj, line_enabled = False, line_lock = l, line_irqs = []\<rparr>) s))"

definition irqline_mask :: "ptr option \<Rightarrow> kernel \<Rightarrow> int \<times> kernel" where
  "irqline_mask lo s =
     (case lo of
        None \<Rightarrow> (E_INVAL, s)
      | Some line \<Rightarrow>
          let disable = find (\<lambda>p. enabled (irq_at s p)) (line_irqs (line_at s line)) = None
          in (0, if disable then s\<lparr>pic_of := arch_mask_irq (ucast (line_major (line_at s line))) (pic_of s)\<rparr> else s))"

definition irqline_unmask :: "ptr option \<Rightarrow> kernel \<Rightarrow> int \<times> kernel" where
  "irqline_unmask lo s =
     (case lo of
        None \<Rightarrow> (E_INVAL, s)
      | Some line \<Rightarrow>
          (0, if find (\<lambda>p. enabled (irq_at s p)) (line_irqs (line_at s line)) \<noteq> None
              then s\<lparr>pic_of := arch_unmask_irq (ucast (line_major (line_at s line))) (pic_of s)\<rparr> else s))"

definition irqline_add_irq :: "ptr \<Rightarrow> ptr \<Rightarrow> kernel \<Rightarrow> kernel" where
  "irqline_add_irq line p = set_line line (\<lambda>x. x\<lparr>line_irqs := p # line_irqs x\<rparr>)"

definition irqline_remove_irq :: "ptr \<Rightarrow> ptr \<Rightarrow> kernel \<Rightarrow> kernel" where
  "irqline_remove_irq line p = set_line line (\<lambda>x. x\<lparr>line_irqs := list_remove p (line_irqs x)\<rparr>)"

definition irqline_free :: "ptr option \<Rightarrow> kernel \<Rightarrow> int \<times> kernel" where
  "irqline_free lo s =
     (case lo of
        None \<Rightarrow> (E_INVAL, s)
      | Some line \<Rightarrow> (0, kfree_k line (lock_release_k (line_lock (line_at s line)) s)))"

definition irqline_remove_all :: "ptr option \<Rightarrow> kernel \<Rightarrow> int \<times> kernel" where
  "irqline_remove_all lo s =
     (case lo of
        None \<Rightarrow> (E_INVAL, s)
      | Some line \<Rightarrow> (0, fold (irqline_remove_irq line) (line_irqs (line_at s line)) s))"

definition irqline_release :: "ptr option \<Rightarrow> kernel \<Rightarrow> kernel" where
  "irqline_release lo s =
     (case lo of
        None \<Rightarrow> s
      | Some line \<Rightarrow>
          let s = snd (irqline_remove_all lo s); s = lock_release_k (line_lock (line_at s line)) s
          in set_line line (\<lambda>_. \<lparr>line_major = 0, line_enabled = False, line_lock = None, line_irqs = []\<rparr>) s)"

definition irqline_init :: "u32 \<Rightarrow> kernel \<Rightarrow> (int + ptr) \<times> kernel" where
  "irqline_init mj s = (if unat mj \<ge> IDT_ENTRIES then (Inl E_INVAL, s) else irqline_alloc mj s)"

text \<open>The first free minor: the loop over the candidates, each tested against the list.\<close>

function free_minor_from :: "u32 list \<Rightarrow> u32 \<Rightarrow> u32" where
  "free_minor_from used candidate =
     (if candidate < 0xFFFFFFFF
      then if candidate \<in> set used then free_minor_from used (candidate + 1) else candidate
      else IRQ_ANY_MINOR)"
  by auto
termination
proof (relation "measure (\<lambda>(_, c). 0xFFFFFFFF - unat c)")
  show "((used, candidate + 1), (used, candidate)) \<in> measure (\<lambda>(_, c). 0xFFFFFFFF - unat c)"
    if "candidate < 0xFFFFFFFF" for used :: "u32 list" and candidate :: u32
  proof -
    from that have "unat candidate < 0xFFFFFFFF" by (simp add: word_less_nat_alt)
    then have "unat (candidate + 1) = unat candidate + 1" by (simp add: unat_word_ariths)
    with \<open>unat candidate < 0xFFFFFFFF\<close> show ?thesis by simp
  qed
qed simp

declare free_minor_from.simps [simp del]

definition irqline_find_free_minor :: "ptr \<Rightarrow> kernel \<Rightarrow> u32" where
  "irqline_find_free_minor line s = free_minor_from (map (\<lambda>p. minor (irq_at s p)) (line_irqs (line_at s line))) 0"

section \<open>Delivery\<close>

definition dispatch_user_mode_irq :: "ptr \<Rightarrow> kernel \<Rightarrow> kernel" where
  "dispatch_user_mode_irq p s =
     (case irq_owner (irq_at s p) of
        None \<Rightarrow> s
      | Some t \<Rightarrow> case t_mailbox (tcb_at s t) of
          None \<Rightarrow> s
        | Some mb \<Rightarrow> case alloc_mail s of
            (None, s) \<Rightarrow> s
          | (Some m, s) \<Rightarrow>
              let s = s\<lparr>mail_at := (mail_at s)(m := (mail_at s m)\<lparr>m_magic := MAIL_MAGIC_IRQ,
                          receiver_tid := irq_tid (irq_at s p)\<rparr>)\<rparr>
              in snd (send_mail (Some mb) m s))"

definition irqline_handler :: "(ptr \<Rightarrow> ptr \<Rightarrow> kernel \<Rightarrow> kernel) \<Rightarrow> u32 \<Rightarrow> kernel \<Rightarrow> kernel" where
  "irqline_handler isr mj s =
     (case irqlines s (unat mj) of
        None \<Rightarrow> s
      | Some line \<Rightarrow>
          fold (\<lambda>p s. if \<not> enabled (irq_at s p) then s
                      else if is_user_irq (irq_at s p) then dispatch_user_mode_irq p s
                      else isr (irq_handler (irq_at s p)) (irq_context (irq_at s p)) s)
            (line_irqs (line_at s line)) s)"

section \<open>Requesting and releasing\<close>

text \<open>\<open>out\<close> is what the caller's handle variable holds, before and after.\<close>

definition irq_alloc :: "u32 \<Rightarrow> u32 \<Rightarrow> bool \<Rightarrow> int \<Rightarrow> ptr \<Rightarrow> ptr \<Rightarrow> ptr \<Rightarrow> ptr option \<Rightarrow> kernel \<Rightarrow>
    int \<times> ptr option \<times> kernel" where
  "irq_alloc mj mn is_user n name cx handler out s =
     (case kmalloc_k sizeof_irq s of
        (None, s) \<Rightarrow> (E_NOMEM, out, s)
      | (Some p, s) \<Rightarrow>
          let (l, s) = lock_alloc_k s;
              s = set_irq p (\<lambda>_. \<lparr>irq_name = name, irq_context = cx, major = mj, minor = mn, enabled = False,
                     is_user_irq = is_user, irq_tid = n, irq_owner = None, irq_lock = l, irq_handler = handler\<rparr>) s in
          if l = None then (E_LIMIT, None, kfree_k p s) else (0, Some p, s))"

definition irq_free :: "ptr \<Rightarrow> kernel \<Rightarrow> kernel" where
  "irq_free p s = kfree_k p (lock_release_k (irq_lock (irq_at s p)) s)"

definition irq_release_internal :: "ptr option \<Rightarrow> kernel \<Rightarrow> kernel" where
  "irq_release_internal po s =
     (case po of
        None \<Rightarrow> s
      | Some p \<Rightarrow>
          if unat (major (irq_at s p)) \<ge> IDT_ENTRIES then s
          else let s = (case irqlines s (unat (major (irq_at s p))) of
                          None \<Rightarrow> s
                        | Some line \<Rightarrow> snd (irqline_mask (Some line) (irqline_remove_irq line p s)));
                   s = (case irq_owner (irq_at s p) of
                          None \<Rightarrow> s
                        | Some t \<Rightarrow> set_tcb t (\<lambda>x. x\<lparr>t_irqs := list_remove p (t_irqs x)\<rparr>) s)
               in irq_free p s)"

text \<open>The line of a major number, made when it is first needed.\<close>

definition ensure_line :: "u32 \<Rightarrow> kernel \<Rightarrow> ptr option \<times> kernel" where
  "ensure_line mj s =
     (case irqlines s (unat mj) of
        Some line \<Rightarrow> (Some line, s)
      | None \<Rightarrow> case irqline_init mj s of
          (Inl e, s) \<Rightarrow> (None, s)
        | (Inr line, s) \<Rightarrow> (Some line, s\<lparr>irqlines := (irqlines s)(unat mj := Some line)\<rparr>))"

definition pick_minor :: "u32 \<Rightarrow> u32 \<Rightarrow> kernel \<Rightarrow> (int + u32) \<times> kernel" where
  "pick_minor mj mn s =
     (if mn = IRQ_ANY_MINOR then
        case ensure_line mj s of
          (None, s) \<Rightarrow> (Inl E_INTERNAL, s)
        | (Some line, s) \<Rightarrow>
            let mn = irqline_find_free_minor line s
            in (if mn = IRQ_ANY_MINOR then Inl E_IRQ_NOTAVAIL else Inr mn, s)
      else (Inr mn, s))"

definition irq_denied :: "u32 \<Rightarrow> kernel \<Rightarrow> bool" where
  "irq_denied mj s \<longleftrightarrow>
     (case get_current_process s of
        None \<Rightarrow> False
      | Some p \<Rightarrow> priv (pcb_at s p) \<noteq> PROC_PRIV_KERNEL \<and>
                  cap_check (Some (caps (space (pcb_at s p)))) CAP_OWN_IRQ (Some (Irq mj)) \<noteq> 0)"

definition bind_owner :: "int \<Rightarrow> ptr \<Rightarrow> kernel \<Rightarrow> kernel" where
  "bind_owner n p s =
     (case thread_get_by_tid n s of
        None \<Rightarrow> s
      | Some t \<Rightarrow> set_tcb t (\<lambda>x. x\<lparr>t_irqs := p # t_irqs x\<rparr>) (set_irq p (\<lambda>x. x\<lparr>irq_owner := Some t\<rparr>) s))"

definition irq_request_internal :: "ptr option \<Rightarrow> ptr \<Rightarrow> u32 \<Rightarrow> u32 \<Rightarrow> ptr \<Rightarrow> ptr \<Rightarrow> bool \<Rightarrow> int \<Rightarrow> kernel \<Rightarrow>
    int \<times> ptr option \<times> kernel" where
  "irq_request_internal out name mj mn cb cb_param is_user n s =
     (if unat mj \<ge> IDT_ENTRIES then (E_INVAL, out, s)
      else if irq_denied mj s then (E_PERM, out, s)
      else case pick_minor mj mn s of
        (Inl e, s) \<Rightarrow> (e, out, s)
      | (Inr mn, s) \<Rightarrow> case irq_alloc mj mn is_user n name cb_param cb out s of
          (ret, out, s) \<Rightarrow>
            if ret \<noteq> 0 \<or> out = None then (ret, out, s)
            else let p = the out in
            case ensure_line mj s of
              (None, s) \<Rightarrow> (E_INTERNAL, None, irq_release_internal out s)
            | (Some line, s) \<Rightarrow>
                if find (\<lambda>q. minor (irq_at s q) = mn) (line_irqs (line_at s line)) \<noteq> None
                then (E_IRQ_INUSE, None, irq_release_internal out s)
                else let s = (if is_user then bind_owner n p s else s)
                     in (0, out, irqline_add_irq line p s))"

definition irq_mask_internal :: "ptr option \<Rightarrow> kernel \<Rightarrow> int \<times> kernel" where
  "irq_mask_internal po s =
     (case po of
        None \<Rightarrow> (E_INVAL, s)
      | Some p \<Rightarrow>
          if unat (major (irq_at s p)) \<ge> IDT_ENTRIES then (E_INVAL, s)
          else let s = set_irq p (\<lambda>x. x\<lparr>enabled := False\<rparr>) s
               in (0, case irqlines s (unat (major (irq_at s p))) of
                        None \<Rightarrow> s | Some line \<Rightarrow> snd (irqline_mask (Some line) s)))"

definition irq_unmask_internal :: "ptr option \<Rightarrow> kernel \<Rightarrow> int \<times> kernel" where
  "irq_unmask_internal po s =
     (case po of
        None \<Rightarrow> (E_INVAL, s)
      | Some p \<Rightarrow>
          if unat (major (irq_at s p)) \<ge> IDT_ENTRIES then (E_INVAL, s)
          else let s = set_irq p (\<lambda>x. x\<lparr>enabled := True\<rparr>) s
               in (0, case irqlines s (unat (major (irq_at s p))) of
                        None \<Rightarrow> s | Some line \<Rightarrow> snd (irqline_unmask (Some line) s)))"

section \<open>The interrupt system call\<close>

record irq_ctrl_config =
  ic_cmd :: u8
  ic_handle :: "ptr option"
  ic_name :: ptr
  ic_major :: u32
  ic_minor :: u32
  ic_handler :: ptr
  ic_param :: ptr
  ic_is_user :: bool
  ic_tid :: int
  ic_ret :: int

definition IRQ_SYSCALL_REQUEST :: u8 where "IRQ_SYSCALL_REQUEST = 0"
definition IRQ_SYSCALL_RELEASE :: u8 where "IRQ_SYSCALL_RELEASE = 1"
definition IRQ_SYSCALL_MASK :: u8 where "IRQ_SYSCALL_MASK = 2"
definition IRQ_SYSCALL_UNMASK :: u8 where "IRQ_SYSCALL_UNMASK = 3"

definition irq_exec :: "irq_ctrl_config \<Rightarrow> kernel \<Rightarrow> irq_ctrl_config \<times> kernel" where
  "irq_exec c s =
     (if ic_cmd c = IRQ_SYSCALL_REQUEST then
        let u = (case get_current_process s of None \<Rightarrow> False | Some p \<Rightarrow> priv (pcb_at s p) \<noteq> PROC_PRIV_KERNEL);
            c = c\<lparr>ic_is_user := u, ic_tid := (if u then thread_get_tid s else 0)\<rparr>
        in (case irq_request_internal (ic_handle c) (ic_name c) (ic_major c) (ic_minor c) (ic_handler c) (ic_param c)
                   (ic_is_user c) (ic_tid c) s of
              (r, h, s) \<Rightarrow> (c\<lparr>ic_handle := h, ic_ret := r\<rparr>, s))
      else if ic_cmd c = IRQ_SYSCALL_RELEASE then (c\<lparr>ic_ret := 0\<rparr>, irq_release_internal (ic_handle c) s)
      else if ic_cmd c = IRQ_SYSCALL_MASK then let (r, s) = irq_mask_internal (ic_handle c) s in (c\<lparr>ic_ret := r\<rparr>, s)
      else if ic_cmd c = IRQ_SYSCALL_UNMASK then let (r, s) = irq_unmask_internal (ic_handle c) s in (c\<lparr>ic_ret := r\<rparr>, s)
      else (c\<lparr>ic_ret := - E_INVAL\<rparr>, s))"

definition irq_syscall_isr :: "irq_ctrl_config \<Rightarrow> kernel \<Rightarrow> irq_ctrl_config \<times> kernel" where
  "irq_syscall_isr c s =
     (if ic_cmd c = IRQ_SYSCALL_REQUEST \<and> irq_denied (ic_major c) s
      then (c\<lparr>ic_ret := E_PERM\<rparr>, s)
      else irq_exec c s)"

section \<open>Frame\<close>

text \<open>
  No operation on interrupt lines touches the scheduler's state; delivering a user interrupt wakes the
  first thread that waits on the mailbox of its owner.
\<close>

lemma sched_of_set_irqs [simp]: "sched_of (set_tcb t (\<lambda>x. x\<lparr>t_irqs := h x\<rparr>) s) = sched_of s"
  by (rule sched_of_set_tcb_same) simp

lemma sched_of_irqline [simp]:
  "sched_of (snd (irqline_mask lo s)) = sched_of s" "sched_of (snd (irqline_unmask lo s)) = sched_of s"
  "sched_of (irqline_add_irq line p s) = sched_of s" "sched_of (irqline_remove_irq line p s) = sched_of s"
  "sched_of (irq_free p s) = sched_of s" "sched_of (bind_owner n p s) = sched_of s"
  by (simp_all add: irqline_mask_def irqline_unmask_def irqline_add_irq_def irqline_remove_irq_def irq_free_def bind_owner_def
      split: option.splits)

lemma sched_of_irq_release [simp]: "sched_of (irq_release_internal po s) = sched_of s"
  by (simp add: irq_release_internal_def Let_def split: option.splits)

lemma sched_of_irq_masks [simp]:
  "sched_of (snd (irq_mask_internal po s)) = sched_of s" "sched_of (snd (irq_unmask_internal po s)) = sched_of s"
  by (simp_all add: irq_mask_internal_def irq_unmask_internal_def Let_def split: option.splits)

lemma ensure_line_eqD: "ensure_line mj s = (r, s') \<Longrightarrow> sched_of s' = sched_of s"
  by (auto simp: ensure_line_def irqline_init_def irqline_alloc_def split: option.splits prod.splits sum.splits if_splits
      dest!: alloc_eqD)

lemma pick_minor_eqD: "pick_minor mj mn s = (r, s') \<Longrightarrow> sched_of s' = sched_of s"
  by (auto simp: pick_minor_def Let_def split: if_splits prod.splits option.splits dest!: ensure_line_eqD)

lemma irq_alloc_eqD: "irq_alloc mj mn u n name cx h out s = (r, out', s') \<Longrightarrow> sched_of s' = sched_of s"
  by (auto simp: irq_alloc_def Let_def split: if_splits prod.splits option.splits dest!: alloc_eqD)

lemma irq_request_eqD: "irq_request_internal out name mj mn cb cp u n s = (r, out', s') \<Longrightarrow> sched_of s' = sched_of s"
  by (auto simp: irq_request_internal_def Let_def split: if_splits prod.splits option.splits sum.splits
      dest!: pick_minor_eqD irq_alloc_eqD ensure_line_eqD)

lemma irq_masks_eqD:
  "irq_mask_internal po s = (r, s') \<Longrightarrow> sched_of s' = sched_of s" "irq_unmask_internal po s = (r, s') \<Longrightarrow> sched_of s' = sched_of s"
  using sched_of_irq_masks [of po s] by simp_all

lemma sched_of_irq_syscall [simp]: "sched_of (snd (irq_syscall_isr c s)) = sched_of s"
proof -
  have "sched_of (snd (irq_exec c s)) = sched_of s"
    by (auto simp: irq_exec_def Let_def split: prod.splits if_splits dest!: irq_request_eqD irq_masks_eqD)
  then show ?thesis by (simp add: irq_syscall_isr_def)
qed

lemma wakes_dispatch: "sched_ok (sched_of s) \<Longrightarrow> wakes (sched_of s) (sched_of (dispatch_user_mode_irq p s))"
proof -
  assume ok: "sched_ok (sched_of s)"
  obtain r s' where a: "alloc_mail s = (r, s')" by (cases "alloc_mail s")
  then have e: "sched_of s' = sched_of s" using sched_of_alloc_mail [of s] by simp
  then have "wakes (sched_of s) (sched_of (snd (send_mail mb m (s'\<lparr>mail_at := f\<rparr>))))" for mb m f
    using wakes_send_mail [of "s'\<lparr>mail_at := f\<rparr>" mb m] ok by simp
  with a e show ?thesis by (auto simp: dispatch_user_mode_irq_def Let_def split: option.splits)
qed

end
