(* ===== verification/Process.thy ===== *)
theory Process
  imports Irq
begin

text \<open>
  Threads and processes (\<^verbatim>\<open>kernel/process.c\<close>): creation, deletion, exit and the process system call.
\<close>

section \<open>Threads\<close>

text \<open>The first thread runs at once: it is made ready and the CPU is pointed at it.\<close>

definition first_thread :: "ptr \<Rightarrow> ptr \<Rightarrow> kernel \<Rightarrow> kernel" where
  "first_thread p t s =
     (let s = set_tcb t (\<lambda>x. x\<lparr>t_state := TS_READY\<rparr>) s;
          s = s\<lparr>thread_run := Some t\<rparr>;
          s = s\<lparr>mem := vmm_switch (vcb_of s p) (mem s)\<rparr>
      in snd (arch_task_restore_context (Some t) s))"

text \<open>The thread gets its number and enters the lists.\<close>

definition link_thread :: "ptr \<Rightarrow> ptr \<Rightarrow> ptr \<Rightarrow> thread_state \<Rightarrow> kernel \<Rightarrow> kernel" where
  "link_thread p t param initial_state s =
     (let s = set_tcb t (\<lambda>x. x\<lparr>parent := p, t_param := param, tid := sint (next_tid s), wake_pending := False\<rparr>) s;
          s = s\<lparr>next_tid := next_tid s + 1\<rparr>;
          s = set_pcb p (\<lambda>q. q\<lparr>tcbs := t # tcbs q\<rparr>) s;
          s = s\<lparr>thread_head := t # thread_head s\<rparr>
      in set_tcb t (\<lambda>x. x\<lparr>t_state := initial_state\<rparr>) s)"

text \<open>The part of the creation behind the last error exit.\<close>

definition finish_create :: "ptr \<Rightarrow> ptr \<Rightarrow> ptr \<Rightarrow> thread_state \<Rightarrow> kernel \<Rightarrow> kernel" where
  "finish_create p t param initial_state s =
     (let s = link_thread p t param initial_state s;
          s = (if thread_run s = None then first_thread p t s else s);
          (mb, s) = alloc_mailbox (pid (pcb_at s p)) (tid (tcb_at s t)) s
      in set_tcb t (\<lambda>x. x\<lparr>t_mailbox := mb\<rparr>) s)"

definition thread_create_ex_internal :: "ptr option \<Rightarrow> u32 \<Rightarrow> u32 \<Rightarrow> ptr \<Rightarrow> thread_state \<Rightarrow> kernel \<Rightarrow> int \<times> kernel" where
  "thread_create_ex_internal po pv entry_pc param initial_state s =
     (case po of
        None \<Rightarrow> (E_INVAL, s)
      | Some p \<Rightarrow> case kmalloc_k sizeof_tcb s of
          (None, s) \<Rightarrow> (E_NOMEM, s)
        | (Some t, s) \<Rightarrow>
            let s = set_tcb t (\<lambda>_. null_tcb) s;
                (r, s) = arch_task_context_init (Some p) (Some t) entry_pc pv s in
            if r \<noteq> 0 then (E_THREAD_CREATE, kfree_k t s)
            else let (l, s) = lock_alloc_k s; s = set_tcb t (\<lambda>x. x\<lparr>t_lock := l\<rparr>) s in
            if l = None then (E_LIMIT, kfree_k t (arch_task_context_release (Some p) (Some t) s))
            else let s = finish_create p t param initial_state s in (tid (tcb_at s t), s))"

definition t_create :: "ptr option \<Rightarrow> u32 \<Rightarrow> u32 \<Rightarrow> ptr \<Rightarrow> kernel \<Rightarrow> int \<times> kernel" where
  "t_create po pv entry_pc param = thread_create_ex_internal po pv entry_pc param TS_PENDING"

text \<open>The thread leaves the scheduler's list, its process's list and the wait queue it is on.\<close>

definition unlink_thread :: "ptr \<Rightarrow> kernel \<Rightarrow> kernel" where
  "unlink_thread t s =
     (let s = arch_task_context_release (Some (parent (tcb_at s t))) (Some t) s;
          s = tcb_detach_wait (Some t) s;
          s = s\<lparr>thread_head := list_remove t (thread_head s)\<rparr>
      in set_pcb (parent (tcb_at s t)) (\<lambda>q. q\<lparr>tcbs := list_remove t (tcbs q)\<rparr>) s)"

definition release_irqs :: "ptr \<Rightarrow> kernel \<Rightarrow> kernel" where
  "release_irqs t s =
     fold (\<lambda>p s. irq_release_internal (Some p) (set_tcb t (\<lambda>x. x\<lparr>t_irqs := list_remove p (t_irqs x)\<rparr>) s))
       (t_irqs (tcb_at s t)) s"

definition free_thread :: "ptr \<Rightarrow> kernel \<Rightarrow> kernel" where
  "free_thread t s =
     (let s = release_irqs t s;
          s = lock_release_k (t_lock (tcb_at s t)) s;
          s = release_mailbox (t_mailbox (tcb_at s t)) s
      in kfree_k t s)"

definition thread_delete_internal :: "int \<Rightarrow> kernel \<Rightarrow> kernel" where
  "thread_delete_internal n s =
     (if thread_run s = None then s
      else case thread_get_by_tid n s of
        None \<Rightarrow> s
      | Some target \<Rightarrow>
          if thread_run s \<noteq> Some target then free_thread target (unlink_thread target s)
          else case find_next_runnable (thread_run s) s of
                 (None, s) \<Rightarrow> s
               | (Some nxt, s) \<Rightarrow> free_thread target (unlink_thread target (switch_to nxt s)))"

section \<open>Processes\<close>

definition set_caps :: "ptr \<Rightarrow> cap_owner option \<Rightarrow> heaps \<Rightarrow> kernel \<Rightarrow> kernel" where
  "set_caps p co h s =
     (set_pcb p (\<lambda>q. q\<lparr>space := (space q)\<lparr>caps := the co\<rparr>\<rparr>) s)\<lparr>mem := (mem s)\<lparr>heaps_of := h\<rparr>\<rparr>"

definition inherit_caps :: "ptr \<Rightarrow> ptr \<Rightarrow> kernel \<Rightarrow> kernel" where
  "inherit_caps p q s =
     (let (co, h) = cap_inherit_all (Some (caps (space (pcb_at s p)))) (Some (caps (space (pcb_at s q))))
                      (heaps_of (mem s))
      in set_caps p co h s)"

definition destroy_space :: "ptr \<Rightarrow> kernel \<Rightarrow> kernel" where
  "destroy_space p s = (let (v, m) = vmm_destroy (vcb_of s p) (mem s) in put_vcb p v m s)"

definition free_proc :: "ptr \<Rightarrow> kernel \<Rightarrow> kernel" where
  "free_proc p s =
     (let s = lock_release_k (cap_lock (caps (space (pcb_at s p)))) s;
          s = lock_release_k (p_lock (pcb_at s p)) s
      in kfree_k p s)"

definition p_create_ex :: "u32 \<Rightarrow> u32 \<Rightarrow> ptr \<Rightarrow> thread_state \<Rightarrow> kernel \<Rightarrow> int \<times> kernel" where
  "p_create_ex pv entry_pc param initial_state s =
     (case kmalloc_k sizeof_pcb s of
        (None, s) \<Rightarrow> (E_NOMEM, s)
      | (Some p, s) \<Rightarrow>
          let s = set_pcb p (\<lambda>_. null_pcb) s; (l, s) = lock_alloc_k s; s = set_pcb p (\<lambda>q. q\<lparr>p_lock := l\<rparr>) s in
          if l = None then (E_LIMIT, kfree_k p s)
          else let (cl, s) = lock_alloc_k s;
                   s = set_pcb p (\<lambda>q. q\<lparr>space := (space q)\<lparr>caps := (caps (space q))\<lparr>cap_lock := cl\<rparr>\<rparr>\<rparr>) s in
          if cl = None then (E_LIMIT, kfree_k p (lock_release_k l s))
          else let s = set_pcb p (\<lambda>q. q\<lparr>pid := sint (next_pid s), p_state := PS_READY, priv := pv, p_param := param\<rparr>) s;
                   s = s\<lparr>next_pid := next_pid s + 1\<rparr>;
                   (r, v, m) = vmm_create (vcb_of s p) (pv = PROC_PRIV_USER) (mem s);
                   s = put_vcb p v m s in
          if r \<noteq> 0 then (E_NOMEM, free_proc p s)
          else let s = (case thread_run s of
                          None \<Rightarrow> s
                        | Some cur \<Rightarrow> if parent (tcb_at s cur) \<noteq> p then inherit_caps p (parent (tcb_at s cur)) s else s);
                   s = s\<lparr>proc_head := p # proc_head s\<rparr>;
                   (ret, s) = thread_create_ex_internal (Some p) pv entry_pc (p_param (pcb_at s p)) initial_state s in
          if ret \<ge> 0 then (pid (pcb_at s p), s)
          else let s = s\<lparr>proc_head := list_remove p (proc_head s)\<rparr>
               in (ret, free_proc p (destroy_space p s)))"

definition proc_create_internal :: "u32 \<Rightarrow> u32 \<Rightarrow> ptr \<Rightarrow> kernel \<Rightarrow> int \<times> kernel" where
  "proc_create_internal pv entry_pc param = p_create_ex pv entry_pc param TS_PENDING"

text \<open>
  The loop that deletes the threads of a process.  \<open>None\<close> is the endless \<^verbatim>\<open>hlt\<close> loop of a process whose
  running thread has no successor.
\<close>

definition drop_thread :: "ptr \<Rightarrow> kernel \<Rightarrow> kernel" where
  "drop_thread t s = (let s = unlink_thread t s in kfree_k t (lock_release_k (t_lock (tcb_at s t)) s))"

partial_function (option) exit_threads :: "ptr \<Rightarrow> kernel \<Rightarrow> kernel option" where
  [code]: "exit_threads p s =
     (case tcbs (pcb_at s p) of
        [] \<Rightarrow> Some s
      | t # _ \<Rightarrow>
          if thread_run s = Some t
          then case find_next_runnable (thread_run s) s of
                 (None, s) \<Rightarrow> None
               | (Some nxt, s) \<Rightarrow> exit_threads p (drop_thread t (switch_to nxt s))
          else exit_threads p (drop_thread t s))"

definition proc_exit_internal :: "int \<Rightarrow> kernel \<Rightarrow> kernel option" where
  "proc_exit_internal n s =
     (case get_process_by_pid n s of
        None \<Rightarrow> Some (arch_task_context_switch s)
      | Some p \<Rightarrow>
          Option.bind (exit_threads p s) (\<lambda>s.
            let s = s\<lparr>proc_head := list_remove p (proc_head s)\<rparr>;
                s = arch_task_context_switch s;
                (co, h) = cap_revoke_all (Some (caps (space (pcb_at s p)))) (heaps_of (mem s));
                s = set_caps p co h s;
                s = destroy_space p s
            in Some (free_proc p s)))"

section \<open>Refinement\<close>

lemma sched_of_tcbD:
  assumes "sched_of x = sched_of s"
  shows "parent (tcb_at x t) = parent (tcb_at s t)" "t_mailbox (tcb_at x t) = t_mailbox (tcb_at s t)"
  using assms by (metis core_of_fields(4,6) sched_of_fields(8))+

lemma sched_of_put_vcb:
  assumes "cr3 v = cr3 (vcb_of s p)" "cpu_cr3 (paging_of m) = cpu_cr3 (paging_of (mem s))"
  shows "sched_of (put_vcb p v m s) = sched_of s"
  using assms by (auto simp: put_vcb_def sched_of_def set_pcb_def vcb_of_def)

lemma sched_of_free_pages [simp]: "sched_of (vmm_free_pages_k p va s) = sched_of s"
proof -
  obtain vo m where f: "vmm_free_pages (Some (vcb_of s p)) va (mem s) = (vo, m)" by (meson surj_pair)
  then show ?thesis using cpu_cr3_free_pages [OF f] by (simp add: vmm_free_pages_k_def sched_of_put_vcb)
qed

lemma sched_of_context_release [simp]: "sched_of (arch_task_context_release vo co s) = sched_of s"
  by (simp add: arch_task_context_release_def set_ctx_def Let_def split: option.splits)

lemma sched_of_unlink: "sched_of (unlink_thread t s) = a_unlink t (sched_of s)"
proof -
  have l: "sched_of (set_pcb p (\<lambda>q. q\<lparr>tcbs := list_remove t (tcbs q)\<rparr>) (x\<lparr>thread_head := list_remove t (thread_head x)\<rparr>)) =
    (sched_of x)\<lparr>threads := list_remove t (threads (sched_of x)),
       members := (members (sched_of x))(p := list_remove t (members (sched_of x) p))\<rparr>" for p x
    by (auto simp: sched_of_def set_pcb_def)
  have "parent (tcb_at (tcb_detach_wait (Some t) x) t) = parent (tcb_at x t)" for x
    using a_detach_fields(11) [of t "sched_of x" t] by (simp flip: sched_of_detach)
  then show ?thesis
    by (simp add: unlink_thread_def a_unlink_def Let_def l sched_of_detach sched_of_tcbD(1) [OF sched_of_context_release])
qed

lemma sched_of_drop: "sched_of (drop_thread t s) = a_unlink t (sched_of s)"
  by (simp add: drop_thread_def sched_of_unlink Let_def)

lemma sched_of_release_irqs [simp]: "sched_of (release_irqs t s) = sched_of s"
  by (simp add: release_irqs_def sched_of_fold)

text \<open>Nobody else waits on the mailbox of a thread that has left the lists.\<close>

lemma unlinked_mailbox_idle:
  assumes ok: "sched_ok a" and t: "t \<in> set (threads a)" "running a \<noteq> Some t" and mb: "c_mbox (core a t) = Some mb"
  shows "queue (a_unlink t a) (Mb_wq mb) = []"
proof -
  have "sched_ok (a_unlink t a)" by (rule a_unlink_ok [OF ok t])
  have "u \<notin> set (queue (a_unlink t a) (Mb_wq mb))" for u
  proof
    assume "u \<in> set (queue (a_unlink t a) (Mb_wq mb))"
    then have "u \<in> set (threads a)" "u \<noteq> t" "c_wait (core a u) = Some (Mb_wq mb)"
      using queue_mem(1) [OF \<open>sched_ok (a_unlink t a)\<close>] by (auto simp: a_unlink_def Let_def list_remove_def split: if_splits)
    then show False using ok t(1) mb by (auto simp: sched_ok_def mboxes_ok_def)
  qed
  then show ?thesis by (metis list.set_intros(1) neq_Nil_conv)
qed

lemma sched_of_free_thread:
  assumes "\<And>mb. t_mailbox (tcb_at s t) = Some mb \<Longrightarrow> waiters (wq_at s (Mb_wq mb)) = []"
  shows "sched_of (free_thread t s) = sched_of s"
proof -
  have m: "t_mailbox (tcb_at (lock_release_k l (release_irqs t s)) t) = t_mailbox (tcb_at s t)" for l
    by (rule sched_of_tcbD) simp
  have "(sched_of s)\<lparr>queue := (queue (sched_of s))(Mb_wq mb := [])\<rparr> = sched_of s" if "t_mailbox (tcb_at s t) = Some mb" for mb
    using assms [OF that] by (auto simp: sched_of_def)
  then show ?thesis by (simp add: free_thread_def Let_def sched_of_release_mailbox m split: option.splits)
qed

lemma a_unlink_core [simp]:
  "c_parent (core (a_unlink t a) u) = c_parent (core a u)" "c_mbox (core (a_unlink t a) u) = c_mbox (core a u)"
  "c_state (core (a_unlink t a) u) = c_state (core a u)" "running (a_unlink t a) = running a" "procs (a_unlink t a) = procs a"
  "threads (a_unlink t a) = list_remove t (threads a)" "goal_dir (a_unlink t a) = goal_dir a" "dirs (a_unlink t a) = dirs a"
  by (simp_all add: a_unlink_def Let_def)

lemma sched_of_kill:
  assumes "sched_ok (sched_of s)" "t \<in> set (thread_head s)" "thread_run s \<noteq> Some t"
  shows "sched_of (free_thread t (unlink_thread t s)) = a_unlink t (sched_of s)"
proof -
  let ?x = "unlink_thread t s"
  have "waiters (wq_at ?x (Mb_wq mb)) = []" if "t_mailbox (tcb_at ?x t) = Some mb" for mb
  proof -
    have "c_mbox (core (sched_of ?x) t) = Some mb" using that by simp
    then have "c_mbox (core (sched_of s) t) = Some mb" unfolding sched_of_unlink by simp
    then have "queue (sched_of ?x) (Mb_wq mb) = []"
      unfolding sched_of_unlink using assms by (intro unlinked_mailbox_idle) simp_all
    then show ?thesis by simp
  qed
  then show ?thesis by (simp add: sched_of_free_thread sched_of_unlink)
qed

text \<open>What deleting a thread does to the scheduler's state.\<close>

definition a_pass :: "ptr \<Rightarrow> sched \<Rightarrow> sched" where
  "a_pass n a = a_switch n (set_core n (\<lambda>x. x\<lparr>c_wake := False\<rparr>) a)"

definition a_delete :: "int \<Rightarrow> sched \<Rightarrow> sched" where
  "a_delete n a =
     (if running a = None then a
      else case by_tid n a of
        None \<Rightarrow> a
      | Some t \<Rightarrow> if running a \<noteq> Some t then a_unlink t a
                  else case next_ready a t of None \<Rightarrow> a | Some m \<Rightarrow> a_unlink t (a_pass m a))"

lemma a_pass_fields [simp]:
  "threads (a_pass n a) = threads a" "procs (a_pass n a) = procs a" "running (a_pass n a) = Some n"
  "members (a_pass n a) = members a" "dirs (a_pass n a) = dirs a" "c_parent (core (a_pass n a) u) = c_parent (core a u)"
  "c_state (core (a_pass n a) u) = c_state (core a u)"
  by (auto simp: a_pass_def a_switch_def split: option.splits)

lemma a_pass_ok: "sched_ok a \<Longrightarrow> n \<in> set (threads a) \<Longrightarrow> sched_ok (a_pass n a)"
  by (simp add: a_pass_def a_switch_ok set_core_ok)

lemma a_pass_pending:
  "sched_ok a \<Longrightarrow> pending_ok a \<Longrightarrow> goal_dir a = None \<Longrightarrow> n \<in> set (threads a) \<Longrightarrow> running a \<noteq> None \<Longrightarrow> pending_ok (a_pass n a)"
  unfolding a_pass_def by (rule a_switch_pending) (simp_all add: set_core_ok set_core_pending)

lemma sched_of_pass: "sched_of (switch_to n (set_tcb n (\<lambda>x. x\<lparr>wake_pending := False\<rparr>) s)) = a_pass n (sched_of s)"
  by (simp add: sched_of_switch_to a_pass_def)

lemma switch_to_fields [simp]: "thread_head (switch_to n s) = thread_head s" "thread_run (switch_to n s) = Some n"
  by (auto simp: switch_to_def request_switch_context_def Let_def split: option.splits)

lemma sched_of_delete:
  assumes ok: "sched_ok (sched_of s)"
  shows "sched_of (thread_delete_internal n s) = a_delete n (sched_of s)"
proof (cases "thread_run s = None \<or> by_tid n (sched_of s) = None")
  case True
  then show ?thesis by (auto simp: thread_delete_internal_def a_delete_def thread_get_by_tid_eq)
next
  case False
  then obtain t c where t: "by_tid n (sched_of s) = Some t" "thread_run s = Some c" by auto
  then have mem: "t \<in> set (thread_head s)" using by_tid_Some(1) [of n "sched_of s" t] by simp
  show ?thesis
  proof (cases "thread_run s = Some t")
    case False
    then show ?thesis
      using t sched_of_kill [OF ok mem False] by (simp add: thread_delete_internal_def a_delete_def thread_get_by_tid_eq)
  next
    case True
    show ?thesis
    proof (cases "next_ready (sched_of s) t")
      case None
      then show ?thesis
        using t True by (simp add: thread_delete_internal_def a_delete_def thread_get_by_tid_eq find_next_runnable_eq)
    next
      case (Some m)
      let ?y = "switch_to m (set_tcb m (\<lambda>x. x\<lparr>wake_pending := False\<rparr>) s)"
      have "m \<noteq> t" "m \<in> set (thread_head s)"
        using next_ready_other [OF ok _ Some] next_ready_Some(1) [OF Some] True by simp_all
      then have "sched_of (free_thread t (unlink_thread t ?y)) = a_unlink t (a_pass m (sched_of s))"
        using sched_of_kill [of ?y t] a_pass_ok [OF ok] mem by (simp add: sched_of_pass)
      then show ?thesis
        using t True Some by (simp add: thread_delete_internal_def a_delete_def thread_get_by_tid_eq find_next_runnable_eq)
    qed
  qed
qed

lemma a_delete_ok: "sched_ok a \<Longrightarrow> sched_ok (a_delete n a)"
  using next_ready_other [of a]
  by (auto simp: a_delete_def split: option.splits intro!: a_unlink_ok a_pass_ok dest: by_tid_Some(1) next_ready_Some(1))

lemma a_delete_pending: "sched_ok a \<Longrightarrow> pending_ok a \<Longrightarrow> goal_dir a = None \<Longrightarrow> pending_ok (a_delete n a)"
  by (auto simp: a_delete_def split: option.splits intro!: a_unlink_pending a_pass_pending dest: next_ready_Some(1))

section \<open>The end of a process\<close>

text \<open>
  The invariant of the loop that deletes the threads of process \<open>p\<close>, and when the loop ends: the processor can
  leave the process, either because it is elsewhere already or because a thread of another process is ready.
\<close>

definition exiting :: "ptr \<Rightarrow> sched \<Rightarrow> bool" where
  "exiting p a \<longleftrightarrow> sched_ok a \<and> pending_ok a \<and> p \<in> set (procs a) \<and>
     (\<forall>c. running a = Some c \<longrightarrow> c_parent (core a c) = p \<longrightarrow> goal_dir a = None)"

definition can_leave :: "ptr \<Rightarrow> sched \<Rightarrow> bool" where
  "can_leave p a \<longleftrightarrow> (\<forall>c. running a = Some c \<longrightarrow> c_parent (core a c) = p \<longrightarrow>
     (\<exists>u\<in>set (threads a). c_state (core a u) = TS_READY \<and> c_parent (core a u) \<noteq> p))"

lemma members_iff: "sched_ok a \<Longrightarrow> p \<in> set (procs a) \<Longrightarrow> t \<in> set (members a p) \<longleftrightarrow> t \<in> set (threads a) \<and> c_parent (core a t) = p"
  by (auto simp: sched_ok_def procs_ok_def)

lemma members_unlink: "c_parent (core a t) = p \<Longrightarrow> members (a_unlink t a) p = list_remove t (members a p)"
  by (simp add: a_unlink_def Let_def)

lemma exiting_drop:
  assumes e: "exiting p a" and t: "t \<in> set (members a p)" "running a \<noteq> Some t"
  shows "exiting p (a_unlink t a)" "can_leave p (a_unlink t a) \<longleftrightarrow> can_leave p a"
proof -
  have ok: "sched_ok a" "pending_ok a" "p \<in> set (procs a)" using e by (simp_all add: exiting_def)
  then have m: "t \<in> set (threads a)" "c_parent (core a t) = p" using members_iff [OF ok(1,3)] t(1) by auto
  show "exiting p (a_unlink t a)"
    using e ok a_unlink_ok [OF ok(1) m(1) t(2)] a_unlink_pending [OF ok(2)] by (simp add: exiting_def)
  show "can_leave p (a_unlink t a) \<longleftrightarrow> can_leave p a"
    using m by (auto simp: can_leave_def list_remove_def)
qed

lemma exiting_pass:
  assumes e: "exiting p a" and t: "running a = Some t" "c_parent (core a t) = p" and n: "next_ready a t = Some n"
  shows "exiting p (a_pass n a)" "can_leave p (a_pass n a) \<longleftrightarrow> can_leave p a"
proof -
  have ok: "sched_ok a" "pending_ok a" "p \<in> set (procs a)" "goal_dir a = None" using e t by (auto simp: exiting_def)
  note n' = next_ready_Some [OF n]
  have "goal_dir (a_pass n a) = None" if "c_parent (core a n) = p"
    using that t by (simp add: a_pass_def a_switch_def)
  then show "exiting p (a_pass n a)"
    using ok n' t a_pass_ok [OF ok(1) n'(1)] a_pass_pending [OF ok(1,2,4) n'(1)] by (simp add: exiting_def)
  show "can_leave p (a_pass n a) \<longleftrightarrow> can_leave p a"
    using t n' by (auto simp: can_leave_def)
qed

lemma next_ready_none:
  assumes ok: "sched_ok a" and t: "running a = Some t" "c_parent (core a t) = p" and n: "next_ready a t = None"
  shows "\<not> can_leave p a"
proof -
  have d: "distinct (threads a)" "t \<in> set (threads a)"
    using ok running_thread [OF ok t(1)] by (simp_all add: sched_ok_def threads_ok_def)
  have "\<forall>u\<in>set (threads a) - {t}. c_state (core a u) \<noteq> TS_READY"
    using n turn_order_set [OF d] by (auto simp: next_ready_def find_None_iff)
  then show ?thesis using t by (auto simp: can_leave_def)
qed

text \<open>One round of the loop, on the scheduler's state.\<close>

lemma exit_round:
  assumes e: "exiting p (sched_of s)" and m: "tcbs (pcb_at s p) = t # ts"
  obtains "exit_threads p s = None" "\<not> can_leave p (sched_of s)"
  | x where "exit_threads p s = exit_threads p x" "exiting p (sched_of x)" "can_leave p (sched_of x) = can_leave p (sched_of s)"
      "tcbs (pcb_at x p) = list_remove t (t # ts)" "thread_head x = list_remove t (thread_head s)"
      "\<And>u. parent (tcb_at x u) = parent (tcb_at s u)" "proc_head x = proc_head s"
proof -
  note stuck = that(1) and go = that(2)
  let ?a = "sched_of s"
  have ok: "sched_ok ?a" "p \<in> set (procs ?a)" using e by (simp_all add: exiting_def)
  have t: "t \<in> set (members ?a p)" using m by simp
  then have pt: "c_parent (core ?a t) = p" using members_iff [OF ok] by blast
  have fin: thesis if x: "exit_threads p s = exit_threads p x" "sched_of x = a_unlink t b"
    and b: "exiting p b" "can_leave p b = can_leave p ?a" "running b \<noteq> Some t" "members b p = t # ts" "threads b = thread_head s"
      "\<And>u. c_parent (core b u) = parent (tcb_at s u)" "procs b = proc_head s" for x b
  proof (rule go [OF x(1)])
    have t': "t \<in> set (members b p)" using b(4) by simp
    show "exiting p (sched_of x)" "can_leave p (sched_of x) = can_leave p ?a"
      unfolding x(2) using exiting_drop [OF b(1) t' b(3)] b(2) by simp_all
    show "tcbs (pcb_at x p) = list_remove t (t # ts)"
      using members_unlink [of b t p] b(4,6) pt x(2) by (metis core_of_fields(4) sched_of_fields(8,9))
    show "thread_head x = list_remove t (thread_head s)" "proc_head x = proc_head s"
      using arg_cong [OF x(2), of threads] arg_cong [OF x(2), of procs] b(5,7) by simp_all
    show "parent (tcb_at x u) = parent (tcb_at s u)" for u
      using arg_cong [OF x(2), of "\<lambda>a. c_parent (core a u)"] b(6) by simp
  qed
  show thesis
  proof (cases "thread_run s = Some t")
    case False
    then have "exit_threads p s = exit_threads p (drop_thread t s)" using m by (simp add: exit_threads.simps [of p s])
    then show thesis by (rule fin [OF _ sched_of_drop]) (use e False m in simp_all)
  next
    case True
    show thesis
    proof (cases "next_ready ?a t")
      case None
      then show thesis
        using stuck next_ready_none [OF ok(1) _ pt None] True m
        by (simp add: exit_threads.simps [of p s] find_next_runnable_eq)
    next
      case (Some n)
      let ?y = "switch_to n (set_tcb n (\<lambda>x. x\<lparr>wake_pending := False\<rparr>) s)"
      have "exit_threads p s = exit_threads p (drop_thread t ?y)"
        using m True Some by (simp add: exit_threads.simps [of p s] find_next_runnable_eq)
      moreover have "n \<noteq> t" using next_ready_other [OF ok(1) _ Some] True by simp
      ultimately show thesis
        using exiting_pass [OF e _ pt Some] True m
        by (intro fin [of "drop_thread t ?y" "a_pass n ?a"]) (simp_all add: sched_of_drop sched_of_pass)
    qed
  qed
qed

lemma exit_threads_loop:
  assumes "exiting p (sched_of s)"
  shows "if can_leave p (sched_of s)
    then \<exists>s'. exit_threads p s = Some s' \<and> exiting p (sched_of s') \<and> tcbs (pcb_at s' p) = [] \<and> proc_head s' = proc_head s \<and>
           thread_head s' = filter (\<lambda>t. parent (tcb_at s t) \<noteq> p) (thread_head s)
    else exit_threads p s = None"
  using assms
proof (induction "length (tcbs (pcb_at s p))" arbitrary: s rule: less_induct)
  case less
  have ok: "sched_ok (sched_of s)" "p \<in> set (proc_head s)" using less.prems by (simp_all add: exiting_def)
  show ?case
  proof (cases "tcbs (pcb_at s p)")
    case Nil
    then have none: "\<forall>t\<in>set (thread_head s). parent (tcb_at s t) \<noteq> p" using members_iff [OF ok(1), of p] ok(2) by auto
    then have "can_leave p (sched_of s)" using running_thread [OF ok(1)] by (auto simp: can_leave_def)
    moreover have "exit_threads p s = Some s" using Nil by (simp add: exit_threads.simps)
    ultimately show ?thesis using less.prems none Nil by simp
  next
    case (Cons t ts)
    from less.prems Cons show ?thesis
    proof (cases rule: exit_round)
      case 1
      then show ?thesis by simp
    next
      case (2 x)
      have "t \<in> set (members (sched_of s) p)" using Cons by simp
      then have "parent (tcb_at s t) = p" using members_iff [OF ok(1), of p t] ok(2) by simp
      then have "filter (\<lambda>u. parent (tcb_at x u) \<noteq> p) (thread_head x) = filter (\<lambda>u. parent (tcb_at s u) \<noteq> p) (thread_head s)"
        by (auto simp: 2 list_remove_def intro!: filter_cong)
      moreover have "length (tcbs (pcb_at x p)) < length (tcbs (pcb_at s p))"
        using 2(4) Cons by (simp add: list_remove_def le_imp_less_Suc)
      ultimately show ?thesis using less.hyps [OF _ 2(2)] 2(1,3,7) by (cases "can_leave p (sched_of s)") simp_all
    qed
  qed
qed

lemma sched_of_set_caps [simp]: "sched_of (set_caps p co h s) = sched_of s"
  by (auto simp: set_caps_def sched_of_def set_pcb_def)

lemma sched_of_free_proc [simp]: "sched_of (free_proc p s) = sched_of s"
  by (simp add: free_proc_def Let_def)

lemma sched_of_destroy_space:
  obtains d where "sched_of (destroy_space p s) = (sched_of s)\<lparr>dirs := (dirs (sched_of s))(p := d)\<rparr>"
proof -
  obtain v m where v: "vmm_destroy (vcb_of s p) (mem s) = (v, m)" by (meson surj_pair)
  then have "cpu_cr3 (paging_of m) = cpu_cr3 (paging_of (mem s))" using cpu_cr3_vmm_destroy [of "vcb_of s p" "mem s"] by simp
  then have "sched_of (destroy_space p s) = (sched_of s)\<lparr>dirs := (dirs (sched_of s))(p := cr3 v)\<rparr>"
    using v by (auto simp: destroy_space_def put_vcb_def sched_of_def set_pcb_def)
  then show thesis using that by blast
qed

text \<open>Once its threads are gone, the process can leave the list and its directory can go.\<close>

lemma retire_ok:
  assumes e: "exiting p a" and m: "members a p = []"
    and b: "b = (a_commit (a\<lparr>procs := list_remove p (procs a)\<rparr>))\<lparr>dirs := (dirs a)(p := d)\<rparr>"
  shows "sched_ok b" "committed b"
proof -
  have ok: "sched_ok a" "pending_ok a" "p \<in> set (procs a)" using e by (simp_all add: exiting_def)
  then have none: "\<forall>t\<in>set (threads a). c_parent (core a t) \<noteq> p" using members_iff [OF ok(1,3)] m by auto
  have f: "threads b = threads a" "procs b = list_remove p (procs a)" "running b = running a" "core b = core a"
    "members b = members a" "pids b = pids a" "dirs b = (dirs a)(p := d)" "queue b = queue a"
    by (simp_all add: b a_commit_def)
  have "procs_ok b" using ok(1) none by (auto simp: f sched_ok_def procs_ok_def list_remove_def inj_on_def)
  then show "sched_ok b" using ok(1) by (simp add: sched_ok_def threads_ok_def queues_ok_def mboxes_ok_def f)
  show "committed b"
    using ok(2) none running_thread [OF ok(1)]
    by (cases "goal_dir a"; cases "goal_ctx a") (auto simp: b pending_ok_def committed_def a_commit_def)
qed

lemma proc_exit_cases:
  assumes "sched_ok (sched_of s)" and "committed (sched_of s)" and "get_process_by_pid n s = Some p"
  shows "if (\<exists>c. thread_run s = Some c \<and> parent (tcb_at s c) = p) \<and>
            (\<forall>u\<in>set (thread_head s). t_state (tcb_at s u) = TS_READY \<longrightarrow> parent (tcb_at s u) = p)
    then proc_exit_internal n s = None
    else \<exists>s'. proc_exit_internal n s = Some s' \<and> proc_head s' = list_remove p (proc_head s) \<and>
           thread_head s' = filter (\<lambda>t. parent (tcb_at s t) \<noteq> p) (thread_head s) \<and>
           sched_ok (sched_of s') \<and> committed (sched_of s')"
proof -
  have "p \<in> set (proc_head s)" using assms(3) find_SomeD by (fastforce simp: get_process_by_pid_def)
  then have e: "exiting p (sched_of s)"
    using assms(1,2) committed_pending by (auto simp: exiting_def committed_def)
  have leave: "can_leave p (sched_of s) \<longleftrightarrow> \<not> ((\<exists>c. thread_run s = Some c \<and> parent (tcb_at s c) = p) \<and>
      (\<forall>u\<in>set (thread_head s). t_state (tcb_at s u) = TS_READY \<longrightarrow> parent (tcb_at s u) = p))"
    by (auto simp: can_leave_def)
  show ?thesis
  proof (cases "can_leave p (sched_of s)")
    case False
    then show ?thesis using exit_threads_loop [OF e] assms(3) leave by (simp add: proc_exit_internal_def)
  next
    case True
    then obtain x where x: "exit_threads p s = Some x" "exiting p (sched_of x)" "tcbs (pcb_at x p) = []"
      "proc_head x = proc_head s" "thread_head x = filter (\<lambda>t. parent (tcb_at s t) \<noteq> p) (thread_head s)"
      using exit_threads_loop [OF e] by auto
    let ?y = "arch_task_context_switch (x\<lparr>proc_head := list_remove p (proc_head x)\<rparr>)"
    obtain co h where c: "cap_revoke_all (Some (caps (space (pcb_at ?y p)))) (heaps_of (mem ?y)) = (co, h)" by (meson surj_pair)
    obtain d where d: "sched_of (destroy_space p (set_caps p co h ?y)) =
        (sched_of ?y)\<lparr>dirs := (dirs (sched_of ?y))(p := d)\<rparr>"
      using sched_of_destroy_space [of p "set_caps p co h ?y"] by auto
    let ?z = "free_proc p (destroy_space p (set_caps p co h ?y))"
    have z: "sched_of ?z = (a_commit ((sched_of x)\<lparr>procs := list_remove p (procs (sched_of x))\<rparr>))\<lparr>dirs := (dirs (sched_of x))(p := d)\<rparr>"
      using d by (simp add: sched_of_commit) (simp add: sched_of_def a_commit_def)
    have "proc_exit_internal n s = Some ?z" using assms(3) x(1) c by (simp add: proc_exit_internal_def Let_def)
    moreover have "thread_head ?z = thread_head x" "proc_head ?z = list_remove p (proc_head x)"
      using arg_cong [OF z, of threads] arg_cong [OF z, of procs] by (simp_all add: a_commit_def del: sched_of_free_proc)
    ultimately show ?thesis using retire_ok [OF x(2) _ z] x leave True by simp
  qed
qed

text \<open>
  Property C6: \<^verbatim>\<open>proc_exit\<close> ends, and ends the process.  Called in a well-formed state for an existing process, it
  halts for ever exactly when the caller belongs to the process and no thread of another process is ready.
  Otherwise it returns; exactly the threads of the process and the process itself have left the lists, the
  state is well formed again, and the processor runs a remaining thread in the address space of its process.
\<close>

theorem proc_exit_ends:
  assumes "sched_ok (sched_of s)" and "committed (sched_of s)" and "get_process_by_pid n s = Some p"
  shows "if (\<exists>c. thread_run s = Some c \<and> parent (tcb_at s c) = p) \<and>
            (\<forall>u\<in>set (thread_head s). t_state (tcb_at s u) = TS_READY \<longrightarrow> parent (tcb_at s u) = p)
    then proc_exit_internal n s = None
    else \<exists>s'. proc_exit_internal n s = Some s' \<and> proc_head s' = list_remove p (proc_head s) \<and>
           thread_head s' = filter (\<lambda>t. parent (tcb_at s t) \<noteq> p) (thread_head s) \<and>
           sched_ok (sched_of s') \<and> committed (sched_of s')"
  by (rule proc_exit_cases [OF assms])

lemma proc_exit_ends_witness:
  "\<forall>m. \<exists>s'. proc_exit_internal 1 (demo m) = Some s' \<and> proc_head s' = [0x20] \<and> thread_head s' = [0x300] \<and>
     sched_ok (sched_of s') \<and> committed (sched_of s')"
proof
  fix m
  have f: "get_process_by_pid 1 (demo m) = Some 0x10" "proc_head (demo m) = [0x20, 0x10]"
    "thread_head (demo m) = [0x300, 0x200, 0x100]" "thread_run (demo m) = Some 0x100"
    "t_state (tcb_at (demo m) 0x300) = TS_READY" "parent (tcb_at (demo m) 0x300) = 0x20"
    "parent (tcb_at (demo m) 0x200) = 0x10" "parent (tcb_at (demo m) 0x100) = 0x10"
    by (simp_all add: demo_def boot_kernel_def demo_tcb_def demo_pcb_def null_tcb_def null_pcb_def get_process_by_pid_def)
  then show "\<exists>s'. proc_exit_internal 1 (demo m) = Some s' \<and> proc_head s' = [0x20] \<and> thread_head s' = [0x300] \<and>
     sched_ok (sched_of s') \<and> committed (sched_of s')"
    using proc_exit_ends [OF demo_ok f(1)] by (simp add: list_remove_def)
qed

section \<open>Creating a thread\<close>

text \<open>A block outside the lists does not count.\<close>

lemma sched_ok_cong_on:
  assumes "threads b = threads a" "procs b = procs a" "running b = running a" "members b = members a" "pids b = pids a"
    "dirs b = dirs a" "queue b = queue a" and core: "\<forall>u\<in>set (threads a). core b u = core a u"
  shows "sched_ok b \<longleftrightarrow> sched_ok a"
proof -
  have "inj_on (\<lambda>t. c_tid (core b t)) (set (threads a)) \<longleftrightarrow> inj_on (\<lambda>t. c_tid (core a t)) (set (threads a))"
    using core by (intro inj_on_cong) simp
  moreover have "{t\<in>set (threads a). c_parent (core b t) = p} = {t\<in>set (threads a). c_parent (core a t) = p}"
    "{t\<in>set (threads a). c_wait (core b t) = w} = {t\<in>set (threads a). c_wait (core a t) = w}" for p w using core by auto
  ultimately show ?thesis
    using core by (simp add: sched_ok_def threads_ok_def procs_ok_def queues_ok_def mboxes_ok_def assms(1-7))
qed

definition a_add :: "ptr \<Rightarrow> ptr \<Rightarrow> int \<Rightarrow> thread_state \<Rightarrow> sched \<Rightarrow> sched" where
  "a_add t p n st a = a\<lparr>threads := t # threads a, members := (members a)(p := t # members a p),
     core := (core a)(t := \<lparr>c_tid = n, c_state = st, c_wake = False, c_parent = p, c_wait = None, c_mbox = None\<rparr>)\<rparr>"

lemma a_add_ok:
  assumes ok: "sched_ok a" and t: "t \<notin> set (threads a)" "p \<in> set (procs a)" "\<forall>u\<in>set (threads a). c_tid (core a u) \<noteq> n"
  shows "sched_ok (a_add t p n st a)"
proof -
  define b where "b = a_add t p n st a"
  have f: "threads b = t # threads a" "procs b = procs a" "running b = running a" "pids b = pids a" "dirs b = dirs a"
    "queue b = queue a" "members b = (members a)(p := t # members a p)" by (simp_all add: b_def a_add_def)
  have c: "core b t = \<lparr>c_tid = n, c_state = st, c_wake = False, c_parent = p, c_wait = None, c_mbox = None\<rparr>"
    "\<And>u. u \<in> set (threads a) \<Longrightarrow> core b u = core a u" using t(1) by (auto simp: b_def a_add_def)
  have "threads_ok b" using ok t(1,3) by (auto simp: sched_ok_def threads_ok_def f c inj_on_def)
  moreover have "procs_ok b" using ok t(1,2) by (auto simp: sched_ok_def procs_ok_def f c)
  moreover have "queues_ok b" using ok t(1) by (auto simp: sched_ok_def queues_ok_def f c)
  moreover have "mboxes_ok b" using ok by (auto simp: sched_ok_def mboxes_ok_def f c)
  ultimately show ?thesis by (simp add: sched_ok_def b_def)
qed

text \<open>Giving the thread a mailbox of its own.\<close>

lemma a_mbox_ok:
  assumes ok: "sched_ok a" and c: "c_wait (core a t) = None"
    and mb: "\<forall>u\<in>set (threads a). u \<noteq> t \<longrightarrow> mb \<noteq> None \<longrightarrow> c_mbox (core a u) \<noteq> mb"
  shows "sched_ok (set_core t (\<lambda>x. x\<lparr>c_mbox := mb\<rparr>) a)"
proof -
  define b where "b = set_core t (\<lambda>x. x\<lparr>c_mbox := mb\<rparr>) a"
  have f: "c_tid (core b u) = c_tid (core a u)" "c_parent (core b u) = c_parent (core a u)"
    "c_wait (core b u) = c_wait (core a u)" "c_mbox (core b u) = (if u = t then mb else c_mbox (core a u))" for u
    by (simp_all add: b_def)
  have g: "threads b = threads a" "procs b = procs a" "running b = running a" "members b = members a" "pids b = pids a"
    "dirs b = dirs a" "queue b = queue a" by (simp_all add: b_def)
  have "mboxes_ok b" using ok c mb by (auto simp: sched_ok_def mboxes_ok_def f g)
  then have "sched_ok b" using ok by (simp add: sched_ok_def threads_ok_def procs_ok_def queues_ok_def f g)
  then show ?thesis by (simp add: b_def)
qed

lemma alloc_frame:
  assumes "kmalloc_k n s = (r, s')"
  shows "sched_of s' = sched_of s" "next_tid s' = next_tid s" "heap_grew (mem s) (mem s')"
    "kheap_ok (heaps_of (mem s)) \<Longrightarrow> r = Some p \<Longrightarrow> p \<notin> klive (heaps_of (mem s))"
proof -
  obtain m where k: "kmalloc_in n (mem s) = (r, m)" "s' = s\<lparr>mem := m\<rparr>"
    using assms by (auto simp: kmalloc_k_def split: prod.splits)
  show "sched_of s' = sched_of s" using alloc_eqD(2) [OF assms] .
  show "next_tid s' = next_tid s" "heap_grew (mem s) (mem s')"
    "kheap_ok (heaps_of (mem s)) \<Longrightarrow> r = Some p \<Longrightarrow> p \<notin> klive (heaps_of (mem s))"
    using heap_grew_kmalloc [OF k(1)] by (simp_all add: k(2))
qed

lemma kfree_next_tid [simp]: "next_tid (kfree_k p s) = next_tid s"
  by (simp add: kfree_k_def)

lemma lock_frame:
  assumes "lock_alloc_k s = (l, s')"
  shows "sched_of s' = sched_of s" "next_tid s' = next_tid s" "heap_grew (mem s) (mem s')"
  using assms alloc_eqD(3) [OF assms] by (auto simp: lock_alloc_k_def split: prod.splits intro: heap_grew_refl)

lemma sched_of_set_ctx [simp]: "sched_of (set_ctx t f s) = sched_of s" "mem (set_ctx t f s) = mem s" "next_tid (set_ctx t f s) = next_tid s"
  by (simp_all add: set_ctx_def)

lemma put_vcb_fields [simp]: "next_tid (put_vcb p v m s) = next_tid s" "mem (put_vcb p v m s) = m"
  by (simp_all add: put_vcb_def)

lemma alloc_pages_frame:
  assumes "vmm_alloc_pages_k p n flags s = (va, s')"
  shows "sched_of s' = sched_of s" "next_tid s' = next_tid s" "heap_grew (mem s) (mem s')"
proof -
  obtain vo m where v: "vmm_alloc_pages (Some (vcb_of s p)) n flags (mem s) = (va, vo, m)" "s' = put_vcb p (the vo) m s"
    using assms by (auto simp: vmm_alloc_pages_k_def split: prod.splits)
  show "sched_of s' = sched_of s" "next_tid s' = next_tid s" "heap_grew (mem s) (mem s')"
    using cpu_cr3_alloc_pages [OF v(1)] heap_grew_alloc_pages [OF v(1)] by (simp_all add: v(2) sched_of_put_vcb)
qed

lemma free_pages_next_tid [simp]: "next_tid (vmm_free_pages_k p va s) = next_tid s"
  by (simp add: vmm_free_pages_k_def split: prod.splits)

text \<open>Making the context of a thread touches nothing the scheduler looks at.\<close>

lemma context_init_frame:
  assumes "arch_task_context_init (Some p) (Some t) pc pv s = (r, s')"
  shows "sched_of s' = sched_of s" "next_tid s' = next_tid s" "r = 0 \<Longrightarrow> heap_grew (mem s) (mem s')"
proof -
  define rg :: u8 where "rg = (if pv = TASK_PRIV_KERNEL then 0 else 3)"
  define s1 where "s1 = set_ctx t (\<lambda>c. c\<lparr>ldts := [0x0000ffff, 0x00cf9a00 OR push_bit 13 (ucast rg),
                                           0x0000ffff, 0x00cf9200 OR push_bit 13 (ucast rg)]\<rparr>) s"
  obtain st s2 where a: "(if rg \<noteq> 0 then vmm_alloc_pages_k p 1 PTE_USER_PAGE s1
      else case kmalloc_k 0x1000 s1 of (None, s) \<Rightarrow> (0, s) | (Some a, s) \<Rightarrow> (a, s)) = (st, s2)" by (meson surj_pair)
  have f: "sched_of s2 = sched_of s" "next_tid s2 = next_tid s" "heap_grew (mem s) (mem s2)"
    using a alloc_pages_frame [of p 1 PTE_USER_PAGE s1 st s2] alloc_frame(1-3) [of "0x1000" s1 _ s2]
    by (auto simp: s1_def split: if_splits prod.splits option.splits)
  have "arch_task_context_init (Some p) (Some t) pc pv s =
     (let s = set_ctx t (\<lambda>c. c\<lparr>stack := st\<rparr>) s2 in
      if st = 0 then (E_NOMEM, s)
      else let s = set_ctx t (\<lambda>c. c\<lparr>ctx_regs := st + 0x1000 - sizeof_regs\<rparr>) s;
               stack_pa = (if rg \<noteq> 0 then vmm_vcb_va_to_pa (Some (vcb_of s p)) st else st) in
      if rg \<noteq> 0 \<and> stack_pa = 0 then (E_NOMEM, set_ctx t (\<lambda>c. c\<lparr>stack := 0\<rparr>) (vmm_free_pages_k p st s))
      else let frame = stack_pa + 0x1000 - sizeof_regs;
               s = s\<lparr>frames := (frames s)(frame := first_frame rg pc st (frames s frame))\<rparr>
           in (0, set_ctx t (\<lambda>c. c\<lparr>ring := rg\<rparr>) s))"
    unfolding arch_task_context_init_def Let_def option.case prod.case rg_def [symmetric] s1_def [symmetric] a by simp
  then show "sched_of s' = sched_of s" "next_tid s' = next_tid s" "r = 0 \<Longrightarrow> heap_grew (mem s) (mem s')"
    using assms f by (auto simp: Let_def E_NOMEM_def split: if_splits)
qed

lemma sched_of_link:
  assumes "core (sched_of s) t = core_of null_tcb"
  shows "sched_of (link_thread p t param st s) = a_add t p (sint (next_tid s)) st (sched_of s)"
    "next_tid (link_thread p t param st s) = next_tid s + 1" "mem (link_thread p t param st s) = mem s"
proof -
  have "core_of (tcb_at s t) = core_of null_tcb" using assms by simp
  then have "waiting_on (tcb_at s t) = None" "t_mailbox (tcb_at s t) = None"
    by (simp_all add: core_of_def null_tcb_def)
  then show "sched_of (link_thread p t param st s) = a_add t p (sint (next_tid s)) st (sched_of s)"
    by (auto simp: link_thread_def Let_def sched_of_def a_add_def set_tcb_def set_pcb_def core_of_def fun_eq_iff)
qed (simp_all add: link_thread_def Let_def)

lemma sched_of_first:
  "sched_of (first_thread p t s) = (set_core t (\<lambda>x. x\<lparr>c_state := TS_READY\<rparr>) (sched_of s))\<lparr>running := Some t,
     on_dir := (if dirs (sched_of s) p = 0 then on_dir (sched_of s) else dirs (sched_of s) p), on_ctx := Some t\<rparr>"
  "mem (first_thread p t s) = vmm_switch (vcb_of s p) (mem s)" "next_tid (first_thread p t s) = next_tid s"
proof -
  have r: "sched_of (x\<lparr>thread_run := Some t\<rparr>) = (sched_of x)\<lparr>running := Some t\<rparr>" for x by (simp add: sched_of_def)
  have v: "sched_of (x\<lparr>mem := vmm_switch (vcb_of x p) (mem x)\<rparr>) =
      (sched_of x)\<lparr>on_dir := (if dirs (sched_of x) p = 0 then on_dir (sched_of x) else dirs (sched_of x) p)\<rparr>" for x
    by (simp add: vmm_switch_def vcb_of_def sched_of_mem)
  show "sched_of (first_thread p t s) = (set_core t (\<lambda>x. x\<lparr>c_state := TS_READY\<rparr>) (sched_of s))\<lparr>running := Some t,
     on_dir := (if dirs (sched_of s) p = 0 then on_dir (sched_of s) else dirs (sched_of s) p), on_ctx := Some t\<rparr>"
    unfolding first_thread_def Let_def sched_of_restore v r by simp
  show "mem (first_thread p t s) = vmm_switch (vcb_of s p) (mem s)" "next_tid (first_thread p t s) = next_tid s"
    by (simp_all add: first_thread_def arch_task_restore_context_def ldt_reload_def vcb_of_def Let_def)
qed

lemma alloc_mailbox_frame:
  assumes "alloc_mailbox op ot s = (mb, s')"
  shows "sched_of s' = (case mb of None \<Rightarrow> sched_of s | Some b \<Rightarrow> (sched_of s)\<lparr>queue := (queue (sched_of s))(Mb_wq b := [])\<rparr>)"
    "next_tid s' = next_tid s" "kheap_ok (heaps_of (mem s)) \<Longrightarrow> mb = Some b \<Longrightarrow> b \<notin> klive (heaps_of (mem s))"
proof -
  obtain r s1 where k: "kmalloc_k sizeof_mailbox s = (r, s1)" by (meson surj_pair)
  obtain l s2 where l: "lock_alloc_k s1 = (l, s2)" by (meson surj_pair)
  note kf = alloc_frame [OF k] and lf = lock_frame [OF l]
  show "sched_of s' = (case mb of None \<Rightarrow> sched_of s | Some b \<Rightarrow> (sched_of s)\<lparr>queue := (queue (sched_of s))(Mb_wq b := [])\<rparr>)"
    "next_tid s' = next_tid s" "kheap_ok (heaps_of (mem s)) \<Longrightarrow> mb = Some b \<Longrightarrow> b \<notin> klive (heaps_of (mem s))"
    using assms k l kf lf by (auto simp: alloc_mailbox_def Let_def split: option.splits if_splits)
qed

text \<open>The threads and their mailboxes are blocks of the kernel heap in use.\<close>

definition blocks_live :: "kernel \<Rightarrow> bool" where
  "blocks_live s \<longleftrightarrow> kheap_ok (heaps_of (mem s)) \<and> set (thread_head s) \<subseteq> klive (heaps_of (mem s)) \<and>
     (\<forall>u\<in>set (thread_head s). set_option (t_mailbox (tcb_at s u)) \<subseteq> klive (heaps_of (mem s)))"

lemma sched_ok_running:
  "sched_ok a \<Longrightarrow> t \<in> set (threads a) \<Longrightarrow> sched_ok (a\<lparr>running := Some t, on_dir := d, on_ctx := c\<rparr>)"
  by (simp add: sched_ok_def threads_ok_def procs_ok_def queues_ok_def mboxes_ok_def)

lemma no_waiters:
  assumes ok: "sched_ok a" and b: "\<forall>u\<in>set (threads a). c_mbox (core a u) \<noteq> Some b"
  shows "a\<lparr>queue := (queue a)(Mb_wq b := [])\<rparr> = a"
proof -
  have "u \<notin> set (queue a (Mb_wq b))" for u
    using queue_mem(1) [OF ok, of u "Mb_wq b"] ok b by (auto simp: sched_ok_def mboxes_ok_def)
  then have "queue a (Mb_wq b) = []" by (metis list.set_intros(1) neq_Nil_conv)
  then show ?thesis by (cases a) (simp add: fun_upd_idem)
qed

text \<open>The processor, and the switch requested of it, are left alone.\<close>

definition cpu_same :: "sched \<Rightarrow> sched \<Rightarrow> bool" where
  "cpu_same a b \<longleftrightarrow> dirs b = dirs a \<and> goal_dir b = goal_dir a \<and> goal_ctx b = goal_ctx a \<and> on_ctx b = on_ctx a \<and> on_dir b = on_dir a"

text \<open>The scheduler's state after the creation of thread \<open>t\<close>.\<close>

definition thread_added :: "ptr \<Rightarrow> ptr \<Rightarrow> int \<Rightarrow> thread_state \<Rightarrow> sched \<Rightarrow> sched \<Rightarrow> bool" where
  "thread_added t p n st a b \<longleftrightarrow> threads b = t # threads a \<and> procs b = procs a \<and> members b p = t # members a p \<and>
     (\<forall>u\<in>set (threads a). core b u = core a u) \<and> c_tid (core b t) = n \<and> c_parent (core b t) = p \<and> c_wait (core b t) = None \<and>
     (if running a = None then running b = Some t \<and> c_state (core b t) = TS_READY
      else running b = running a \<and> c_state (core b t) = st \<and> cpu_same a b)"

lemma finish_create_ok:
  assumes ok: "sched_ok a" and live: "kheap_ok (heaps_of (mem s))"
      "\<forall>u\<in>set (threads a). set_option (c_mbox (core a u)) \<subseteq> klive (heaps_of (mem s))"
    and t: "t \<notin> set (threads a)" "p \<in> set (procs a)" "\<forall>u\<in>set (threads a). c_tid (core a u) \<noteq> sint (next_tid s)"
    and s: "sched_of s = set_core t (\<lambda>_. core_of null_tcb) a" and f: "finish_create p t param st s = s'"
  shows "sched_ok (sched_of s') \<and> thread_added t p (sint (next_tid s)) st a (sched_of s') \<and> next_tid s' = next_tid s + 1"
proof -
  define s1 where "s1 = link_thread p t param st s"
  define s2 where "s2 = (if thread_run s1 = None then first_thread p t s1 else s1)"
  define b where "b = sched_of s2"
  let ?a1 = "a_add t p (sint (next_tid s)) st a"
  have s1: "sched_of s1 = ?a1" "next_tid s1 = next_tid s + 1" "mem s1 = mem s"
    using sched_of_link [of s t p param st] s by (simp_all add: s1_def a_add_def)
  have run: "thread_run s1 = running a" using arg_cong [OF s1(1), of running] by (simp add: a_add_def)
  have ok1: "sched_ok ?a1" by (rule a_add_ok [OF ok t])
  define d where "d = (if dirs ?a1 p = 0 then on_dir ?a1 else dirs ?a1 p)"
  have b: "b = (if running a = None
      then (set_core t (\<lambda>x. x\<lparr>c_state := TS_READY\<rparr>) ?a1)\<lparr>running := Some t, on_dir := d, on_ctx := Some t\<rparr> else ?a1)"
    unfolding b_def s2_def run by (simp add: sched_of_first s1(1) d_def)
  have ok2: "sched_ok b"
    using ok1 unfolding b by (auto simp: set_core_ok intro!: sched_ok_running) (simp add: a_add_def)
  have c: "thread_added t p (sint (next_tid s)) st a b" "c_mbox (core b t) = None"
    using t(1) unfolding b by (auto simp: thread_added_def a_add_def cpu_same_def)
  have n2: "next_tid s2 = next_tid s + 1" by (simp add: s2_def sched_of_first s1(2))
  obtain mb s3 where al: "alloc_mailbox (pid (pcb_at s2 p)) (tid (tcb_at s2 t)) s2 = (mb, s3)" by (meson surj_pair)
  have heap: "heaps_of (mem s2) = heaps_of (mem s)" by (simp add: s2_def s1(3) sched_of_first vmm_switch_def)
  have fresh: "\<forall>u\<in>set (threads b). mb \<noteq> None \<longrightarrow> c_mbox (core b u) \<noteq> mb"
    using alloc_mailbox_frame(3) [OF al] live c(1,2) unfolding heap thread_added_def by fastforce
  then have "sched_of s3 = b"
    using alloc_mailbox_frame(1) [OF al] no_waiters [OF ok2] by (cases mb) (auto simp: b_def)
  then have s': "sched_of s' = set_core t (\<lambda>x. x\<lparr>c_mbox := mb\<rparr>) b" "next_tid s' = next_tid s + 1"
    using f al alloc_mailbox_frame(2) [OF al] n2
    by (auto simp: finish_create_def Let_def s1_def [symmetric] s2_def [symmetric] intro!: sched_of_set_tcb)
  moreover have "sched_ok (sched_of s')" unfolding s'(1)
    by (rule a_mbox_ok [OF ok2]) (use c(1) fresh in \<open>auto simp: thread_added_def\<close>)
  moreover have "thread_added t p (sint (next_tid s)) st a (sched_of s')"
    using c(1) t(1) unfolding s'(1) by (auto simp: thread_added_def cpu_same_def)
  ultimately show ?thesis by simp
qed

text \<open>A creation that fails leaves the lists as they were.\<close>

definition untouched :: "sched \<Rightarrow> sched \<Rightarrow> bool" where
  "untouched a b \<longleftrightarrow> threads b = threads a \<and> procs b = procs a \<and> running b = running a \<and> cpu_same a b \<and>
     (\<forall>u\<in>set (threads a). core b u = core a u)"

lemma untouched_same [simp]: "untouched a a" "t \<notin> set (threads a) \<Longrightarrow> untouched a (set_core t f a)"
  by (auto simp: untouched_def cpu_same_def)

lemma set_core_outside: "sched_ok a \<Longrightarrow> t \<notin> set (threads a) \<Longrightarrow> sched_ok (set_core t f a)"
  by (subst sched_ok_cong_on [of _ a]) auto

lemma thread_create_cases:
  assumes ok: "sched_ok (sched_of s)" and live: "blocks_live s" and p: "p \<in> set (proc_head s)"
    and n: "\<forall>u\<in>set (thread_head s). tid (tcb_at s u) \<noteq> sint (next_tid s)"
    and call: "thread_create_ex_internal (Some p) pv pc param st s = (r, s')"
  shows "sched_ok (sched_of s') \<and>
    (r \<in> {E_NOMEM, E_THREAD_CREATE, E_LIMIT} \<and> untouched (sched_of s) (sched_of s') \<or>
     (\<exists>t. t \<notin> set (thread_head s) \<and> thread_added t p r st (sched_of s) (sched_of s') \<and>
       r = sint (next_tid s) \<and> next_tid s' = next_tid s + 1))"
proof -
  let ?a = "sched_of s"
  obtain x s1 where k: "kmalloc_k sizeof_tcb s = (x, s1)" by (meson surj_pair)
  note kf = alloc_frame [OF k]
  show ?thesis
  proof (cases x)
    case None
    then show ?thesis using call k kf(1) ok by (auto simp: thread_create_ex_internal_def)
  next
    case (Some t)
    have t: "t \<notin> set (thread_head s)" using kf(4) [of t] Some live by (auto simp: blocks_live_def)
    define s2 where "s2 = set_tcb t (\<lambda>_. null_tcb) s1"
    have s2: "sched_of s2 = set_core t (\<lambda>_. core_of null_tcb) ?a" "next_tid s2 = next_tid s" "mem s2 = mem s1"
      using sched_of_set_tcb [of "\<lambda>_. null_tcb" s1 t "\<lambda>_. core_of null_tcb"] kf(1,2) by (simp_all add: s2_def)
    obtain rc s3 where c: "arch_task_context_init (Some p) (Some t) pc pv s2 = (rc, s3)" by (meson surj_pair)
    note cf = context_init_frame [OF c]
    obtain l s4 where l: "lock_alloc_k s3 = (l, s4)" by (meson surj_pair)
    note lf = lock_frame [OF l]
    define s5 where "s5 = set_tcb t (\<lambda>x. x\<lparr>t_lock := l\<rparr>) s4"
    have s5: "sched_of s5 = set_core t (\<lambda>_. core_of null_tcb) ?a" "next_tid s5 = next_tid s" "mem s5 = mem s4"
      using cf(1,2) lf(1,2) s2 sched_of_set_tcb_same [of "\<lambda>x. x\<lparr>t_lock := l\<rparr>" s4 t] by (simp_all add: s5_def)
    show ?thesis
    proof (cases "rc \<noteq> 0 \<or> l = None")
      case True
      then have "sched_of s' = set_core t (\<lambda>_. core_of null_tcb) ?a \<and> r \<in> {E_NOMEM, E_THREAD_CREATE, E_LIMIT}"
        using call k Some c l cf(1) s2(1) s5(1) [unfolded s5_def] unfolding thread_create_ex_internal_def
        by (auto simp: s2_def [symmetric] split: if_splits)
      then show ?thesis using set_core_outside [OF ok] t by auto
    next
      case False
      then have res: "s' = finish_create p t param st s5" "r = tid (tcb_at s' t)"
        using call k Some c l unfolding thread_create_ex_internal_def
        by (auto simp: s2_def [symmetric] s5_def Let_def)
      have "heap_grew (mem s) (mem s5)"
        using heap_grew_trans [OF kf(3)] cf(3) lf(3) False s2(3) s5(3) heap_grew_trans by metis
      then have h: "kheap_ok (heaps_of (mem s5))" "\<forall>u\<in>set (threads ?a). set_option (c_mbox (core ?a u)) \<subseteq> klive (heaps_of (mem s5))"
        using live by (auto simp: blocks_live_def heap_grew_def)
      have "sched_ok (sched_of s') \<and> thread_added t p (sint (next_tid s)) st ?a (sched_of s') \<and> next_tid s' = next_tid s + 1"
        using finish_create_ok [OF ok h _ _ _ s5(1) res(1) [symmetric]] t p n s5(2) by simp
      moreover from this have "r = sint (next_tid s)" using res(2) by (simp add: thread_added_def)
      ultimately show ?thesis using t by blast
    qed
  qed
qed

text \<open>
  Property C11: creating a thread adds exactly that thread.  In a well-formed state whose thread blocks are in use
  in an intact kernel heap, and with a thread number that is not taken, \<^verbatim>\<open>thread_create_ex_internal\<close> for an
  existing process either fails with an error code and leaves the lists and all threads as they were, or it
  returns the number of a new thread at the head of both lists, in the requested state (the very first thread
  runs at once); every other thread is untouched, and the state is well formed again.
\<close>

theorem thread_create_correct:
  assumes ok: "sched_ok (sched_of s)" and live: "blocks_live s" and p: "p \<in> set (proc_head s)"
    and n: "\<forall>u\<in>set (thread_head s). tid (tcb_at s u) \<noteq> sint (next_tid s)"
    and call: "thread_create_ex_internal (Some p) pv pc param st s = (r, s')"
  shows "sched_ok (sched_of s') \<and>
    (r \<in> {E_NOMEM, E_THREAD_CREATE, E_LIMIT} \<and> untouched (sched_of s) (sched_of s') \<or>
     (\<exists>t. t \<notin> set (thread_head s) \<and> thread_added t p r st (sched_of s) (sched_of s') \<and>
       r = sint (next_tid s) \<and> next_tid s' = next_tid s + 1))"
  by (rule thread_create_cases [OF assms])

text \<open>A system with one process, at 0x10, and no thread yet.\<close>

definition demo_first :: "memsys \<Rightarrow> kernel" where
  "demo_first m = (boot_kernel m)\<lparr>pcb_at := (\<lambda>_. null_pcb)(0x10 := demo_pcb 1 [] 0x4000), proc_head := [0x10], next_pid := 2\<rparr>"

lemma demo_first_fields:
  "sched_ok (sched_of (demo_first m))" "proc_head (demo_first m) = [0x10]" "thread_head (demo_first m) = []"
  "next_tid (demo_first m) = 0" "mem (demo_first m) = m" "thread_run (demo_first m) = None"
  by (auto simp: sched_ok_def threads_ok_def procs_ok_def queues_ok_def mboxes_ok_def demo_first_def boot_kernel_def demo_pcb_def null_pcb_def)

lemma thread_create_correct_witness:
  "\<exists>m r s'. room 16000000 (heaps_of m) \<and> thread_create_ex_internal (Some 0x10) TASK_PRIV_KERNEL 0x1000 0 TS_PENDING (demo_first m) = (r, s') \<and>
     sched_ok (sched_of s') \<and> (r \<in> {E_NOMEM, E_THREAD_CREATE, E_LIMIT} \<and> untouched (sched_of (demo_first m)) (sched_of s') \<or>
       (\<exists>t. thread_added t 0x10 r TS_PENDING (sched_of (demo_first m)) (sched_of s') \<and> r = 0 \<and> next_tid s' = 1))"
proof -
  obtain m :: memsys where m: "room 16000000 (heaps_of m)" using ex_memsys by blast
  let ?s = "demo_first m"
  obtain r s' where c: "thread_create_ex_internal (Some 0x10) TASK_PRIV_KERNEL 0x1000 0 TS_PENDING ?s = (r, s')" by (meson surj_pair)
  have "blocks_live ?s" using room_ok [OF m] by (simp add: blocks_live_def demo_first_fields)
  with thread_create_correct [OF demo_first_fields(1) this _ _ c] m c show ?thesis
    by (simp add: demo_first_fields) blast
qed

lemma pending_cong_run:
  assumes "pending_ok a" "running b = running a" "cpu_same a b" "\<forall>c. running a = Some c \<longrightarrow> c_parent (core b c) = c_parent (core a c)"
  shows "pending_ok b"
  using assms by (cases "goal_dir a"; cases "goal_ctx a") (auto simp: pending_ok_def committed_def a_commit_def cpu_same_def)

section \<open>Killing a thread that waits\<close>

text \<open>
  Property C39: killing a thread that waits on a semaphore loses a unit.  Deleting the only waiter takes it off
  the wait queue but leaves the value it had decremented, so the value no longer counts the waiters; the next
  signal raises the value to 0, takes the semaphore for one that has a waiter, and wakes nobody.  The unit
  is gone: the value is 0, and the next thread to wait will sleep.
\<close>

theorem semaphore_kill_loses_unit:
  assumes ok: "sched_ok (sched_of s)" and get: "semaphore_get n s = Some p" and sem: "sem_ok (sched_of s) p"
    and t: "waiters (wq_at s (Sem_wq p)) = [t]" and run: "thread_run s = Some c" "c \<noteq> t"
    and k: "k = thread_delete_internal (tid (tcb_at s t)) s" and g: "g = snd (semaphore_signal n k)"
  shows "sem_value (sem_at k p) = - 1 \<and> waiters (wq_at k (Sem_wq p)) = [] \<and> \<not> sem_ok (sched_of k) p \<and>
    sem_value (sem_at g p) = 0 \<and> waiters (wq_at g (Sem_wq p)) = [] \<and> tcb_at g = tcb_at k"
proof -
  have m: "t \<in> set (threads (sched_of s))" "c_wait (core (sched_of s) t) = Some (Sem_wq p)"
    using queue_mem(1) [OF ok, of t "Sem_wq p"] t by simp_all
  have "by_tid (tid (tcb_at s t)) (sched_of s) = Some t" using by_tid_of [OF ok m(1)] by simp
  then have "a_delete (tid (tcb_at s t)) (sched_of s) = a_unlink t (sched_of s)"
    using run by (simp add: a_delete_def)
  then have sk: "sched_of k = a_unlink t (sched_of s)" using sched_of_delete [OF ok] k by simp
  have u: "sems (a_unlink t a) = sems a" "sem_list (a_unlink t a) = sem_list a"
    "c_wait (core a t) = Some q \<Longrightarrow> queue (a_unlink t a) q = list_remove t (queue a q)" for a q
    by (auto simp: a_unlink_def a_detach_def Let_def split: option.splits)
  have f: "sem_at k = sem_at s" "semaphore_head k = semaphore_head s" "waiters (wq_at k (Sem_wq p)) = []"
    using arg_cong [OF sk, of sems] arg_cong [OF sk, of sem_list] arg_cong [OF sk, of "\<lambda>a. queue a (Sem_wq p)"] m(2) t
    by (simp_all add: u list_remove_def)
  have v: "sem_value (sem_at s p) = - 1" using sem t by (simp add: sem_ok_def max_def split: if_splits)
  have "semaphore_get n k = Some p" using get f(1,2) by (simp add: semaphore_get_def)
  moreover have "c_int 0 = 0" by (simp add: c_int_id)
  ultimately have "g = set_sem p (\<lambda>x. x\<lparr>sem_value := 0\<rparr>) k"
    using g v f by (simp add: semaphore_signal_def Let_def wait_queue_wake_one_def set_sem_def)
  then show ?thesis using f v by (simp add: sem_ok_def set_sem_def)
qed

text \<open>The example system with thread 1 asleep on the semaphore.\<close>

definition demo_asleep :: "memsys \<Rightarrow> kernel" where
  "demo_asleep m = (set_tcb 0x200 (\<lambda>x. x\<lparr>t_state := TS_PENDING, waiting_on := Some (Sem_wq 0x900)\<rparr>)
     (set_wq (Sem_wq 0x900) (\<lambda>q. q\<lparr>waiters := [0x200]\<rparr>) (demo_sem m)))\<lparr>sem_at := (\<lambda>_. \<lparr>sem_id = 7, sem_value = - 1\<rparr>)\<rparr>"

lemma demo_asleep_ok:
  "sched_ok (sched_of (demo_asleep m))" "semaphore_get 7 (demo_asleep m) = Some 0x900" "sem_ok (sched_of (demo_asleep m)) 0x900"
  "waiters (wq_at (demo_asleep m) (Sem_wq 0x900)) = [0x200]" "thread_run (demo_asleep m) = Some 0x100" "tid (tcb_at (demo_asleep m) 0x200) = 1"
  by (auto simp: sched_ok_def threads_ok_def procs_ok_def queues_ok_def mboxes_ok_def demo_asleep_def demo_sem_def demo_def boot_kernel_def
      demo_tcb_def demo_pcb_def null_tcb_def null_pcb_def inj_on_def semaphore_get_def sem_ok_def)

lemma semaphore_kill_loses_unit_witness:
  "\<forall>m. let g = snd (semaphore_signal 7 (thread_delete_internal 1 (demo_asleep m)))
     in sem_value (sem_at g 0x900) = 0 \<and> waiters (wq_at g (Sem_wq 0x900)) = []"
proof
  fix m
  have d: "(0x100 :: ptr) \<noteq> 0x200" by simp
  show "let g = snd (semaphore_signal 7 (thread_delete_internal 1 (demo_asleep m)))
     in sem_value (sem_at g 0x900) = 0 \<and> waiters (wq_at g (Sem_wq 0x900)) = []"
    using semaphore_kill_loses_unit [OF demo_asleep_ok(1-5) d refl refl] by (simp add: demo_asleep_ok(6) Let_def)
qed

end
