(* ===== verification/Elf.thy ===== *)
theory Elf
  imports Process
begin

text \<open>
  The ELF loader (\<^verbatim>\<open>kernel/lib/elf.c\<close>) and the process system call that reaches it (\<^verbatim>\<open>kernel/process.c\<close>).
  An image is the function from offsets to bytes that memory holds from the start of the image on, and
  its size: an offset past the size reads what lies behind the image, as in C.
\<close>

section \<open>Headers\<close>

definition le16 :: "mem \<Rightarrow> u32 \<Rightarrow> u16" where
  "le16 img i = ucast (img i) OR push_bit 8 (ucast (img (i + 1)))"

definition le32 :: "mem \<Rightarrow> u32 \<Rightarrow> u32" where
  "le32 img i = ucast (img i) OR push_bit 8 (ucast (img (i + 1))) OR
     push_bit 16 (ucast (img (i + 2))) OR push_bit 24 (ucast (img (i + 3)))"

record elf32_ehdr =
  ident :: "u8 list"
  e_type :: u16
  e_machine :: u16
  e_entry :: u32
  e_phoff :: u32
  e_phentsize :: u16
  e_phnum :: u16

record elf32_phdr =
  p_type :: u32
  p_offset :: u32
  p_vaddr :: u32
  p_filesz :: u32
  p_memsz :: u32

definition sizeof_ehdr :: u32 where "sizeof_ehdr = 52"
definition sizeof_phdr :: u32 where "sizeof_phdr = 32"
definition ELF_ET_EXEC :: u16 where "ELF_ET_EXEC = 2"
definition ELF_EM_386 :: u16 where "ELF_EM_386 = 3"
definition ELF_PT_LOAD :: u32 where "ELF_PT_LOAD = 1"

definition ehdr :: "mem \<Rightarrow> elf32_ehdr" where
  "ehdr img = \<lparr>ident = map (\<lambda>i. img (of_nat i)) [0..<16], e_type = le16 img 16, e_machine = le16 img 18,
     e_entry = le32 img 24, e_phoff = le32 img 28, e_phentsize = le16 img 42, e_phnum = le16 img 44\<rparr>"

definition phdr :: "mem \<Rightarrow> nat \<Rightarrow> elf32_phdr" where
  "phdr img i = (let o' = e_phoff (ehdr img) + of_nat i * sizeof_phdr in
     \<lparr>p_type = le32 img o', p_offset = le32 img (o' + 4), p_vaddr = le32 img (o' + 8),
      p_filesz = le32 img (o' + 16), p_memsz = le32 img (o' + 20)\<rparr>)"

definition elf_validate :: "elf32_ehdr \<Rightarrow> u32 \<Rightarrow> int" where
  "elf_validate h image_size =
     (if image_size < sizeof_ehdr then E_INVAL
      else if ident h ! 0 \<noteq> 0x7F \<or> ident h ! 1 \<noteq> 0x45 \<or> ident h ! 2 \<noteq> 0x4C \<or> ident h ! 3 \<noteq> 0x46 then E_INVAL
      else if ident h ! 4 \<noteq> 1 \<or> ident h ! 5 \<noteq> 1 then E_INVAL
      else if e_type h \<noteq> ELF_ET_EXEC \<or> e_machine h \<noteq> ELF_EM_386 then E_INVAL
      else if ucast (e_phentsize h) \<noteq> sizeof_phdr then E_INVAL
      else if e_phnum h = 0 \<or> e_phnum h > 64 then E_INVAL
      else if e_phoff h + ucast (e_phnum h) * sizeof_phdr > image_size then E_INVAL
      else if e_entry h \<ge> USER_SPACE_TOP then E_INVAL
      else 0)"

section \<open>Loading\<close>

definition copy_in :: "u32 \<Rightarrow> mem \<Rightarrow> u32 \<Rightarrow> u32 \<Rightarrow> kernel \<Rightarrow> kernel" where
  "copy_in dst img src n s =
     s\<lparr>mem := upd_pmm (\<lambda>q. q\<lparr>pmem := fold (\<lambda>i m. m(dst + of_nat i := img (src + of_nat i))) [0..<unat n] (pmem q)\<rparr>) (mem s)\<rparr>"

definition clear_in :: "u32 \<Rightarrow> u32 \<Rightarrow> kernel \<Rightarrow> kernel" where
  "clear_in dst n s = s\<lparr>mem := upd_pmm (\<lambda>q. q\<lparr>pmem := memset (pmem q) dst 0 n\<rparr>) (mem s)\<rparr>"

definition pmm_free_k :: "u32 \<Rightarrow> u32 \<Rightarrow> kernel \<Rightarrow> kernel" where
  "pmm_free_k pa n s = s\<lparr>mem := upd_pmm (pmm_free_pages pa n) (mem s)\<rparr>"

definition grant_k :: "ptr \<Rightarrow> capability \<Rightarrow> kernel \<Rightarrow> int \<times> kernel" where
  "grant_k p c s =
     (let (r, co, h) = cap_grant (Some (caps (space (pcb_at s p)))) (cap_kind c) (Some c) (heaps_of (mem s))
      in (r, set_caps p co h s))"

definition revoke_k :: "ptr \<Rightarrow> capability \<Rightarrow> kernel \<Rightarrow> int \<times> kernel" where
  "revoke_k p c s =
     (let (r, co, h) = cap_revoke (Some (caps (space (pcb_at s p)))) (cap_kind c) (Some c) (heaps_of (mem s))
      in (r, set_caps p co h s))"

definition put_space :: "ptr \<Rightarrow> vproc option \<Rightarrow> memsys \<Rightarrow> kernel \<Rightarrow> kernel" where
  "put_space p vo m s = (set_pcb p (\<lambda>q. q\<lparr>space := the vo\<rparr>) s)\<lparr>mem := m\<rparr>"

definition map_fixed_k :: "ptr \<Rightarrow> u32 \<Rightarrow> u32 \<Rightarrow> u32 \<Rightarrow> u32 \<Rightarrow> bool \<Rightarrow> kernel \<Rightarrow> int \<times> kernel" where
  "map_fixed_k p pa va n flags own s =
     (let (r, vo, m) = vmm_map_fixed (Some (space (pcb_at s p))) pa va n flags own (mem s)
      in (r, put_space p vo m s))"

definition load_segment :: "ptr \<Rightarrow> mem \<Rightarrow> u32 \<Rightarrow> elf32_phdr \<Rightarrow> bool \<times> kernel \<Rightarrow> (bool \<times> kernel) + (int \<times> kernel)" where
  "load_segment p img image_size ph = (\<lambda>(loaded, s).
     if p_type ph \<noteq> ELF_PT_LOAD then Inl (loaded, s)
     else let filesz = p_filesz ph; memsz = p_memsz ph; vaddr = p_vaddr ph in
     if memsz = 0 then Inl (loaded, s)
     else if memsz < filesz then Inr (E_INVAL, s)
     else if vaddr + memsz < vaddr \<or> vaddr + memsz > USER_SPACE_TOP then Inr (E_INVAL, s)
     else if p_offset ph + filesz > image_size then Inr (E_INVAL, s)
     else let page_base = vaddr AND NOT (4096 - 1);
              offset = vaddr - page_base;
              npages = (memsz + offset + 4096 - 1) div 4096;
              (pa, pm) = pmm_alloc_pages npages (pmm_of (mem s));
              s = s\<lparr>mem := (mem s)\<lparr>pmm_of := pm\<rparr>\<rparr> in
     if pa = 0 then Inr (E_NOMEM, s)
     else let s = copy_in (pa + offset) img (p_offset ph) filesz s;
              s = clear_in (pa + offset + filesz) (memsz - filesz) s;
              cmem = Mem \<lparr>mbase = pa, msize = npages * 4096, mflags = PTE_USER_PAGE\<rparr>;
              (r, s) = grant_k p cmem s in
     if r \<noteq> 0 then Inr (E_PERM, pmm_free_k pa npages s)
     else let (r, s) = map_fixed_k p pa page_base (npages * 4096) PTE_USER_PAGE True s in
     if r \<noteq> 0 then Inr (E_LIMIT, pmm_free_k pa npages (snd (revoke_k p cmem s)))
     else Inl (True, s))"

definition elf_load :: "ptr option \<Rightarrow> mem \<Rightarrow> u32 \<Rightarrow> kernel \<Rightarrow> (int + u32) \<times> kernel" where
  "elf_load po img image_size s =
     (case po of
        None \<Rightarrow> (Inl E_INVAL, s)
      | Some p \<Rightarrow>
          if image_size < sizeof_ehdr then (Inl E_INVAL, s)
          else case for_brk [0..<unat (e_phnum (ehdr img))] (\<lambda>i. load_segment p img image_size (phdr img i)) (False, s) of
                 Inr (e, s) \<Rightarrow> (Inl e, s)
               | Inl (loaded, s) \<Rightarrow> if \<not> loaded then (Inl E_INVAL, s) else (Inr (e_entry (ehdr img)), s))"

section \<open>Starting a program\<close>

text \<open>
  \<open>img\<close> is what memory holds from \<^verbatim>\<open>elf_start\<close> on in the caller's address space; the copy in the
  kernel heap has the same bytes.  \<open>None\<close> is an exit that halts.
\<close>

definition proc_load_from_elf_internal :: "mem \<Rightarrow> ptr \<Rightarrow> ptr \<Rightarrow> ptr \<Rightarrow> kernel \<Rightarrow> (int \<times> kernel) option" where
  "proc_load_from_elf_internal img elf_start elf_end param s =
     (if elf_start = 0 \<or> elf_end \<le> elf_start then Some (E_INVAL, s)
      else let image_size = elf_end - elf_start in
      if image_size < sizeof_ehdr then Some (E_INVAL, s)
      else case kmalloc_k image_size s of
        (None, s) \<Rightarrow> Some (E_NOMEM, s)
      | (Some buf, s) \<Rightarrow>
          let trusted = (case get_current_process s of None \<Rightarrow> False | Some c \<Rightarrow> priv (pcb_at s c) = PROC_PRIV_KERNEL) in
          if \<not> trusted \<and> \<not> arch_validate_user_range (paging_of (mem s)) elf_start image_size False
          then Some (E_FAULT, kfree_k buf s)
          else let ret = elf_validate (ehdr img) image_size in
          if ret \<noteq> 0 then Some (ret, kfree_k buf s)
          else if e_entry (ehdr img) \<ge> USER_SPACE_TOP then Some (E_INVAL, kfree_k buf s)
          else let (n, s) = proc_create_internal PROC_PRIV_USER (e_entry (ehdr img)) param s in
          if n < 0 then Some (n, kfree_k buf s)
          else case get_process_by_pid n s of
            None \<Rightarrow> Option.bind (proc_exit_internal n (kfree_k buf s)) (\<lambda>s. Some (E_NOTFOUND, s))
          | Some p \<Rightarrow>
              let (r, s) = elf_load (Some p) img image_size s; s = kfree_k buf s in
              case r of
                Inl e \<Rightarrow> Option.bind (proc_exit_internal n s) (\<lambda>s. Some (e, s))
              | Inr _ \<Rightarrow> Some (n, s))"

section \<open>The process system call\<close>

record proc_thread_ctrl_config =
  pc_cmd :: u8
  pc_pid :: int
  pc_tid :: int
  pc_priv :: u32
  pc_entry :: u32
  pc_elf_start :: ptr
  pc_elf_end :: ptr
  pc_param :: ptr

definition THREAD_CTRL_CREATE :: u8 where "THREAD_CTRL_CREATE = 0"
definition THREAD_CTRL_DELETE :: u8 where "THREAD_CTRL_DELETE = 1"
definition THREAD_CTRL_YIELD :: u8 where "THREAD_CTRL_YIELD = 2"
definition THREAD_CTRL_BLOCK :: u8 where "THREAD_CTRL_BLOCK = 3"
definition THREAD_CTRL_UNBLOCK :: u8 where "THREAD_CTRL_UNBLOCK = 4"
definition PROC_CTRL_CREATE :: u8 where "PROC_CTRL_CREATE = 5"
definition PROC_CTRL_LOAD_FROM_ELF :: u8 where "PROC_CTRL_LOAD_FROM_ELF = 6"
definition PROC_CTRL_EXIT :: u8 where "PROC_CTRL_EXIT = 7"
definition PROC_CTRL_BLOCK :: u8 where "PROC_CTRL_BLOCK = 8"
definition PROC_CTRL_UNBLOCK :: u8 where "PROC_CTRL_UNBLOCK = 9"
definition PROC_CTRL_GET_PID :: u8 where "PROC_CTRL_GET_PID = 10"
definition THREAD_CTRL_GET_TID :: u8 where "THREAD_CTRL_GET_TID = 11"

definition proc_syscall_exec :: "mem \<Rightarrow> proc_thread_ctrl_config \<Rightarrow> kernel \<Rightarrow> (proc_thread_ctrl_config \<times> kernel) option" where
  "proc_syscall_exec img c s =
     (if pc_cmd c = THREAD_CTRL_CREATE then
        Some (case thread_run s of
                None \<Rightarrow> (c\<lparr>pc_tid := E_INVAL\<rparr>, s)
              | Some cur \<Rightarrow> let (r, s) = t_create (Some (parent (tcb_at s cur))) (pc_priv c) (pc_entry c) (pc_param c) s
                            in (c\<lparr>pc_tid := r\<rparr>, s))
      else if pc_cmd c = THREAD_CTRL_DELETE then Some (c, thread_delete_internal (pc_tid c) s)
      else if pc_cmd c = THREAD_CTRL_YIELD then Some (c, thread_yield_internal s)
      else if pc_cmd c = THREAD_CTRL_BLOCK then Some (c, thread_block_internal (pc_tid c) s)
      else if pc_cmd c = THREAD_CTRL_UNBLOCK then Some (c, thread_unblock_internal (pc_tid c) s)
      else if pc_cmd c = PROC_CTRL_CREATE then
        Some (let (r, s) = proc_create_internal (pc_priv c) (pc_entry c) (pc_param c) s in (c\<lparr>pc_pid := r\<rparr>, s))
      else if pc_cmd c = PROC_CTRL_LOAD_FROM_ELF then
        map_option (\<lambda>(r, s). (c\<lparr>pc_pid := r\<rparr>, s))
          (proc_load_from_elf_internal img (pc_elf_start c) (pc_elf_end c) (pc_param c) s)
      else if pc_cmd c = PROC_CTRL_EXIT then map_option (\<lambda>s. (c, s)) (proc_exit_internal (pc_pid c) s)
      else if pc_cmd c = PROC_CTRL_BLOCK then Some (c, proc_block_internal (pc_pid c) s)
      else if pc_cmd c = PROC_CTRL_UNBLOCK then Some (c, proc_unblock_internal (pc_pid c) s)
      else if pc_cmd c = PROC_CTRL_GET_PID then Some (c\<lparr>pc_pid := proc_get_pid s\<rparr>, s)
      else if pc_cmd c = THREAD_CTRL_GET_TID then Some (c\<lparr>pc_tid := thread_get_tid s\<rparr>, s)
      else Some (c, s))"

text \<open>The gate of the system call; the result is the return value, the configuration and the state.\<close>

definition proc_syscall_isr :: "mem \<Rightarrow> proc_thread_ctrl_config \<Rightarrow> kernel \<Rightarrow> (int \<times> proc_thread_ctrl_config \<times> kernel) option" where
  "proc_syscall_isr img c s =
     (let lacks = (\<lambda>type a. case get_current_process s of
                      None \<Rightarrow> False
                    | Some p \<Rightarrow> priv (pcb_at s p) \<noteq> PROC_PRIV_KERNEL \<and>
                                cap_check (Some (caps (space (pcb_at s p)))) type (Some a) \<noteq> 0) in
      if pc_cmd c = THREAD_CTRL_CREATE \<and> pc_priv c = TASK_PRIV_KERNEL \<and>
         lacks CAP_CREATE_KRNL_THREAD (Issue_thread_create 1) then Some (E_PERM, c, s)
      else if pc_cmd c = PROC_CTRL_CREATE \<and> pc_priv c = PROC_PRIV_KERNEL \<and>
         lacks CAP_CREATE_KRNL_PROC (Issue_proc_create 1) then Some (E_PERM, c, s)
      else map_option (\<lambda>(c, s). (0, c, s)) (proc_syscall_exec img c s))"

end
