(* ===== verification/Portal.thy ===== *)
theory Portal
  imports Elf
begin

text \<open>
  Shared memory (\<^verbatim>\<open>kernel/ipc/shm.c\<close>) and portals (\<^verbatim>\<open>kernel/ipc/portal.c\<close>), the remote procedure calls built on
  it: a client shares its buffer with the server, queues a request and waits for the reply on the
  semaphore of the request.
\<close>

section \<open>Shared memory\<close>

definition ipc_denied :: "ptr \<Rightarrow> kernel \<Rightarrow> bool" where
  "ipc_denied p s \<longleftrightarrow> priv (pcb_at s p) \<noteq> PROC_PRIV_KERNEL \<and>
     cap_check (Some (caps (space (pcb_at s p)))) CAP_IPC (Some (Issue_ipc 1)) \<noteq> 0"

definition shm_share :: "int \<Rightarrow> u32 \<Rightarrow> u32 \<Rightarrow> u32 \<Rightarrow> kernel \<Rightarrow> int \<times> u32 \<times> kernel" where
  "shm_share n va size' out s =
     (case (get_current_process s, get_process_by_pid n s) of
        (Some me, Some target) \<Rightarrow>
          if size' = 0 then (E_INVAL, out, s)
          else if ipc_denied me s then (E_PERM, out, s)
          else let pa = vmm_va_to_pa (Some (space (pcb_at s me))) va in
          if pa = 0 then (E_INVAL, out, s)
          else let aligned_pa = pa AND NOT (4096 - 1);
                   aligned_pa_size = (size' + (pa - aligned_pa) + (4096 - 1)) AND NOT (4096 - 1) in
          (case vmm_lookup_region (Some (space (pcb_at s me))) va of
             Inl e \<Rightarrow> (E_INVAL, out, s)
           | Inr (src_pa, src_size, _) \<Rightarrow>
               if aligned_pa < src_pa \<or> aligned_pa_size > src_size - (aligned_pa - src_pa) then (E_INVAL, out, s)
               else let cmem = Mem \<lparr>mbase = aligned_pa, msize = aligned_pa_size, mflags = PTE_USER_PAGE\<rparr>;
                        (ret, s) = grant_k target cmem s in
               if ret \<noteq> 0 then (ret, out, s)
               else case vmm_map_memory (Some (space (pcb_at s target))) pa size' PTE_USER_PAGE (mem s) of
                      (Inl e, vo, m) \<Rightarrow> (E_LIMIT, out, snd (revoke_k target cmem (put_space target vo m s)))
                    | (Inr target_va, vo, m) \<Rightarrow> (0, target_va, put_space target vo m s))
      | _ \<Rightarrow> (E_NOTFOUND, out, s))"

definition shm_unshare :: "int \<Rightarrow> u32 \<Rightarrow> kernel \<Rightarrow> int \<times> kernel" where
  "shm_unshare n va s =
     (case (get_current_process s, get_process_by_pid n s) of
        (Some me, Some target) \<Rightarrow>
          if ipc_denied me s then (E_PERM, s)
          else (case vmm_lookup_region (Some (space (pcb_at s target))) va of
                  Inl e \<Rightarrow> (E_NOTFOUND, s)
                | Inr (pa, pa_size, region_va) \<Rightarrow>
                    let (r, vo, m) = vmm_unmap_memory (Some (space (pcb_at s target))) region_va pa_size (mem s);
                        s = put_space target vo m s in
                    if r \<noteq> 0 then (E_LIMIT, s)
                    else revoke_k target (Mem \<lparr>mbase = pa, msize = pa_size, mflags = PTE_USER_PAGE\<rparr>) s)
      | _ \<Rightarrow> (E_NOTFOUND, s))"

section \<open>Portals\<close>

record portal_ctrl_config =
  po_cmd :: u32
  po_client :: u32
  po_server :: u32
  po_va :: u32
  po_va_size :: u32
  po_req :: "ptr option"
  po_out :: u32
  po_ret :: int

definition PORTAL_CTRL_INIT :: u32 where "PORTAL_CTRL_INIT = 0"
definition PORTAL_CTRL_DESTROY :: u32 where "PORTAL_CTRL_DESTROY = 1"
definition PORTAL_CTRL_CALL :: u32 where "PORTAL_CTRL_CALL = 2"
definition PORTAL_CTRL_WAIT_REPLY :: u32 where "PORTAL_CTRL_WAIT_REPLY = 3"
definition PORTAL_CTRL_GET_RESULT :: u32 where "PORTAL_CTRL_GET_RESULT = 4"
definition PORTAL_CTRL_CLEANUP :: u32 where "PORTAL_CTRL_CLEANUP = 5"
definition PORTAL_CTRL_WAIT :: u32 where "PORTAL_CTRL_WAIT = 6"
definition PORTAL_CTRL_GET_REQ :: u32 where "PORTAL_CTRL_GET_REQ = 7"
definition PORTAL_CTRL_REPLY :: u32 where "PORTAL_CTRL_REPLY = 8"

definition set_portal :: "ptr \<Rightarrow> (portal \<Rightarrow> portal) \<Rightarrow> kernel \<Rightarrow> kernel" where
  "set_portal p f s = s\<lparr>portal_at := (portal_at s)(p := f (portal_at s p))\<rparr>"

definition set_req :: "ptr \<Rightarrow> (portal_req \<Rightarrow> portal_req) \<Rightarrow> kernel \<Rightarrow> kernel" where
  "set_req r f s = s\<lparr>req_at := (req_at s)(r := f (req_at s r))\<rparr>"

definition portal_get_by_id :: "u32 \<Rightarrow> kernel \<Rightarrow> ptr option" where
  "portal_get_by_id n s = find (\<lambda>p. po_id (portal_at s p) = n) (portal_header s)"

definition portal_get_by_tid :: "u32 \<Rightarrow> kernel \<Rightarrow> ptr option" where
  "portal_get_by_tid n s = find (\<lambda>p. (of_int (po_tid (portal_at s p)) :: u32) = n) (portal_header s)"

definition sem_id_of :: "ptr option \<Rightarrow> kernel \<Rightarrow> int" where
  "sem_id_of so s = sem_id (sem_at s (the so))"

definition exec_init :: "portal_ctrl_config \<Rightarrow> kernel \<Rightarrow> int \<times> portal_ctrl_config \<times> kernel" where
  "exec_init c s =
     (case kmalloc_k sizeof_portal s of
        (None, s) \<Rightarrow> (E_NOMEM, c, s)
      | (Some p, s) \<Rightarrow>
          if po_server c \<noteq> 0 \<and> portal_get_by_id (po_server c) s \<noteq> None then (E_EXISTS, c, kfree_k p s)
          else let n = (if po_server c \<noteq> 0 then po_server c else portal_next_id s);
                   s = set_portal p (\<lambda>_. \<lparr>po_id = n, po_pid = proc_get_pid s, po_tid = thread_get_tid s,
                          po_reqs = [], req_sem = None\<rparr>) s;
                   s = (if n \<ge> portal_next_id s then s\<lparr>portal_next_id := n + 1\<rparr> else s);
                   (so, s) = semaphore_create 0 s;
                   s = set_portal p (\<lambda>x. x\<lparr>req_sem := so\<rparr>) s in
          if so = None then (E_NOMEM, c, kfree_k p s)
          else (0, c\<lparr>po_out := n\<rparr>, s\<lparr>portal_header := p # portal_header s\<rparr>))"

definition exec_destroy :: "portal_ctrl_config \<Rightarrow> kernel \<Rightarrow> int \<times> portal_ctrl_config \<times> kernel" where
  "exec_destroy c s =
     (case portal_get_by_id (po_server c) s of
        None \<Rightarrow> (E_NOTFOUND, c, s)
      | Some p \<Rightarrow>
          if semaphore_has_waiters (req_sem (portal_at s p)) s then (E_BUSY, c, s)
          else if list_ex (\<lambda>r. semaphore_has_waiters (done_sem (req_at s r)) s) (po_reqs (portal_at s p)) then (E_BUSY, c, s)
          else let s = fold (\<lambda>r s. kfree_k r (if done_sem (req_at s r) \<noteq> None
                                              then snd (semaphore_destroy (done_sem (req_at s r)) s) else s))
                         (po_reqs (portal_at s p)) s;
                   s = set_portal p (\<lambda>x. x\<lparr>po_reqs := []\<rparr>) s;
                   s = s\<lparr>portal_header := list_remove p (portal_header s)\<rparr>;
                   s = (if req_sem (portal_at s p) \<noteq> None then snd (semaphore_destroy (req_sem (portal_at s p)) s) else s)
               in (0, c, kfree_k p s))"

definition exec_call :: "portal_ctrl_config \<Rightarrow> kernel \<Rightarrow> int \<times> portal_ctrl_config \<times> kernel" where
  "exec_call c s =
     (case portal_get_by_id (po_server c) s of
        None \<Rightarrow> (E_NOTFOUND, c, s)
      | Some p \<Rightarrow>
          let server = po_pid (portal_at s p);
              (ret, out, s) = shm_share server (po_va c) (po_va_size c) (po_out c) s;
              c = c\<lparr>po_out := out\<rparr> in
          if ret \<noteq> 0 then (ret, c, s)
          else case kmalloc_k sizeof_portal_req s of
            (None, s) \<Rightarrow> (E_NOMEM, c, snd (shm_unshare server out s))
          | (Some r, s) \<Rightarrow>
              let s = set_req r (\<lambda>_. \<lparr>client_id = of_int (thread_get_tid s), server_pid = server, shm_va = out,
                        shm_size = po_va_size c, dequeued = False, done_sem = None, resp_ret = 0\<rparr>) s;
                  (so, s) = semaphore_create 0 s;
                  s = set_req r (\<lambda>x. x\<lparr>done_sem := so\<rparr>) s in
              if so = None then (E_NOMEM, c, kfree_k r (snd (shm_unshare server out s)))
              else let s = set_portal p (\<lambda>x. x\<lparr>po_reqs := r # po_reqs x\<rparr>) s;
                       s = snd (semaphore_signal (sem_id_of (req_sem (portal_at s p)) s) s)
                   in (0, c\<lparr>po_req := Some r\<rparr>, s))"

definition exec_cleanup :: "portal_ctrl_config \<Rightarrow> kernel \<Rightarrow> int \<times> portal_ctrl_config \<times> kernel" where
  "exec_cleanup c s =
     (case po_req c of
        None \<Rightarrow> (E_INVAL, c, s)
      | Some r \<Rightarrow>
          let (ret, s) = (if shm_va (req_at s r) \<noteq> 0 then shm_unshare (server_pid (req_at s r)) (shm_va (req_at s r)) s
                          else (0, s));
              s = (if \<not> dequeued (req_at s r)
                   then s\<lparr>portal_at := (\<lambda>p. (portal_at s p)\<lparr>po_reqs := list_remove r (po_reqs (portal_at s p))\<rparr>)\<rparr>
                   else s);
              s = (if done_sem (req_at s r) \<noteq> None then snd (semaphore_destroy (done_sem (req_at s r)) s) else s)
          in (ret, c, kfree_k r s))"

definition exec_get_req :: "portal_ctrl_config \<Rightarrow> kernel \<Rightarrow> int \<times> portal_ctrl_config \<times> kernel" where
  "exec_get_req c s =
     (case portal_get_by_tid (of_int (thread_get_tid s)) s of
        None \<Rightarrow> (E_NOTFOUND, c, s)
      | Some p \<Rightarrow> case po_reqs (portal_at s p) of
          [] \<Rightarrow> (0, c\<lparr>po_req := None\<rparr>, s)
        | r # _ \<Rightarrow>
            let s = set_portal p (\<lambda>x. x\<lparr>po_reqs := list_remove r (po_reqs x)\<rparr>) s;
                s = set_req r (\<lambda>x. x\<lparr>dequeued := True\<rparr>) s
            in (0, c\<lparr>po_req := Some r, po_va := shm_va (req_at s r), po_va_size := shm_size (req_at s r)\<rparr>, s))"

definition exec_wait_reply :: "portal_ctrl_config \<Rightarrow> kernel \<Rightarrow> int \<times> portal_ctrl_config \<times> kernel" where
  "exec_wait_reply c s =
     (case po_req c of
        None \<Rightarrow> (E_INVAL, c, s)
      | Some r \<Rightarrow> if done_sem (req_at s r) = None then (E_INVAL, c, s)
                 else (0, c, snd (semaphore_wait (sem_id_of (done_sem (req_at s r)) s) s)))"

definition exec_reply :: "portal_ctrl_config \<Rightarrow> kernel \<Rightarrow> int \<times> portal_ctrl_config \<times> kernel" where
  "exec_reply c s =
     (case po_req c of
        None \<Rightarrow> (E_INVAL, c, s)
      | Some r \<Rightarrow> if done_sem (req_at s r) = None then (E_INVAL, c, s)
                 else let s = set_req r (\<lambda>x. x\<lparr>resp_ret := po_ret c\<rparr>) s
                      in (0, c, snd (semaphore_signal (sem_id_of (done_sem (req_at s r)) s) s)))"

definition portal_exec :: "portal_ctrl_config \<Rightarrow> kernel \<Rightarrow> int \<times> portal_ctrl_config \<times> kernel" where
  "portal_exec c s =
     (if po_cmd c = PORTAL_CTRL_INIT then exec_init c s
      else if po_cmd c = PORTAL_CTRL_DESTROY then exec_destroy c s
      else if po_cmd c = PORTAL_CTRL_CALL then exec_call c s
      else if po_cmd c = PORTAL_CTRL_WAIT_REPLY then exec_wait_reply c s
      else if po_cmd c = PORTAL_CTRL_GET_RESULT then
        case po_req c of None \<Rightarrow> (E_INVAL, c, s) | Some r \<Rightarrow> (0, c\<lparr>po_ret := resp_ret (req_at s r)\<rparr>, s)
      else if po_cmd c = PORTAL_CTRL_CLEANUP then exec_cleanup c s
      else if po_cmd c = PORTAL_CTRL_WAIT then
        case portal_get_by_tid (of_int (thread_get_tid s)) s of
          None \<Rightarrow> (E_NOTFOUND, c, s)
        | Some p \<Rightarrow> (0, c, snd (semaphore_wait (sem_id_of (req_sem (portal_at s p)) s) s))
      else if po_cmd c = PORTAL_CTRL_GET_REQ then exec_get_req c s
      else if po_cmd c = PORTAL_CTRL_REPLY then exec_reply c s
      else (E_INVAL, c, s))"

definition portal_syscall_isr :: "portal_ctrl_config \<Rightarrow> kernel \<Rightarrow> int \<times> portal_ctrl_config \<times> kernel" where
  "portal_syscall_isr c s =
     (case get_current_process s of
        None \<Rightarrow> portal_exec c s
      | Some p \<Rightarrow> if ipc_denied p s then (E_PERM, c\<lparr>po_ret := E_PERM\<rparr>, s) else portal_exec c s)"

end
