(* ===== verification/Devio.thy ===== *)
theory Devio
  imports Elf
begin

text \<open>
  Device access for user processes: port I/O (\<^verbatim>\<open>kernel/io.c\<close>) and memory-mapped windows (\<^verbatim>\<open>kernel/mmio.c\<close>).
  What a port answers is a parameter; the writes are recorded in the order they are made.
\<close>

section \<open>Port I/O\<close>

record io_syscall_data =
  io_cmd :: u8
  io_port :: u16
  io_value :: u32
  io_ret :: int

definition IO_CTRL_IN8 :: u8 where "IO_CTRL_IN8 = 0"
definition IO_CTRL_IN16 :: u8 where "IO_CTRL_IN16 = 1"
definition IO_CTRL_IN32 :: u8 where "IO_CTRL_IN32 = 2"
definition IO_CTRL_OUT8 :: u8 where "IO_CTRL_OUT8 = 3"
definition IO_CTRL_OUT16 :: u8 where "IO_CTRL_OUT16 = 4"
definition IO_CTRL_OUT32 :: u8 where "IO_CTRL_OUT32 = 5"

text \<open>An access is its direction, its first port, its width in bytes and the value written.\<close>

datatype io_access = In u16 nat | Out u16 nat u32

definition io_exec :: "(u16 \<Rightarrow> nat \<Rightarrow> u32) \<Rightarrow> io_syscall_data \<Rightarrow> io_access list \<times> io_syscall_data" where
  "io_exec dev c =
     (if io_cmd c = IO_CTRL_IN8 then ([In (io_port c) 1], c\<lparr>io_value := ucast (ucast (dev (io_port c) 1) :: u8), io_ret := 0\<rparr>)
      else if io_cmd c = IO_CTRL_IN16 then ([In (io_port c) 2], c\<lparr>io_value := ucast (ucast (dev (io_port c) 2) :: u16), io_ret := 0\<rparr>)
      else if io_cmd c = IO_CTRL_IN32 then ([In (io_port c) 4], c\<lparr>io_value := dev (io_port c) 4, io_ret := 0\<rparr>)
      else if io_cmd c = IO_CTRL_OUT8 then ([Out (io_port c) 1 (ucast (ucast (io_value c) :: u8))], c\<lparr>io_ret := 0\<rparr>)
      else if io_cmd c = IO_CTRL_OUT16 then ([Out (io_port c) 2 (ucast (ucast (io_value c) :: u16))], c\<lparr>io_ret := 0\<rparr>)
      else if io_cmd c = IO_CTRL_OUT32 then ([Out (io_port c) 4 (io_value c)], c\<lparr>io_ret := 0\<rparr>)
      else ([], c\<lparr>io_ret := E_INVAL\<rparr>))"

definition io_syscall_isr :: "(u16 \<Rightarrow> nat \<Rightarrow> u32) \<Rightarrow> io_syscall_data \<Rightarrow> kernel \<Rightarrow> io_access list \<times> io_syscall_data" where
  "io_syscall_isr dev c s =
     (case get_current_process s of
        None \<Rightarrow> io_exec dev c
      | Some p \<Rightarrow>
          if priv (pcb_at s p) \<noteq> PROC_PRIV_KERNEL \<and>
             cap_check (Some (caps (space (pcb_at s p)))) CAP_ACCESS_IO
               (Some (Io_port \<lparr>pbase = ucast (io_port c), pcount = 1\<rparr>)) \<noteq> 0
          then ([], c\<lparr>io_ret := E_PERM\<rparr>)
          else io_exec dev c)"

section \<open>Memory-mapped windows\<close>

record mmio_syscall_data =
  mm_cmd :: u8
  mm_pa :: u32
  mm_size :: u32
  mm_va :: u32
  mm_ret :: int

definition MMIO_CTRL_MAP :: u8 where "MMIO_CTRL_MAP = 0"
definition MMIO_CTRL_UNMAP :: u8 where "MMIO_CTRL_UNMAP = 1"

definition mmio_exec :: "mmio_syscall_data \<Rightarrow> kernel \<Rightarrow> int \<times> mmio_syscall_data \<times> kernel" where
  "mmio_exec c s =
     (case get_current_process s of
        None \<Rightarrow> (E_INVAL, c, s)
      | Some p \<Rightarrow>
          if mm_cmd c = MMIO_CTRL_MAP then
            if mm_va c < USER_HEAP_END \<or> mm_size c = 0 \<or> mm_size c > USER_SPACE_TOP - mm_va c then (E_INVAL, c, s)
            else let (r, s) = map_fixed_k p (mm_pa c) (mm_va c) (mm_size c) PTE_USER_PAGE False s
                 in (r, c\<lparr>mm_ret := r\<rparr>, s)
          else if mm_cmd c = MMIO_CTRL_UNMAP then
            let (r, vo, m) = vmm_unmap_fixed (Some (space (pcb_at s p))) (mm_va c) (mm_size c) (mem s)
            in (r, c\<lparr>mm_ret := r\<rparr>, put_space p vo m s)
          else (E_INVAL, c, s))"

definition mmio_syscall_isr :: "mmio_syscall_data option \<Rightarrow> kernel \<Rightarrow> int \<times> mmio_syscall_data option \<times> kernel" where
  "mmio_syscall_isr co s =
     (case co of
        None \<Rightarrow> (E_INVAL, None, s)
      | Some c \<Rightarrow> let (r, c, s) = mmio_exec c s in (r, Some c, s))"

end
