(* ===== verification/Syscall.thy ===== *)
theory Syscall
  imports Portal Devio
begin

text \<open>
  The system-call gate (\<^verbatim>\<open>kernel/syscall.c\<close>): the table of handlers, the copies between user and kernel
  memory, and the dispatcher.  User memory, as the caller's address space shows it, is an argument and
  a result; what the code behind a handler's address does, to its parameter buffer, to user memory and to the
  kernel, is a parameter.
\<close>

section \<open>The table\<close>

definition syscall_register :: "int \<Rightarrow> ptr \<Rightarrow> u32 \<Rightarrow> kernel \<Rightarrow> int \<times> kernel" where
  "syscall_register num fn max_size s =
     (if fn = 0 \<or> num < 0 then (E_INVAL, s)
      else case kmalloc_k sizeof_syscall s of
        (None, s) \<Rightarrow> (E_NOMEM, s)
      | (Some sc, s) \<Rightarrow>
          let s = s\<lparr>syscall_at := (syscall_at s)(sc := \<lparr>sc_handle = num, sc_fn = fn, max_param_size = max_size\<rparr>)\<rparr> in
          if list_ex (\<lambda>ex. sc_handle (syscall_at s ex) = num) (syscall_header s) then (E_EXISTS, kfree_k sc s)
          else (num, s\<lparr>syscall_header := sc # syscall_header s\<rparr>))"

definition syscall_unregister :: "int \<Rightarrow> kernel \<Rightarrow> int \<times> kernel" where
  "syscall_unregister handle s =
     (if handle < 0 then (E_INVAL, s)
      else case find (\<lambda>sc. sc_handle (syscall_at s sc) = handle) (syscall_header s) of
        None \<Rightarrow> (E_NOTFOUND, s)
      | Some sc \<Rightarrow> (0, kfree_k sc (s\<lparr>syscall_header := list_remove sc (syscall_header s)\<rparr>)))"

definition syscall_exit :: "kernel \<Rightarrow> kernel" where
  "syscall_exit s =
     fold (\<lambda>sc s. kfree_k sc (s\<lparr>syscall_header := list_remove sc (syscall_header s)\<rparr>)) (syscall_header s) s"

section \<open>Copies\<close>

text \<open>The \<open>n\<close> bytes at an address, and the memory with bytes written there.\<close>

definition read_mem :: "mem \<Rightarrow> u32 \<Rightarrow> nat \<Rightarrow> u8 list" where
  "read_mem um a n = map (\<lambda>i. um (a + of_nat i)) [0..<n]"

definition write_mem :: "mem \<Rightarrow> u32 \<Rightarrow> u8 list \<Rightarrow> mem" where
  "write_mem um a bs = fold (\<lambda>i um. um(a + of_nat i := bs ! i)) [0..<length bs] um"

text \<open>\<open>Inr\<close> of the buffer with the copied bytes in front, or \<open>Inl E_FAULT\<close>.\<close>

definition copy_from_user :: "kernel \<Rightarrow> mem \<Rightarrow> u8 list \<Rightarrow> u32 \<Rightarrow> u32 \<Rightarrow> int + u8 list" where
  "copy_from_user s um dst user_src n =
     (if user_src = 0 then Inl E_FAULT
      else if arch_validate_user_range (paging_of (mem s)) user_src n False
           then Inr (read_mem um user_src (unat n) @ drop (unat n) dst)
      else Inl E_FAULT)"

definition copy_to_user :: "kernel \<Rightarrow> mem \<Rightarrow> u32 \<Rightarrow> u8 list \<Rightarrow> u32 \<Rightarrow> int \<times> mem" where
  "copy_to_user s um user_dst src n =
     (if user_dst = 0 then (E_FAULT, um)
      else if arch_validate_user_range (paging_of (mem s)) user_dst n True
           then (0, write_mem um user_dst (take (unat n) src))
      else (E_FAULT, um))"

section \<open>The dispatcher\<close>

text \<open>The saved frame, read through the active page directory.\<close>

definition frame_addr :: "kernel \<Rightarrow> ptr \<Rightarrow> ptr" where
  "frame_addr s va = (case walk (tables (paging_of (mem s))) (cpu_cr3 (paging_of (mem s))) va of
     None \<Rightarrow> va | Some (pa, _, _) \<Rightarrow> pa)"

definition saved_frame :: "kernel \<Rightarrow> ptr \<Rightarrow> regs" where
  "saved_frame s va = frames s (frame_addr s va)"

definition gate_caller_ring3 :: "kernel \<Rightarrow> bool" where
  "gate_caller_ring3 s \<longleftrightarrow>
     (case curr_task_ctx s of
        None \<Rightarrow> False
      | Some t \<Rightarrow> ctx_regs (task_ctx (tcb_at s t)) \<noteq> 0 \<and>
                  r_cs (saved_frame s (ctx_regs (task_ctx (tcb_at s t)))) AND 3 = 3)"

definition SYSCALL_KBUF_MAX :: u32 where "SYSCALL_KBUF_MAX = 512"

text \<open>
  A call from ring 3 runs the handler on a zeroed kernel buffer that holds a copy of the caller's block, and
  copies the block back unless the handler switched to another thread.  \<open>fn_of h buf\<close> runs the handler at \<open>h\<close>
  on a kernel buffer, \<open>fn_at h a\<close> on the caller's memory at \<open>a\<close>; either may also read and write user memory
  itself, as the loader does with the program image and the heap calls do with the user heap.
\<close>

definition run_on_copy :: "(u8 list \<Rightarrow> mem \<Rightarrow> kernel \<Rightarrow> int \<times> u8 list \<times> mem \<times> kernel) \<Rightarrow> bool \<Rightarrow> ptr \<Rightarrow> u32 \<Rightarrow> u32 \<Rightarrow> u32 \<Rightarrow> mem \<Rightarrow> kernel \<Rightarrow>
    int \<times> mem \<times> kernel" where
  "run_on_copy fn kmalloc_buf kb buf_size arg n um s =
     (case copy_from_user s um (replicate (unat buf_size) 0) arg n of
        Inl e \<Rightarrow> (E_FAULT, um, if kmalloc_buf then kfree_k kb s else s)
      | Inr buf \<Rightarrow>
          let tid_before = thread_get_tid s;
              cr3_before = cpu_cr3 (paging_of (mem s));
              (ret, buf, um, s) = fn buf um s in
          if thread_get_tid s = tid_before \<and> cpu_cr3 (paging_of (mem s)) = cr3_before
          then let (r, um) = copy_to_user s um arg buf n;
                   ret = (if r \<noteq> 0 \<and> ret = 0 then E_FAULT else ret)
               in (ret, um, if kmalloc_buf then kfree_k kb s else s)
          else (ret, um, s))"

definition syscall_dispatch ::
  "(ptr \<Rightarrow> u8 list \<Rightarrow> mem \<Rightarrow> kernel \<Rightarrow> int \<times> u8 list \<times> mem \<times> kernel) \<Rightarrow> (ptr \<Rightarrow> u32 \<Rightarrow> mem \<Rightarrow> kernel \<Rightarrow> int \<times> mem \<times> kernel) \<Rightarrow>
   u32 \<Rightarrow> u32 \<Rightarrow> u32 \<Rightarrow> mem \<Rightarrow> kernel \<Rightarrow> int \<times> mem \<times> kernel" where
  "syscall_dispatch fn_of fn_at handle arg size' um s =
     (case find (\<lambda>sc. (of_int (sc_handle (syscall_at s sc)) :: u32) = handle) (syscall_header s) of
        None \<Rightarrow> (E_NOTFOUND, um, s)
      | Some sc \<Rightarrow>
          let fn = sc_fn (syscall_at s sc); max_size = max_param_size (syscall_at s sc) in
          if gate_caller_ring3 s then
            let n = (if size' < max_size then size' else max_size);
                buf_size = (if max_size \<noteq> 0 then max_size else 1) in
            if buf_size > SYSCALL_KBUF_MAX
            then case kmalloc_k buf_size s of
                   (None, s) \<Rightarrow> (E_NOMEM, um, s)
                 | (Some kb, s) \<Rightarrow> run_on_copy (fn_of fn) True kb buf_size arg n um s
            else run_on_copy (fn_of fn) False 0 buf_size arg n um s
          else fn_at fn arg um s)"

section \<open>What a system call may touch\<close>

text \<open>The addresses of the parameter block a call passes.\<close>

definition block :: "u32 \<Rightarrow> u32 \<Rightarrow> u32 set" where
  "block a n = {a + of_nat k | k. k < unat n}"

lemma write_mem_outside:
  assumes "x \<notin> {a + of_nat k | k. k < length bs}"
  shows "write_mem um a bs x = um x"
proof -
  have "fold (\<lambda>i um. um(a + of_nat i := bs ! i)) is um x = um x" if "set is \<subseteq> {..<length bs}" for "is" um
    using that assms by (induction "is" arbitrary: um) auto
  from this [of "[0..<length bs]" um] show ?thesis by (simp add: write_mem_def atLeast0LessThan)
qed

lemma kmalloc_same: "kmalloc_k n s = (r, x) \<Longrightarrow> paging_of (mem x) = paging_of (mem s) \<and> thread_get_tid x = thread_get_tid s"
  by (auto simp: kmalloc_k_def kmalloc_in_def thread_get_tid_def split: prod.splits option.splits)

lemma paging_kfree [simp]: "paging_of (mem (kfree_k p s)) = paging_of (mem s)"
  by (simp add: kfree_k_def kfree_in_def upd_heap_def)

text \<open>The bytes a handler finds in its buffer: those of the block, then zeroes.\<close>

definition param_copy :: "mem \<Rightarrow> u32 \<Rightarrow> u32 \<Rightarrow> u32 \<Rightarrow> u8 list" where
  "param_copy um a n buf_size = read_mem um a (unat n) @ replicate (unat buf_size - unat n) 0"

text \<open>User mode may read, or write, the whole block.\<close>

definition block_open :: "kernel \<Rightarrow> bool \<Rightarrow> u32 \<Rightarrow> u32 \<Rightarrow> bool" where
  "block_open s w a n \<longleftrightarrow>
     n = 0 \<or> unat a + unat n \<le> unat USER_SPACE_TOP \<and> block a n \<subseteq> {x. user_access (paging_of (mem s)) w x}"

text \<open>
  What follows a run of the handler from \<open>x\<close> to \<open>y\<close> that returned \<open>ret\<close> and left its buffer as \<open>buf\<close> and user
  memory as \<open>um1\<close>: the block is copied back when the caller is still the running thread and may write it.
\<close>

definition copied_back :: "u32 \<Rightarrow> u32 \<Rightarrow> kernel \<Rightarrow> int \<Rightarrow> u8 list \<Rightarrow> mem \<Rightarrow> kernel \<Rightarrow> int \<Rightarrow> mem \<Rightarrow> bool" where
  "copied_back arg n x ret buf um1 y r um' \<longleftrightarrow>
     (let stays = (thread_get_tid y = thread_get_tid x \<and> cpu_cr3 (paging_of (mem y)) = cpu_cr3 (paging_of (mem x)))
      in um' = (if stays \<and> block_open y True arg n then write_mem um1 arg (take (unat n) buf) else um1) \<and>
         r = (if stays \<and> \<not> block_open y True arg n \<and> ret = 0 then E_FAULT else ret))"

lemma validate_block: "arch_validate_user_range (paging_of (mem s)) a n w \<longleftrightarrow> block_open s w a n"
  by (simp add: validate_range_iff block_def block_open_def)

lemma run_on_copy_cases:
  assumes "run_on_copy fn kf kb bs arg n um s = (r, um', s')"
  shows "if arg \<noteq> 0 \<and> block_open s False arg n
    then \<exists>ret buf um1 y. fn (param_copy um arg n bs) um s = (ret, buf, um1, y) \<and> copied_back arg n s ret buf um1 y r um' \<and>
           paging_of (mem s') = paging_of (mem y)
    else r = E_FAULT \<and> um' = um"
proof (cases "arg \<noteq> 0 \<and> block_open s False arg n")
  case False
  then have "copy_from_user s um (replicate (unat bs) 0) arg n = Inl E_FAULT" by (auto simp: copy_from_user_def validate_block)
  then show ?thesis using assms False by (auto simp: run_on_copy_def)
next
  case True
  obtain ret buf um1 y where f: "fn (param_copy um arg n bs) um s = (ret, buf, um1, y)" by (metis prod_cases4)
  have c: "copy_from_user s um (replicate (unat bs) 0) arg n = Inr (param_copy um arg n bs)"
    using True by (simp add: copy_from_user_def param_copy_def validate_block)
  have "copied_back arg n s ret buf um1 y r um' \<and> paging_of (mem s') = paging_of (mem y)"
    using assms True
    by (auto simp: run_on_copy_def copied_back_def c f Let_def copy_to_user_def validate_block E_FAULT_def split: if_splits)
  with f True show ?thesis by auto
qed

lemma copied_back_block:
  assumes "copied_back arg n x ret buf um1 y r um'"
  shows "{a. um' a \<noteq> um1 a} \<subseteq> block arg n \<inter> {a. user_access (paging_of (mem y)) True a}"
proof
  fix a assume "a \<in> {a. um' a \<noteq> um1 a}"
  then have w: "write_mem um1 arg (take (unat n) buf) a \<noteq> um1 a" "block_open y True arg n"
    using assms by (auto simp: copied_back_def Let_def split: if_splits)
  have "a \<in> {arg + of_nat k | k. k < length (take (unat n) buf)}" using w(1) write_mem_outside by blast
  then have "a \<in> block arg n" "n \<noteq> 0" by (auto simp: block_def)
  with w(2) show "a \<in> block arg n \<inter> {a. user_access (paging_of (mem y)) True a}" by (auto simp: block_open_def)
qed

text \<open>
  Property C1: the dispatcher's own accesses to user memory are confined to the parameter block of the call.  For a call
  from ring 3, let the block be the first \<^verbatim>\<open>min(size, max_param_size)\<close> bytes at its argument.  If the argument is
  null or user mode may not read the whole block, the handler does not run and memory is unchanged.  Otherwise
  the handler runs once, in the state the call came in (with the buffer allocated), on a buffer that holds the bytes
  of the block followed by zeroes.  Whatever memory the handler leaves, the dispatcher changes it only inside the
  block, only at addresses user mode may write in the address space the call ends in, and only if the caller is
  still the running thread; the caller gets the handler's result, or \<^verbatim>\<open>E_FAULT\<close> when the block cannot be written
  back.  (The handler itself may read and write user memory elsewhere.)
\<close>

theorem syscall_dispatch_confined:
  assumes ring3: "gate_caller_ring3 s"
    and sc: "find (\<lambda>sc. (of_int (sc_handle (syscall_at s sc)) :: u32) = handle) (syscall_header s) = Some sc"
    and m: "m = max_param_size (syscall_at s sc)" and n: "n = min size' m"
    and call: "syscall_dispatch fn_of fn_at handle arg size' um s = (r, um', s')"
  shows "um' = um \<and> r = E_NOMEM \<or> um' = um \<and> r = E_FAULT \<and> (arg = 0 \<or> \<not> block_open s False arg n) \<or>
    (\<exists>x ret buf um1 y. block_open s False arg n \<and> paging_of (mem x) = paging_of (mem s) \<and> thread_get_tid x = thread_get_tid s \<and>
       fn_of (sc_fn (syscall_at s sc)) (param_copy um arg n (if m \<noteq> 0 then m else 1)) um x = (ret, buf, um1, y) \<and>
       copied_back arg n x ret buf um1 y r um' \<and>
       {a. um' a \<noteq> um1 a} \<subseteq> block arg n \<inter> {a. user_access (paging_of (mem s')) True a})"
proof -
  let ?fn = "fn_of (sc_fn (syscall_at s sc))" and ?bs = "if m \<noteq> 0 then m else 1"
  have n': "(if size' < m then size' else m) = n" using n by (auto simp: min_def)
  have d: "syscall_dispatch fn_of fn_at handle arg size' um s =
     (if ?bs > SYSCALL_KBUF_MAX
      then case kmalloc_k ?bs s of
             (None, s) \<Rightarrow> (E_NOMEM, um, s) | (Some kb, s) \<Rightarrow> run_on_copy ?fn True kb ?bs arg n um s
      else run_on_copy ?fn False 0 ?bs arg n um s)"
    unfolding syscall_dispatch_def Let_def sc option.case m [symmetric] n' using ring3 by simp
  have "(r = E_NOMEM \<and> um' = um) \<or> (\<exists>x kf kb. paging_of (mem x) = paging_of (mem s) \<and> thread_get_tid x = thread_get_tid s \<and>
      run_on_copy ?fn kf kb ?bs arg n um x = (r, um', s'))"
  proof (cases "?bs > SYSCALL_KBUF_MAX")
    case True
    obtain p x where k: "kmalloc_k ?bs s = (p, x)" by fastforce
    show ?thesis using call True kmalloc_same [OF k] unfolding d k by (cases p) auto
  next
    case False
    then show ?thesis using call unfolding d by auto
  qed
  then show ?thesis
  proof (elim disjE exE conjE)
    fix x kf kb assume x: "paging_of (mem x) = paging_of (mem s)" "thread_get_tid x = thread_get_tid s"
      and run: "run_on_copy ?fn kf kb ?bs arg n um x = (r, um', s')"
    have eq: "block_open x w arg n = block_open s w arg n" for w by (simp add: block_open_def x)
    show ?thesis
    proof (cases "arg \<noteq> 0 \<and> block_open s False arg n")
      case True
      with run_on_copy_cases [OF run] obtain ret buf um1 y
        where c: "?fn (param_copy um arg n ?bs) um x = (ret, buf, um1, y)" "copied_back arg n x ret buf um1 y r um'"
          "paging_of (mem s') = paging_of (mem y)" by (auto simp: eq)
      from copied_back_block [OF c(2)] c True x show ?thesis by auto
    qed (use run_on_copy_cases [OF run] in \<open>auto simp: eq\<close>)
  qed simp
qed

text \<open>
  An example: the system maps every address with user-writable 4 MB pages, thread 0 is in ring 3, and call 5 is
  served by a handler that knows four bytes, fills its buffer with sevens and writes a byte of user memory itself.
\<close>

definition demo_call :: "memsys \<Rightarrow> kernel" where
  "demo_call m =
     (let s = demo (m\<lparr>paging_of := (paging_of m)\<lparr>tables := (\<lambda>_. 0x87)\<rparr>\<rparr>);
          s = set_tcb 0x100 (\<lambda>x. x\<lparr>task_ctx := (task_ctx x)\<lparr>ctx_regs := 0x2000\<rparr>\<rparr>) s
      in s\<lparr>frames := (\<lambda>a. (frames s a)\<lparr>r_cs := 3\<rparr>), syscall_header := [0x40],
           syscall_at := (\<lambda>_. \<lparr>sc_handle = 5, sc_fn = 1, max_param_size = 4\<rparr>)\<rparr>)"

definition sevens :: "ptr \<Rightarrow> u8 list \<Rightarrow> mem \<Rightarrow> kernel \<Rightarrow> int \<times> u8 list \<times> mem \<times> kernel" where
  "sevens fn buf um s = (0, map (\<lambda>_. 7) buf, um(0x8000 := 1), s)"

lemma demo_call_fields:
  "gate_caller_ring3 (demo_call m)" "syscall_header (demo_call m) = [0x40]"
  "syscall_at (demo_call m) = (\<lambda>_. \<lparr>sc_handle = 5, sc_fn = 1, max_param_size = 4\<rparr>)"
  "user_access (paging_of (mem (demo_call m))) w x"
proof -
  have t: "tables (paging_of (mem (demo_call m))) = (\<lambda>_. 0x87)"
    by (simp add: demo_call_def demo_def boot_kernel_def Let_def)
  then show "user_access (paging_of (mem (demo_call m))) w x"
    by (simp add: user_access_def walk_def Let_def)
  show "gate_caller_ring3 (demo_call m)" "syscall_header (demo_call m) = [0x40]"
    "syscall_at (demo_call m) = (\<lambda>_. \<lparr>sc_handle = 5, sc_fn = 1, max_param_size = 4\<rparr>)"
    by (simp_all add: demo_call_def demo_def boot_kernel_def Let_def gate_caller_ring3_def saved_frame_def frame_addr_def set_tcb_def)
qed

lemma demo_call_result:
  "syscall_dispatch sevens fn_at 5 0x40000000 9 um (demo_call m) =
     (0, write_mem (um(0x8000 := 1)) 0x40000000 [7, 7, 7, 7], demo_call m)"
proof -
  have v: "arch_validate_user_range (paging_of (mem (demo_call m))) 0x40000000 4 w" for w
    unfolding validate_range_iff using demo_call_fields(4) by (auto simp: USER_SPACE_TOP_def)
  then show ?thesis
    by (simp add: syscall_dispatch_def run_on_copy_def copy_from_user_def copy_to_user_def demo_call_fields sevens_def
        SYSCALL_KBUF_MAX_def read_mem_def Let_def upt_rec o_def)
qed

lemma syscall_dispatch_confined_witness:
  "\<forall>m um. {a. write_mem (um(0x8000 := 1)) 0x40000000 [7, 7, 7, 7] a \<noteq> (um(0x8000 := 1)) a} \<subseteq>
     block 0x40000000 4 \<inter> {a. user_access (paging_of (mem (demo_call m))) True a}"
proof (intro allI)
  fix m um
  have f: "find (\<lambda>sc. (of_int (sc_handle (syscall_at (demo_call m) sc)) :: u32) = 5) (syscall_header (demo_call m)) = Some 0x40"
    by (simp add: demo_call_fields)
  have m: "4 = max_param_size (syscall_at (demo_call m) 0x40)" by (simp add: demo_call_fields)
  have n: "4 = min 9 (4 :: u32)" by simp
  from syscall_dispatch_confined [OF demo_call_fields(1) f m n demo_call_result [where um = um and fn_at = "\<lambda>_ _ um s. (0, um, s)"]]
  show "{a. write_mem (um(0x8000 := 1)) 0x40000000 [7, 7, 7, 7] a \<noteq> (um(0x8000 := 1)) a} \<subseteq>
     block 0x40000000 4 \<inter> {a. user_access (paging_of (mem (demo_call m))) True a}"
    by (elim disjE exE conjE) (simp_all add: sevens_def E_NOMEM_def E_FAULT_def demo_call_fields)
qed

end
