(* ===== verification/Spawn.thy ===== *)
theory Spawn
  imports Elf
begin

text \<open>
  Creating processes, seen from the scheduler: \<^verbatim>\<open>p_create_ex\<close> and \<^verbatim>\<open>proc_load_from_elf_internal\<close> keep the scheduler's
  state well formed and the processor where it is, on every path, those that undo a half-made process included.
\<close>

section \<open>A process outside the list\<close>

text \<open>Only the entries of the process block \<open>p\<close> differ.\<close>

definition slot_only :: "ptr \<Rightarrow> sched \<Rightarrow> sched \<Rightarrow> bool" where
  "slot_only p a b \<longleftrightarrow> (\<exists>x y z. b = a\<lparr>members := (members a)(p := x), pids := (pids a)(p := y), dirs := (dirs a)(p := z)\<rparr>)"

lemma slot_refl: "slot_only p a a"
  unfolding slot_only_def by (intro exI [of _ "members a p"] exI [of _ "pids a p"] exI [of _ "dirs a p"]) simp

lemma slot_trans: "slot_only p a b \<Longrightarrow> slot_only p b c \<Longrightarrow> slot_only p a c"
  by (force simp: slot_only_def)

lemma slot_fields:
  assumes "slot_only p a b"
  shows "threads b = threads a" "procs b = procs a" "running b = running a" "core b = core a" "queue b = queue a"
    "goal_dir b = goal_dir a" "goal_ctx b = goal_ctx a" "on_ctx b = on_ctx a" "on_dir b = on_dir a"
    "q \<noteq> p \<Longrightarrow> members b q = members a q" "q \<noteq> p \<Longrightarrow> pids b q = pids a q" "q \<noteq> p \<Longrightarrow> dirs b q = dirs a q"
  using assms by (auto simp: slot_only_def)

lemma slot_ok:
  assumes "slot_only p a b" and "p \<notin> set (procs a)"
  shows "sched_ok b \<longleftrightarrow> sched_ok a"
proof -
  note f = slot_fields [OF assms(1)]
  have "procs_ok b \<longleftrightarrow> procs_ok a"
  proof -
    have "pids b q = pids a q \<and> members b q = members a q \<and> dirs b q = dirs a q" if "q \<in> set (procs a)" for q
      using f(10-12) that assms(2) by metis
    then have "inj_on (pids b) (set (procs a)) \<longleftrightarrow> inj_on (pids a) (set (procs a))" by (intro inj_on_cong) blast
    then show ?thesis
      using \<open>\<And>q. q \<in> set (procs a) \<Longrightarrow> pids b q = pids a q \<and> members b q = members a q \<and> dirs b q = dirs a q\<close>
      by (simp add: procs_ok_def f(1,2,4))
  qed
  then show ?thesis by (simp add: sched_ok_def threads_ok_def queues_ok_def mboxes_ok_def f(1-5))
qed

lemma slot_committed:
  assumes "slot_only p a b" and "p \<notin> set (procs a)" and "sched_ok a" and "committed a"
  shows "committed b"
proof -
  note f = slot_fields [OF assms(1)]
  have "c_parent (core a t) \<noteq> p" if "running a = Some t" for t
    using running_thread [OF assms(3) that] assms(2,3) by (auto simp: sched_ok_def procs_ok_def)
  then have "dirs b (c_parent (core a t)) = dirs a (c_parent (core a t))" if "running a = Some t" for t
    using f(12) that by blast
  then show ?thesis using assms(4) by (auto simp: committed_def f)
qed

text \<open>A process without threads may enter the list, and leave it again.\<close>

lemma add_proc_ok:
  assumes "sched_ok a" and "p \<notin> set (procs a)" and "members a p = []" and "dirs a p \<noteq> 0" and "\<forall>q\<in>set (procs a). pids a q \<noteq> pids a p"
  shows "sched_ok (a\<lparr>procs := p # procs a\<rparr>)"
proof -
  let ?b = "a\<lparr>procs := p # procs a\<rparr>"
  have "procs_ok ?b" using assms by (auto simp: sched_ok_def procs_ok_def)
  then show ?thesis using assms(1) by (simp add: sched_ok_def threads_ok_def queues_ok_def mboxes_ok_def)
qed

lemma drop_proc_ok:
  assumes "sched_ok a" and "committed a" and "\<forall>t\<in>set (threads a). c_parent (core a t) \<noteq> p"
    and b: "b = a\<lparr>procs := list_remove p (procs a), dirs := (dirs a)(p := d)\<rparr>"
  shows "sched_ok b" "committed b"
proof -
  have "procs_ok b" using assms(1,3) by (auto simp: b sched_ok_def procs_ok_def list_remove_def inj_on_def)
  then show "sched_ok b" using assms(1) by (simp add: b sched_ok_def threads_ok_def queues_ok_def mboxes_ok_def)
  show "committed b" using assms(2,3) running_thread [OF assms(1)] by (auto simp: b committed_def)
qed

section \<open>Preparing a process\<close>

text \<open>What the steps before the process enters the list have in common.\<close>

definition prepares :: "ptr \<Rightarrow> kernel \<Rightarrow> kernel \<Rightarrow> bool" where
  "prepares p s x \<longleftrightarrow> slot_only p (sched_of s) (sched_of x) \<and> next_tid x = next_tid s \<and> heap_grew (mem s) (mem x)"

lemma prepares_trans: "prepares p s x \<Longrightarrow> prepares p x y \<Longrightarrow> prepares p s y"
  unfolding prepares_def by (metis slot_trans heap_grew_trans)

lemma prepares_set_pcb: "prepares p s (set_pcb p f s)"
proof -
  have "sched_of (set_pcb p f s) = (sched_of s)\<lparr>members := (members (sched_of s))(p := tcbs (f (pcb_at s p))),
      pids := (pids (sched_of s))(p := pid (f (pcb_at s p))), dirs := (dirs (sched_of s))(p := cr3 (vcb (space (f (pcb_at s p)))))\<rparr>"
    by (auto simp: sched_of_def set_pcb_def)
  then show ?thesis unfolding prepares_def slot_only_def by (intro conjI exI) (simp_all add: set_pcb_def heap_grew_refl)
qed

lemma prepares_same: "sched_of x = sched_of s \<Longrightarrow> next_tid x = next_tid s \<Longrightarrow> heap_grew (mem s) (mem x) \<Longrightarrow> prepares p s x"
  by (simp add: prepares_def slot_refl)

lemma rbtree_create_frame:
  assumes "rbtree_create m = (t, m')"
  shows "paging_of m' = paging_of m" "t \<noteq> None \<Longrightarrow> heap_grew m m'"
proof -
  obtain x m1 where x: "kmalloc_in sizeof_rbtree m = (x, m1)" by fastforce
  obtain y m2 where y: "kmalloc_in sizeof_rbnode m1 = (y, m2)" by fastforce
  show "paging_of m' = paging_of m"
    using assms x y kmalloc_in_simps(3) [OF x] kmalloc_in_simps(3) [OF y]
    by (cases x; cases y) (auto simp: rbtree_create_def kfree_in_def upd_heap_def)
  show "t \<noteq> None \<Longrightarrow> heap_grew m m'"
    using assms x y heap_grew_trans [OF heap_grew_kmalloc(1) [OF x] heap_grew_kmalloc(1) [OF y]]
    by (cases x; cases y) (auto simp: rbtree_create_def)
qed

lemma vmm_create_frame:
  assumes "vmm_create v u m = (r, v', m')"
  shows "cpu_cr3 (paging_of m') = cpu_cr3 (paging_of m)" "r = 0 \<Longrightarrow> cr3 v' \<noteq> 0 \<and> heap_grew m m'"
proof -
  obtain l ls where l: "spinlock_alloc (locks_of m) = (l, ls)" by fastforce
  obtain t m1 where t: "rbtree_create (m\<lparr>locks_of := ls\<rparr>) = (t, m1)" by fastforce
  obtain pa pg where a: "arch_paging_pool_alloc (paging_of m1) = (pa, pg)" by fastforce
  have c: "cpu_cr3 pg = cpu_cr3 (paging_of m)" "paging_of m1 = paging_of m"
    using cpu_cr3_pool_alloc [of "paging_of m1"] a rbtree_create_frame(1) [OF t] by simp_all
  have g: "heap_grew m m1" if "t \<noteq> None" using rbtree_create_frame(2) [OF t that] by (simp add: heap_grew_def)
  have d: "paging_of (rbtree_destroy t x) = paging_of x" for t x by (simp add: rbtree_destroy_def kfree_in_def upd_heap_def split: option.splits)
  show "cpu_cr3 (paging_of m') = cpu_cr3 (paging_of m)"
    using assms l t a c by (auto simp: vmm_create_def Let_def arch_clone_kernel_pde_def d upd_locks_def upd_paging_def split: if_splits)
  show "r = 0 \<Longrightarrow> cr3 v' \<noteq> 0 \<and> heap_grew m m'"
    using assms l t a g by (auto simp: vmm_create_def Let_def arch_clone_kernel_pde_def E_NOMEM_def heap_grew_def split: if_splits)
qed

lemma put_new_vcb:
  assumes "vmm_create (vcb_of s p) u (mem s) = (r, v, m)"
  shows "slot_only p (sched_of s) (sched_of (put_vcb p v m s))" "r = 0 \<Longrightarrow> prepares p s (put_vcb p v m s)"
    "dirs (sched_of (put_vcb p v m s)) p = cr3 v" "members (sched_of (put_vcb p v m s)) p = members (sched_of s) p"
    "pids (sched_of (put_vcb p v m s)) p = pids (sched_of s) p"
proof -
  have "sched_of (put_vcb p v m s) = sched_of (set_pcb p (\<lambda>q. q\<lparr>space := (space q)\<lparr>vcb := v\<rparr>\<rparr>) s)"
    using vmm_create_frame(1) [OF assms] by (simp add: put_vcb_def sched_of_def set_pcb_def)
  then show "slot_only p (sched_of s) (sched_of (put_vcb p v m s))" "r = 0 \<Longrightarrow> prepares p s (put_vcb p v m s)"
    using prepares_set_pcb [of p s "\<lambda>q. q\<lparr>space := (space q)\<lparr>vcb := v\<rparr>\<rparr>"] vmm_create_frame(2) [OF assms]
    by (auto simp: prepares_def)
qed (simp_all add: put_vcb_def set_pcb_def)

lemma inherit_grew:
  assumes "(case for_brk ps inherit_body (cs, H) of Inl x \<Rightarrow> x | Inr x \<Rightarrow> x) = (ds, H')" and "kheap_ok H"
  shows "kheap_ok H' \<and> klive H \<subseteq> klive H'"
  using assms
proof (induction ps arbitrary: cs H)
  case (Cons p ps)
  obtain r H1 where k: "kalloc sizeof_capability H = (r, H1)" by fastforce
  have g: "kheap_ok H1" "klive H \<subseteq> klive H1" using kheap.alloc_inv [OF Cons.prems(2) k] kheap.alloc_mono [OF Cons.prems(2) k] by simp_all
  show ?case
  proof (cases r)
    case None
    then show ?thesis using Cons.prems k g by (auto simp: inherit_body_def split: prod.splits)
  next
    case (Some d)
    then show ?thesis using Cons.IH [of "(d, snd p) # cs" H1] Cons.prems k g by (auto simp: inherit_body_def split: prod.splits)
  qed
qed auto

lemma prepares_inherit: "prepares p s (inherit_caps p q s)"
proof -
  obtain co h where c: "cap_inherit_all (Some (caps (space (pcb_at s p)))) (Some (caps (space (pcb_at s q)))) (heaps_of (mem s)) = (co, h)"
    by fastforce
  have "kheap_ok (heaps_of (mem s)) \<Longrightarrow> kheap_ok h \<and> klive (heaps_of (mem s)) \<subseteq> klive h"
    using c inherit_grew [of "capabilities (caps (space (pcb_at s q)))" "capabilities (caps (space (pcb_at s p)))" "heaps_of (mem s)"]
    by (auto simp: cap_inherit_all_def split: if_splits prod.splits)
  then show ?thesis
    using c by (intro prepares_same) (simp_all add: inherit_caps_def, simp_all add: set_caps_def set_pcb_def heap_grew_def)
qed

section \<open>Creating\<close>

text \<open>
  A thread may be created when the kernel heap is intact, the blocks of the threads are in use in it, and the next
  thread number is not taken; a process when the same holds of the process blocks and numbers.  The thread number
  must not have become negative: the code would take it for an error.
\<close>

definition can_create :: "kernel \<Rightarrow> bool" where
  "can_create s \<longleftrightarrow> blocks_live s \<and> (\<forall>u\<in>set (thread_head s). tid (tcb_at s u) \<noteq> sint (next_tid s))"

definition can_spawn :: "kernel \<Rightarrow> bool" where
  "can_spawn s \<longleftrightarrow> can_create s \<and> set (proc_head s) \<subseteq> klive (heaps_of (mem s)) \<and>
     (\<forall>p\<in>set (proc_head s). pid (pcb_at s p) \<noteq> sint (next_pid s)) \<and> 0 \<le> sint (next_tid s)"

text \<open>The state between two gates: well formed, and the processor set to the running thread.\<close>

definition at_rest :: "kernel \<Rightarrow> bool" where
  "at_rest s \<longleftrightarrow> sched_ok (sched_of s) \<and> committed (sched_of s) \<and> running (sched_of s) \<noteq> None"

lemma at_rest_cong: "sched_of x = sched_of s \<Longrightarrow> at_rest x \<longleftrightarrow> at_rest s"
  by (simp only: at_rest_def)

lemma create_at_rest:
  assumes s: "at_rest s" and cc: "can_create s" and p: "p \<in> set (proc_head s)"
    and call: "thread_create_ex_internal (Some p) pv pc param st s = (r, s')"
  shows "at_rest s' \<and> (r = sint (next_tid s) \<or> r < 0 \<and> untouched (sched_of s) (sched_of s'))"
proof -
  obtain c where run: "thread_run s = Some c" "c \<in> set (thread_head s)"
    using s running_thread [of "sched_of s"] by (auto simp: at_rest_def)
  have cr: "sched_ok (sched_of s') \<and>
    (r \<in> {E_NOMEM, E_THREAD_CREATE, E_LIMIT} \<and> untouched (sched_of s) (sched_of s') \<or>
     (\<exists>t. t \<notin> set (thread_head s) \<and> thread_added t p r st (sched_of s) (sched_of s') \<and>
       r = sint (next_tid s) \<and> next_tid s' = next_tid s + 1))"
    using s cc by (intro thread_create_cases [OF _ _ p _ call]) (auto simp: at_rest_def can_create_def)
  then have "running (sched_of s') = running (sched_of s)" "cpu_same (sched_of s) (sched_of s')" "core (sched_of s') c = core (sched_of s) c"
    using run by (auto simp: untouched_def thread_added_def)
  then have "committed (sched_of s')" "thread_run s' \<noteq> None"
    using s run unfolding at_rest_def committed_def cpu_same_def by (auto simp del: sched_of_fields(8))
  with cr show ?thesis by (auto simp: at_rest_def E_NOMEM_def E_THREAD_CREATE_def E_LIMIT_def)
qed

text \<open>The rest of the creation, once the address space is there.\<close>

lemma spawn_tail:
  assumes s: "at_rest s" and p: "p \<notin> set (proc_head s)" and cc: "can_create s" "0 \<le> sint (next_tid s)"
    and new: "tcbs (pcb_at s p) = []" "cr3 (vcb_of s p) \<noteq> 0" "\<forall>q\<in>set (proc_head s). pid (pcb_at s q) \<noteq> pid (pcb_at s p)"
    and call: "thread_create_ex_internal (Some p) pv pc param st (s\<lparr>proc_head := p # proc_head s\<rparr>) = (ret, x)"
  shows "if ret \<ge> 0 then at_rest x
    else at_rest (free_proc p (destroy_space p (x\<lparr>proc_head := list_remove p (proc_head x)\<rparr>)))"
proof -
  let ?y = "s\<lparr>proc_head := p # proc_head s\<rparr>" and ?z = "x\<lparr>proc_head := list_remove p (proc_head x)\<rparr>"
  have y: "sched_of ?y = (sched_of s)\<lparr>procs := p # procs (sched_of s)\<rparr>" by (simp add: sched_of_def)
  have "sched_ok (sched_of ?y)"
    unfolding y using s p new by (intro add_proc_ok) (simp_all add: at_rest_def vcb_of_def)
  then have ry: "at_rest ?y" using s unfolding at_rest_def y by (simp add: committed_def)
  have "can_create ?y" using cc(1) by (simp add: can_create_def blocks_live_def)
  note c = create_at_rest [OF ry this _ call]
  show ?thesis
  proof (cases "ret \<ge> 0")
    case True
    then show ?thesis using c by simp
  next
    case False
    then have u: "untouched (sched_of ?y) (sched_of x)" "at_rest x" using c cc(2) by auto
    obtain d where d: "sched_of (destroy_space p ?z) = (sched_of ?z)\<lparr>dirs := (dirs (sched_of ?z))(p := d)\<rparr>"
      by (rule sched_of_destroy_space)
    have z: "sched_of ?z = (sched_of x)\<lparr>procs := list_remove p (procs (sched_of x))\<rparr>" by (simp add: sched_of_def)
    have "sched_of (free_proc p (destroy_space p ?z)) =
        (sched_of x)\<lparr>procs := list_remove p (procs (sched_of x)), dirs := (dirs (sched_of x))(p := d)\<rparr>"
      unfolding sched_of_free_proc d z by simp
    moreover have "\<forall>t\<in>set (threads (sched_of x)). c_parent (core (sched_of x) t) \<noteq> p"
      using u(1) s p by (auto simp: untouched_def y at_rest_def sched_ok_def procs_ok_def)
    ultimately have "sched_ok (sched_of (free_proc p (destroy_space p ?z)))" "committed (sched_of (free_proc p (destroy_space p ?z)))"
        "running (sched_of (free_proc p (destroy_space p ?z))) = running (sched_of x)"
      using u(2) drop_proc_ok [of "sched_of x" p _ d] by (auto simp: at_rest_def simp del: sched_of_fields)
    then show ?thesis using False u(2) by (simp add: at_rest_def)
  qed
qed

lemma slot_at_rest:
  assumes "slot_only p (sched_of s) (sched_of x)" and "p \<notin> set (proc_head s)" and "at_rest s"
  shows "at_rest x"
  using assms slot_ok [OF assms(1)] slot_committed [OF assms(1)] slot_fields(3) [OF assms(1)]
  by (simp add: at_rest_def)

lemma prepares_can_create:
  assumes "prepares p s x" and "can_create s"
  shows "can_create x"
proof -
  have f: "thread_head x = thread_head s" "\<And>u. core_of (tcb_at x u) = core_of (tcb_at s u)" "next_tid x = next_tid s" "heap_grew (mem s) (mem x)"
    using assms(1) slot_fields(1,4) [of p "sched_of s" "sched_of x"] by (auto simp: prepares_def fun_eq_iff)
  have "tid (tcb_at x u) = tid (tcb_at s u)" "t_mailbox (tcb_at x u) = t_mailbox (tcb_at s u)" for u
    using f(2) [of u] by (simp_all add: core_of_def)
  then show ?thesis using assms(2) f(1,3,4) by (fastforce simp: can_create_def blocks_live_def heap_grew_def)
qed

lemma prepares_alloc:
  "kmalloc_k n s = (r, x) \<Longrightarrow> prepares p s x" "lock_alloc_k s = (l, x) \<Longrightarrow> prepares p s x"
  using alloc_frame(1-3) [of n s r x] lock_frame [of s l x] by (auto intro: prepares_same)

lemma alloc_other:
  "kmalloc_k n s = (r, x) \<Longrightarrow> pcb_at x = pcb_at s \<and> next_pid x = next_pid s"
  "lock_alloc_k s = (l, x) \<Longrightarrow> pcb_at x = pcb_at s \<and> next_pid x = next_pid s"
  by (auto simp: kmalloc_k_def lock_alloc_k_def split: prod.splits)

text \<open>The block of the new process before it has an address space, and with it.\<close>

definition spawning :: "ptr \<Rightarrow> kernel \<Rightarrow> kernel \<Rightarrow> bool" where
  "spawning p s x \<longleftrightarrow> prepares p s x \<and> tcbs (pcb_at x p) = [] \<and> pid (pcb_at x p) = sint (next_pid s)"

lemma spawn_space:
  assumes s: "at_rest s" and sp: "can_spawn s" and p: "p \<notin> set (proc_head s)" and x: "spawning p s x"
    and v: "vmm_create (vcb_of x p) u (mem x) = (rv, v, m)" and y: "y = put_vcb p v m x"
  shows "at_rest y" "rv = 0 \<Longrightarrow> spawning p s y \<and> cr3 (vcb_of y p) \<noteq> 0"
proof -
  have "slot_only p (sched_of s) (sched_of y)" using slot_trans [OF _ put_new_vcb(1) [OF v]] x by (simp add: spawning_def prepares_def y)
  then show "at_rest y" by (rule slot_at_rest [OF _ p s])
  have n: "tcbs (pcb_at y p) = tcbs (pcb_at x p)" "pid (pcb_at y p) = pid (pcb_at x p)" "cr3 (vcb_of y p) = cr3 v"
    by (simp_all add: y put_vcb_def set_pcb_def vcb_of_def)
  show "rv = 0 \<Longrightarrow> spawning p s y \<and> cr3 (vcb_of y p) \<noteq> 0"
    using prepares_trans [OF _ put_new_vcb(2) [OF v]] vmm_create_frame(2) [OF v] x n by (simp add: spawning_def y)
qed

lemma spawn_inherit:
  assumes "spawning p s x"
  shows "spawning p s (inherit_caps p q x)" "cr3 (vcb_of (inherit_caps p q x) p) = cr3 (vcb_of x p)"
proof -
  have e: "sched_of (inherit_caps p q x) = sched_of x" by (simp add: inherit_caps_def split: prod.splits)
  have "tcbs (pcb_at (inherit_caps p q x) p) = tcbs (pcb_at x p)" "pid (pcb_at (inherit_caps p q x) p) = pid (pcb_at x p)"
      "cr3 (vcb_of (inherit_caps p q x) p) = cr3 (vcb_of x p)"
    using arg_cong [OF e, of "\<lambda>a. members a p"] arg_cong [OF e, of "\<lambda>a. pids a p"] arg_cong [OF e, of "\<lambda>a. dirs a p"]
    by (simp_all add: vcb_of_def)
  then show "spawning p s (inherit_caps p q x)" "cr3 (vcb_of (inherit_caps p q x) p) = cr3 (vcb_of x p)"
    using assms prepares_trans [OF _ prepares_inherit] by (auto simp: spawning_def)
qed

lemma spawn_link:
  assumes s: "at_rest s" and sp: "can_spawn s" and p: "p \<notin> set (proc_head s)" and x: "spawning p s x" "cr3 (vcb_of x p) \<noteq> 0"
    and call: "thread_create_ex_internal (Some p) pv pc param st (x\<lparr>proc_head := p # proc_head x\<rparr>) = (ret, y)"
  shows "if ret \<ge> 0 then at_rest y
    else at_rest (free_proc p (destroy_space p (y\<lparr>proc_head := list_remove p (proc_head y)\<rparr>)))"
proof -
  have sl: "slot_only p (sched_of s) (sched_of x)" and pr: "prepares p s x" using x(1) by (simp_all add: spawning_def prepares_def)
  have hd: "proc_head x = proc_head s" "next_tid x = next_tid s" using slot_fields(2) [OF sl] pr by (simp_all add: prepares_def)
  have "pid (pcb_at x q) \<noteq> pid (pcb_at x p)" if "q \<in> set (proc_head s)" for q
  proof -
    have "q \<noteq> p" "pid (pcb_at s q) \<noteq> sint (next_pid s)" using that p sp by (auto simp: can_spawn_def)
    then show ?thesis using slot_fields(11) [OF sl, of q] x(1) by (simp add: spawning_def)
  qed
  then show ?thesis
    using slot_at_rest [OF sl p s] prepares_can_create [OF pr] sp p x hd
    by (intro spawn_tail [OF _ _ _ _ _ _ _ call]) (auto simp: can_spawn_def spawning_def)
qed

lemma spawn_block:
  assumes "kmalloc_k sizeof_pcb s = (Some p, s1)" and "lock_alloc_k (set_pcb p (\<lambda>_. null_pcb) s1) = (l, s2)"
    and "lock_alloc_k (set_pcb p (\<lambda>q. q\<lparr>p_lock := l\<rparr>) s2) = (cl, s3)"
    and s4_def: "s4 = set_pcb p (\<lambda>q. q\<lparr>space := (space q)\<lparr>caps := (caps (space q))\<lparr>cap_lock := cl\<rparr>\<rparr>\<rparr>) s3"
    and s5_def: "s5 = set_pcb p (\<lambda>q. q\<lparr>pid := sint (next_pid s4), p_state := PS_READY, priv := pv, p_param := param\<rparr>) s4"
  shows "prepares p s (set_pcb p (\<lambda>q. q\<lparr>p_lock := l\<rparr>) s2)" "prepares p s s4" "spawning p s (s5\<lparr>next_pid := next_pid s5 + 1\<rparr>)"
proof -
  show p2: "prepares p s (set_pcb p (\<lambda>q. q\<lparr>p_lock := l\<rparr>) s2)" and p4: "prepares p s s4"
    using prepares_trans prepares_alloc(1) [OF assms(1)] prepares_alloc(2) [OF assms(2)] prepares_alloc(2) [OF assms(3)] prepares_set_pcb
    unfolding s4_def by meson+
  have "prepares p s s5" unfolding s5_def by (rule prepares_trans [OF p4 prepares_set_pcb])
  moreover have "sched_of (s5\<lparr>next_pid := next_pid s5 + 1\<rparr>) = sched_of s5" by (simp add: sched_of_def)
  moreover have "tcbs (pcb_at s5 p) = []" "pid (pcb_at s5 p) = sint (next_pid s)"
    using alloc_other(1) [OF assms(1)] alloc_other(2) [OF assms(2)] alloc_other(2) [OF assms(3)]
    by (simp_all add: s5_def s4_def set_pcb_def null_pcb_def)
  ultimately show "spawning p s (s5\<lparr>next_pid := next_pid s5 + 1\<rparr>)" by (simp add: spawning_def prepares_def)
qed

lemma spawn_at_rest:
  assumes s: "at_rest s" and sp: "can_spawn s" and call: "p_create_ex pv pc param st s = (r, s')"
  shows "at_rest s'"
proof -
  obtain o1 s1 where k: "kmalloc_k sizeof_pcb s = (o1, s1)" by fastforce
  show ?thesis
  proof (cases o1)
    case None
    then show ?thesis using call k s at_rest_cong [OF alloc_frame(1) [OF k]] by (simp add: p_create_ex_def)
  next
    case (Some p)
    have p: "p \<notin> set (proc_head s)"
      using alloc_frame(4) [OF k, of p] Some sp by (auto simp: can_spawn_def can_create_def blocks_live_def)
    obtain l s2 where l: "lock_alloc_k (set_pcb p (\<lambda>_. null_pcb) s1) = (l, s2)" by fastforce
    define s3 where "s3 = set_pcb p (\<lambda>q. q\<lparr>p_lock := l\<rparr>) s2"
    obtain cl s4 where cl: "lock_alloc_k s3 = (cl, s4)" by fastforce
    define s5 where "s5 = set_pcb p (\<lambda>q. q\<lparr>space := (space q)\<lparr>caps := (caps (space q))\<lparr>cap_lock := cl\<rparr>\<rparr>\<rparr>) s4"
    define s6 where "s6 = set_pcb p (\<lambda>q. q\<lparr>pid := sint (next_pid s5), p_state := PS_READY, priv := pv, p_param := param\<rparr>) s5"
    define s7 where "s7 = s6\<lparr>next_pid := next_pid s6 + 1\<rparr>"
    note b = spawn_block [OF k [unfolded Some] l cl [unfolded s3_def] s5_def s6_def, folded s3_def s7_def]
    have rest: "at_rest y" if "sched_of y = sched_of x" "prepares p s x" for x y
      using slot_at_rest [OF _ p s, of y] that by (simp add: prepares_def)
    obtain rv v m where v: "vmm_create (vcb_of s7 p) (pv = PROC_PRIV_USER) (mem s7) = (rv, v, m)" by (metis prod_cases3)
    define s8 where "s8 = put_vcb p v m s7"
    define s9 where "s9 = (case thread_run s8 of None \<Rightarrow> s8
      | Some cur \<Rightarrow> if parent (tcb_at s8 cur) \<noteq> p then inherit_caps p (parent (tcb_at s8 cur)) s8 else s8)"
    note e = spawn_space [OF s sp p b(3) v s8_def]
    have s9: "spawning p s s9 \<and> cr3 (vcb_of s9 p) \<noteq> 0" if "rv = 0"
      using e(2) [OF that] spawn_inherit [of p s s8] by (auto simp: s9_def split: option.splits)
    obtain ret y where t: "thread_create_ex_internal (Some p) pv pc (p_param (pcb_at (s9\<lparr>proc_head := p # proc_head s9\<rparr>) p)) st
      (s9\<lparr>proc_head := p # proc_head s9\<rparr>) = (ret, y)" by fastforce
    have eq: "p_create_ex pv pc param st s =
      (if l = None then (E_LIMIT, kfree_k p s3) else if cl = None then (E_LIMIT, kfree_k p (lock_release_k l s5))
       else if rv \<noteq> 0 then (E_NOMEM, free_proc p s8)
       else if ret \<ge> 0 then (pid (pcb_at y p), y)
       else (ret, free_proc p (destroy_space p (y\<lparr>proc_head := list_remove p (proc_head y)\<rparr>))))"
      unfolding p_create_ex_def k Some option.case prod.case Let_def l s3_def [symmetric] cl s5_def [symmetric]
        s6_def [symmetric] s7_def [symmetric] v s8_def [symmetric] s9_def [symmetric] t by simp
    show ?thesis
      using call rest [OF _ b(1), of "kfree_k p s3"] rest [OF _ b(2), of "kfree_k p (lock_release_k l s5)"] at_rest_cong [of "free_proc p s8" s8] e(1)
        spawn_link [OF s sp p _ _ t] s9
      unfolding eq by (auto split: if_splits)
  qed
qed

section \<open>Loading a program\<close>

lemma map_fixed_frame:
  assumes "vmm_map_fixed (Some q) pa va n flags own m = (r, vo, m')"
  shows "cpu_cr3 (paging_of m') = cpu_cr3 (paging_of m)" "cr3 (vcb (the vo)) = cr3 (vcb q)"
proof -
  obtain k m1 where k: "kmalloc_in sizeof_vmm_region m = (k, m1)" by fastforce
  have c: "paging_of m1 = paging_of m" by (rule kmalloc_in_simps(3) [OF k])
  have d: "cr3 (tree_delete x v) = cr3 v" for x v by (simp add: tree_delete_def)
  show "cpu_cr3 (paging_of m') = cpu_cr3 (paging_of m)" "cr3 (vcb (the vo)) = cr3 (vcb q)"
    using assms k c
    by (auto simp: vmm_map_fixed_def Let_def set_vcb_def d kfree_in_def upd_heap_def split: if_splits option.splits sum.splits prod.splits
        dest!: cpu_cr3_map_pagesD)
qed

lemma sched_of_map_fixed: "map_fixed_k p pa va n fl own s = (r, x) \<Longrightarrow> sched_of x = sched_of s"
proof -
  assume m: "map_fixed_k p pa va n fl own s = (r, x)"
  obtain vo m where v: "vmm_map_fixed (Some (space (pcb_at s p))) pa va n fl own (mem s) = (r, vo, m)" "x = put_space p vo m s"
    using m by (auto simp: map_fixed_k_def split: prod.splits)
  show ?thesis using map_fixed_frame [OF v(1)] by (auto simp: v(2) put_space_def sched_of_def set_pcb_def)
qed

lemma sched_of_load [simp]:
  "sched_of (copy_in a img b n s) = sched_of s" "sched_of (clear_in a n s) = sched_of s" "sched_of (pmm_free_k pa n s) = sched_of s"
  "sched_of (snd (revoke_k p c s)) = sched_of s" "sched_of (s\<lparr>mem := (mem s)\<lparr>pmm_of := pm\<rparr>\<rparr>) = sched_of s"
  by (simp_all add: copy_in_def clear_in_def pmm_free_k_def revoke_k_def sched_of_mem upd_pmm_def split: prod.splits)

lemma sched_of_grant: "grant_k p c s = (r, x) \<Longrightarrow> sched_of x = sched_of s"
  by (auto simp: grant_k_def split: prod.splits)

lemma load_segment_sched:
  "sched_of (case load_segment p img n ph (b, s) of Inl (b', s') \<Rightarrow> s' | Inr (e, s') \<Rightarrow> s') = sched_of s"
  by (auto simp: load_segment_def Let_def split: prod.splits if_splits dest!: sched_of_grant sched_of_map_fixed)

lemma elf_load_sched: "elf_load (Some p) img n s = (r, s') \<Longrightarrow> sched_of s' = sched_of s"
proof -
  have "sched_of (case for_brk is (\<lambda>i. load_segment p img n (phdr img i)) (b, s) of Inl (b', s') \<Rightarrow> s' | Inr (e, s') \<Rightarrow> s') = sched_of s" for "is" b s
  proof (induction "is" arbitrary: b s)
    case (Cons i "is")
    then show ?case
      using load_segment_sched [of p img n "phdr img i" b s]
      by (cases "load_segment p img n (phdr img i) (b, s)") (auto split: prod.splits)
  qed simp
  from this [of "[0..<unat (e_phnum (ehdr img))]" False s] show "elf_load (Some p) img n s = (r, s') \<Longrightarrow> sched_of s' = sched_of s"
    by (auto simp: elf_load_def split: if_splits sum.splits prod.splits)
qed

lemma exit_settled:
  assumes "at_rest s" and "proc_exit_internal n s = Some s'"
  shows "sched_ok (sched_of s') \<and> committed (sched_of s')"
proof (cases "get_process_by_pid n s")
  case None
  then have "sched_of s' = a_commit (sched_of s)" using assms(2) by (auto simp: proc_exit_internal_def sched_of_commit)
  then show ?thesis
    using assms(1) committed_pending [of "sched_of s"] by (simp add: at_rest_def a_commit_ok pending_ok_def)
next
  case (Some p)
  have "sched_ok (sched_of s)" "committed (sched_of s)" using assms(1) by (simp_all add: at_rest_def)
  from proc_exit_cases [OF this Some] assms(2) show ?thesis by (auto split: if_splits)
qed

lemma can_spawn_alloc:
  assumes "kmalloc_k n s = (r, x)" and "can_spawn s"
  shows "can_spawn x"
proof -
  have p: "prepares 0 s x" by (rule prepares_alloc(1) [OF assms(1)])
  have "proc_head x = proc_head s" using alloc_frame(1) [OF assms(1)] by (metis sched_of_fields(2))
  then show ?thesis
    using assms(2) prepares_can_create [OF p] p alloc_other(1) [OF assms(1)]
    by (auto simp: can_spawn_def prepares_def heap_grew_def can_create_def blocks_live_def)
qed

lemma load_settled:
  assumes s: "at_rest s" and sp: "can_spawn s" and call: "proc_load_from_elf_internal img a b param s = Some (r, s')"
  shows "sched_ok (sched_of s') \<and> committed (sched_of s')"
proof -
  obtain k x where k: "kmalloc_k (b - a) s = (k, x)" by fastforce
  obtain n y where c: "proc_create_internal PROC_PRIV_USER (e_entry (ehdr img)) param x = (n, y)" by fastforce
  have x: "at_rest x" using s at_rest_cong [OF alloc_frame(1) [OF k]] by simp
  have y: "at_rest y"
    using spawn_at_rest [OF x can_spawn_alloc [OF k sp]] c by (simp add: proc_create_internal_def)
  have ends: "sched_ok (sched_of z) \<and> committed (sched_of z)" if "at_rest z" for z using that by (simp add: at_rest_def)
  have load: "at_rest (kfree_k buf z)" if "elf_load (Some p) img m y = (q, z)" for p m q z buf
    using y at_rest_cong [of "kfree_k buf z" y] elf_load_sched [OF that] by simp
  have free: "at_rest (kfree_k buf x)" "at_rest (kfree_k buf y)" for buf
    using x y at_rest_cong [of "kfree_k buf x" x] at_rest_cong [of "kfree_k buf y" y] by simp_all
  show ?thesis
    using call k c ends [OF s] ends [OF x] ends [OF free(1)] ends [OF free(2)] ends [OF load] exit_settled [OF free(2)] exit_settled [OF load]
    by (auto simp: proc_load_from_elf_internal_def Let_def split: if_splits option.splits prod.splits sum.splits Option.bind_splits)
qed

end
