(* ===== verification/Calls.thy ===== *)
theory Calls
  imports Spawn Portal Devio
begin

text \<open>
  What the portal, heap and device system calls do to the scheduler: sharing and mapping memory does not touch it,
  and a portal call changes it only by the semaphore it waits on or signals.
\<close>

section \<open>Mapping and sharing memory\<close>

lemma put_space_same:
  "cr3 (vcb (the vo)) = cr3 (vcb (space (pcb_at s p))) \<Longrightarrow> cpu_cr3 (paging_of m) = cpu_cr3 (paging_of (mem s)) \<Longrightarrow>
   sched_of (put_space p vo m s) = sched_of s"
  by (auto simp: put_space_def sched_of_def set_pcb_def)

lemma tree_delete_cr3 [simp]: "cr3 (tree_delete x v) = cr3 v"
  by (simp add: tree_delete_def)

lemma reserve_frame:
  assumes "vmm_mmap_reserve v pa sz flags m = (r, v', m')"
  shows "paging_of m' = paging_of m" "cr3 v' = cr3 v" "heap_grew m m'"
proof -
  obtain k m1 where k: "kmalloc_in sizeof_vmm_region m = (k, m1)" by fastforce
  show "paging_of m' = paging_of m" "cr3 v' = cr3 v" "heap_grew m m'"
    using assms k kmalloc_in_simps(3) [OF k] heap_grew_kmalloc(1) [OF k]
    by (auto simp: vmm_mmap_reserve_def heap_grew_refl split: option.splits if_splits)
qed

lemma release_frame:
  assumes "vmm_mmap_release v va sz m = (r, v', m')"
  shows "paging_of m' = paging_of m" "cr3 v' = cr3 v"
  using assms by (auto simp: vmm_mmap_release_def kfree_in_def upd_heap_def split: option.splits if_splits)

lemma map_memory_frame:
  assumes "vmm_map_memory (Some q) pa sz flags m = (r, vo, m')"
  shows "cpu_cr3 (paging_of m') = cpu_cr3 (paging_of m)" "cr3 (vcb (the vo)) = cr3 (vcb q)" "r = Inr x \<Longrightarrow> heap_grew m m'"
proof -
  let ?pa = "pa AND NOT (4096 - 1)" let ?sz = "(sz + (pa - ?pa) + (4096 - 1)) AND NOT (4096 - 1)"
  obtain k v m1 where k: "vmm_mmap_reserve (vcb q) ?pa ?sz flags m = (k, v, m1)" by (metis prod_cases3)
  note f = reserve_frame [OF k]
  have undo: "paging_of m3 = paging_of m2 \<and> cr3 v' = cr3 v" if "vmm_mmap_release v va 0 m2 = (y, v', m3)" for va y v' m2 m3
    using release_frame [OF that] by simp
  have g: "heap_grew m1 (m1\<lparr>paging_of := pg\<rparr>)" for pg by (simp add: heap_grew_refl)
  show "cpu_cr3 (paging_of m') = cpu_cr3 (paging_of m)"
    using assms k f(1) undo
    by (auto simp: vmm_map_memory_def Let_def split: if_splits option.splits sum.splits prod.splits dest!: cpu_cr3_map_pagesD)
  show "cr3 (vcb (the vo)) = cr3 (vcb q)"
    using assms k f(2) undo
    by (auto simp: vmm_map_memory_def Let_def set_vcb_def split: if_splits option.splits sum.splits prod.splits)
  show "r = Inr x \<Longrightarrow> heap_grew m m'"
    using assms k heap_grew_trans [OF f(3) g]
    by (auto simp: vmm_map_memory_def Let_def split: if_splits option.splits sum.splits prod.splits)
qed

lemma unmap_memory_frame:
  assumes "vmm_unmap_memory (Some q) va sz m = (r, vo, m')"
  shows "cpu_cr3 (paging_of m') = cpu_cr3 (paging_of m)" "cr3 (vcb (the vo)) = cr3 (vcb q)"
  using assms
  by (auto simp: vmm_unmap_memory_def set_vcb_def upd_paging_def split: sum.splits if_splits prod.splits dest: release_frame)

lemma unmap_fixed_frame:
  assumes "vmm_unmap_fixed (Some q) va sz m = (r, vo, m')"
  shows "cpu_cr3 (paging_of m') = cpu_cr3 (paging_of m)" "cr3 (vcb (the vo)) = cr3 (vcb q)"
  using assms
  by (auto simp: vmm_unmap_fixed_def set_vcb_def upd_paging_def upd_pmm_def kfree_in_def upd_heap_def Let_def
      split: sum.splits option.splits if_splits prod.splits)

lemma grant_grew: "grant_k p c s = (r, x) \<Longrightarrow> heap_grew (mem s) (mem x)"
  using kheap.alloc_inv kheap.alloc_mono
  by (auto simp: grant_k_def set_caps_def set_pcb_def cap_grant_def heap_grew_def split: prod.splits option.splits if_splits) blast+

lemma sched_of_share: "shm_share n va sz out s = (r, o', x) \<Longrightarrow> sched_of x = sched_of s \<and> (r = 0 \<longrightarrow> heap_grew (mem s) (mem x))"
proof -
  have put: "sched_of (put_space p vo m s) = sched_of s" if "vmm_map_memory (Some (space (pcb_at s p))) pa k fl (mem s) = (q, vo, m)"
    for p pa k fl q vo m s using map_memory_frame(1,2) [OF that] by (simp add: put_space_same)
  have grew: "heap_grew (mem s) (mem (put_space p vo m x))"
    if "heap_grew (mem s) (mem x)" "vmm_map_memory (Some (space (pcb_at x p))) pa k fl (mem x) = (Inr va, vo, m)" for p s x pa k fl va vo m
    using heap_grew_trans [OF that(1) map_memory_frame(3) [OF that(2) refl]] by (simp add: put_space_def)
  have grant: "sched_of x = sched_of s \<and> heap_grew (mem s) (mem x)" if "grant_k p c s = (q, x)" for p c q x
    using sched_of_grant [OF that] grant_grew [OF that] by simp
  show "shm_share n va sz out s = (r, o', x) \<Longrightarrow> sched_of x = sched_of s \<and> (r = 0 \<longrightarrow> heap_grew (mem s) (mem x))"
    by (auto simp: shm_share_def Let_def put E_INVAL_def E_PERM_def E_NOTFOUND_def E_LIMIT_def
        split: option.splits if_splits sum.splits prod.splits dest!: grant intro: grew)
qed

lemma sched_of_unshare: "shm_unshare n va s = (r, x) \<Longrightarrow> sched_of x = sched_of s"
proof -
  have put: "sched_of (put_space p vo m s) = sched_of s" if "vmm_unmap_memory (Some (space (pcb_at s p))) va k (mem s) = (q, vo, m)"
    for p va k q vo m using unmap_memory_frame [OF that] by (simp add: put_space_same)
  have rev: "sched_of y = sched_of z" if "revoke_k p c z = (q, y)" for p c z q y using sched_of_load(4) [of p c z] that by simp
  show "shm_unshare n va s = (r, x) \<Longrightarrow> sched_of x = sched_of s"
    by (auto simp: shm_unshare_def Let_def put split: option.splits if_splits sum.splits prod.splits dest!: rev)
qed

lemma sched_of_mmio: "mmio_syscall_isr co s = (r, co', x) \<Longrightarrow> sched_of x = sched_of s"
proof -
  have put: "sched_of (put_space p vo m s) = sched_of s" if "vmm_unmap_fixed (Some (space (pcb_at s p))) va k (mem s) = (q, vo, m)"
    for p va k q vo m using unmap_fixed_frame [OF that] by (simp add: put_space_same)
  show "mmio_syscall_isr co s = (r, co', x) \<Longrightarrow> sched_of x = sched_of s"
    by (auto simp: mmio_syscall_isr_def mmio_exec_def Let_def put split: option.splits if_splits prod.splits dest!: sched_of_map_fixed)
qed

lemma sched_of_heaps: "sched_of (s\<lparr>mem := (mem s)\<lparr>heaps_of := H\<rparr>\<rparr>) = sched_of s"
  by (rule sched_of_mem) simp

section \<open>Inside a gate\<close>

text \<open>In a gate: well formed, and committing sets the processor to the running thread.\<close>

definition in_gate :: "sched \<Rightarrow> bool" where
  "in_gate a \<longleftrightarrow> sched_ok a \<and> pending_ok a"

lemma commit_done: "in_gate a \<Longrightarrow> sched_ok (a_commit a) \<and> committed (a_commit a)"
  by (simp add: in_gate_def a_commit_ok pending_commit)

lemma in_gateI: "sched_ok a \<Longrightarrow> committed a \<Longrightarrow> in_gate a"
  by (simp add: in_gate_def committed_pending)

lemma wakes_in_gate: "in_gate a \<Longrightarrow> wakes a b \<Longrightarrow> in_gate b"
  using wakes_ok wakes_pending by (auto simp: in_gate_def)

lemma committed_goal: "committed a \<Longrightarrow> goal_dir a = None"
  by (simp add: committed_def)

lemma at_rest_gate: "at_rest s \<Longrightarrow> in_gate (sched_of s)"
  by (simp add: at_rest_def in_gateI)

section \<open>Semaphores\<close>

text \<open>Only the values and the list of the semaphores differ.\<close>

definition sems_only :: "sched \<Rightarrow> sched \<Rightarrow> bool" where
  "sems_only a b \<longleftrightarrow> (\<exists>x y. b = a\<lparr>sems := x, sem_list := y\<rparr>)"

lemma sems_refl [simp]: "sems_only a a"
  unfolding sems_only_def by (intro exI [of _ "sems a"] exI [of _ "sem_list a"]) simp

lemma sems_trans: "sems_only a b \<Longrightarrow> sems_only b c \<Longrightarrow> sems_only a c"
  unfolding sems_only_def by (elim exE) (rule exI, rule exI, simp)

lemma sems_update [simp]: "sems_only a (a\<lparr>sems := x\<rparr>)" "sems_only a (a\<lparr>sem_list := y\<rparr>)"
  unfolding sems_only_def
  by (rule exI [of _ x], rule exI [of _ "sem_list a"], simp) (rule exI [of _ "sems a"], rule exI [of _ y], simp)

lemma sems_ok: "sems_only a b \<Longrightarrow> sched_ok b \<longleftrightarrow> sched_ok a"
  by (auto simp: sems_only_def)

lemma sems_in_gate: "sems_only a b \<Longrightarrow> in_gate a \<Longrightarrow> in_gate b"
  using sems_ok pending_cong [of a b] by (auto simp: in_gate_def sems_only_def)

text \<open>A thread that waits on a semaphore waits on a block in use, so a new semaphore has no waiters.\<close>

definition waits_live :: "kernel \<Rightarrow> bool" where
  "waits_live s \<longleftrightarrow> kheap_ok (heaps_of (mem s)) \<and>
     (\<forall>u\<in>set (thread_head s). \<forall>q. waiting_on (tcb_at s u) = Some (Sem_wq q) \<longrightarrow> q \<in> klive (heaps_of (mem s)))"

lemma waits_live_grew:
  assumes "waits_live s" and "sched_of x = sched_of s" and "heap_grew (mem s) (mem x)"
  shows "waits_live x"
proof -
  have "thread_head x = thread_head s" "waiting_on (tcb_at x u) = waiting_on (tcb_at s u)" for u
    using arg_cong [OF assms(2), of threads] arg_cong [OF assms(2), of "\<lambda>a. c_wait (core a u)"] by simp_all
  then show ?thesis using assms(1,3) by (auto simp: waits_live_def heap_grew_def)
qed

lemma sem_create_sched:
  assumes ok: "sched_ok (sched_of s)" and live: "waits_live s" and call: "semaphore_create v s = (so, s')"
  shows "sems_only (sched_of s) (sched_of s')"
proof -
  obtain r s1 where k: "kmalloc_k sizeof_semaphore s = (r, s1)" by fastforce
  note kf = alloc_frame [OF k]
  show ?thesis
  proof (cases r)
    case None
    then show ?thesis using call k kf(1) by (auto simp: semaphore_create_def)
  next
    case (Some p)
    obtain l s2 where l: "lock_alloc_k s1 = (l, s2)" by fastforce
    have e: "sched_of s2 = sched_of s" using lock_frame(1) [OF l] kf(1) by simp
    have "p \<notin> klive (heaps_of (mem s))" using kf(4) [of p] live Some by (simp add: waits_live_def)
    then have "u \<notin> set (queue (sched_of s) (Sem_wq p))" for u
      using queue_mem(1) [OF ok, of u "Sem_wq p"] live by (auto simp: waits_live_def)
    then have "queue (sched_of s) (Sem_wq p) = []" by (metis list.set_intros(1) neq_Nil_conv)
    then have q: "(sched_of s)\<lparr>queue := (queue (sched_of s))(Sem_wq p := [])\<rparr> = sched_of s"
        "waiters (wq_at s2 (Sem_wq p)) = []"
      using arg_cong [OF e, of "\<lambda>a. queue a (Sem_wq p)"] by (simp_all add: fun_upd_idem)
    have w: "wait_queue_init (Sem_wq p) s1 = (if l = None then (E_LIMIT, set_wq (Sem_wq p) (\<lambda>q. q\<lparr>wq_lock := l\<rparr>) s2)
        else (0, set_wq (Sem_wq p) (\<lambda>q. q\<lparr>waiters := []\<rparr>) (set_wq (Sem_wq p) (\<lambda>q. q\<lparr>wq_lock := l\<rparr>) s2)))"
      by (simp add: wait_queue_init_def l Let_def)
    have g: "sched_of (set_sem p f x) = (sched_of x)\<lparr>sems := (sems (sched_of x))(p := f (sems (sched_of x) p))\<rparr>"
        "sched_of (x\<lparr>semaphore_head := h\<rparr>) = (sched_of x)\<lparr>sem_list := h\<rparr>" "sched_of (x\<lparr>next_sem := n\<rparr>) = sched_of x" for f x h n
      by (simp_all add: sched_of_def set_sem_def)
    have e1: "sched_of (set_wq (Sem_wq p) (\<lambda>q. q\<lparr>wq_lock := k\<rparr>) s2) = sched_of s"
        "sched_of (set_wq (Sem_wq p) (\<lambda>q. q\<lparr>waiters := []\<rparr>) (set_wq (Sem_wq p) (\<lambda>q. q\<lparr>wq_lock := k\<rparr>) s2)) = sched_of s" for k
      using q by (simp_all add: e)
    have "E_LIMIT \<noteq> 0" by (simp add: E_LIMIT_def)
    then show ?thesis
      using call unfolding semaphore_create_def k Some option.case prod.case w
      by (cases "l = None") (auto simp: g e1 Let_def simp del: sched_of_set_wq intro: sems_trans [OF sems_update(1) sems_update(2)])
  qed
qed

lemma sem_destroy_sched: "sems_only (sched_of s) (sched_of (snd (semaphore_destroy po s)))"
  by (simp add: semaphore_destroy_def Let_def split: option.splits)

lemma sem_signal_gate:
  assumes "in_gate (sched_of s)"
  shows "in_gate (sched_of (snd (semaphore_signal n s)))"
proof (cases "semaphore_get n s")
  case None
  then show ?thesis using assms by (simp add: semaphore_signal_def)
next
  case (Some p)
  have "in_gate (sem_put p v (sched_of s))" for v
    using assms by (rule sems_in_gate [rotated]) simp
  then show ?thesis
    using sched_of_sem_signal [OF _ Some] assms wakes_in_gate [OF _ wakes_one] by (simp add: in_gate_def Let_def)
qed

lemma sem_wait_gate:
  assumes "at_rest s"
  shows "in_gate (sched_of (snd (semaphore_wait n s)))"
proof (cases "semaphore_get n s")
  case None
  then show ?thesis using at_rest_gate [OF assms] by (simp add: semaphore_wait_def)
next
  case (Some p)
  obtain c where run: "thread_run s = Some c" using assms by (auto simp: at_rest_def)
  let ?a = "\<lambda>v. sem_put p v (sched_of s)"
  have g: "in_gate (?a v)" for v using at_rest_gate [OF assms] by (rule sems_in_gate [rotated]) simp
  have "goal_dir (?a v) = None" for v using assms committed_goal [of "sched_of s"] by (simp add: at_rest_def)
  then have "in_gate (a_sleep (Sem_wq p) (?a v))" for v
    using g [of v] by (simp add: in_gate_def a_sleep_ok a_sleep_pending)
  then show ?thesis using sched_of_sem_wait [OF _ run Some] assms g by (simp add: at_rest_def Let_def)
qed

section \<open>Portals\<close>

lemma sched_of_portal [simp]:
  "sched_of (set_portal p f s) = sched_of s" "sched_of (set_req r g s) = sched_of s" "sched_of (s\<lparr>portal_header := h\<rparr>) = sched_of s"
  "sched_of (s\<lparr>portal_next_id := n\<rparr>) = sched_of s" "sched_of (s\<lparr>portal_at := a\<rparr>) = sched_of s"
  "mem (set_portal p f s) = mem s" "mem (set_req r g s) = mem s"
  by (simp_all add: sched_of_def set_portal_def set_req_def)

lemma portal_init_gate:
  assumes "at_rest s" and "waits_live s" and "exec_init c s = (r, c', s')"
  shows "in_gate (sched_of s')"
proof -
  obtain q s1 where k: "kmalloc_k sizeof_portal s = (q, s1)" by fastforce
  note kf = alloc_frame [OF k]
  have live: "waits_live x" "sched_ok (sched_of x)" "in_gate (sched_of x)" if "sched_of x = sched_of s" "mem x = mem s1" for x
    using waits_live_grew [OF assms(2) that(1)] kf(3) that assms(1) at_rest_gate [OF assms(1)] by (simp_all add: at_rest_def)
  have make: "in_gate (sched_of y)" if "semaphore_create v x = (so, y)" "sched_of x = sched_of s" "mem x = mem s1" for v x so y
    using sems_in_gate [OF sem_create_sched [OF live(2,1) that(1)] live(3)] that(2,3) by blast
  have g: "in_gate (sched_of s)" by (rule at_rest_gate [OF assms(1)])
  show ?thesis
    using assms(3) k kf(1) g
    by (auto simp: exec_init_def Let_def split: option.splits if_splits prod.splits dest!: make)
qed

lemma portal_destroy_gate:
  assumes "in_gate (sched_of s)" and "exec_destroy c s = (r, c', s')"
  shows "in_gate (sched_of s')"
proof -
  let ?f = "\<lambda>r s. kfree_k r (if done_sem (req_at s r) \<noteq> None then snd (semaphore_destroy (done_sem (req_at s r)) s) else s)"
  have "sems_only (sched_of x) (sched_of (fold ?f rs x))" for rs x
  proof (induction rs arbitrary: x)
    case (Cons r rs)
    have "sems_only (sched_of x) (sched_of (?f r x))" using sem_destroy_sched by simp
    then show ?case using sems_trans [OF _ Cons [of "?f r x"]] by simp
  qed simp
  then have "in_gate (sched_of (fold ?f rs s))" for rs using sems_in_gate assms(1) by blast
  then have "in_gate (sched_of (snd (semaphore_destroy po x)))" if "sched_of x = sched_of (fold ?f rs s)" for po x rs
    using sems_in_gate [OF sem_destroy_sched] that by simp
  then show ?thesis
    using assms \<open>\<And>rs. in_gate (sched_of (fold ?f rs s))\<close> by (auto simp: exec_destroy_def Let_def split: option.splits if_splits)
qed

lemma portal_call_gate:
  assumes "at_rest s" and "waits_live s" and "exec_call c s = (r, c', s')"
  shows "in_gate (sched_of s')"
proof (cases "portal_get_by_id (po_server c) s")
  case None
  then show ?thesis using assms(3) at_rest_gate [OF assms(1)] by (simp add: exec_call_def)
next
  case (Some p)
  let ?srv = "po_pid (portal_at s p)"
  obtain ret out s1 where sh: "shm_share ?srv (po_va c) (po_va_size c) (po_out c) s = (ret, out, s1)" by (metis prod_cases3)
  note e1 = sched_of_share [OF sh]
  obtain q s2 where k: "kmalloc_k sizeof_portal_req s1 = (q, s2)" by fastforce
  note kf = alloc_frame [OF k]
  have g: "in_gate (sched_of s)" by (rule at_rest_gate [OF assms(1)])
  have un: "sched_of (snd (shm_unshare n va x)) = sched_of x" for n va x using sched_of_unshare [of n va x] by (meson surjective_pairing)
  have make: "in_gate (sched_of y)" if "semaphore_create v x = (so, y)" "sched_of x = sched_of s" "mem x = mem s2" "ret = 0" for v x so y
  proof -
    have "heap_grew (mem s) (mem x)" using heap_grew_trans [OF _ kf(3)] e1 that(3,4) by simp
    then have "waits_live x" "sched_ok (sched_of x)" using waits_live_grew [OF assms(2) that(2)] that(2) assms(1) by (simp_all add: at_rest_def)
    then show ?thesis using sems_in_gate [OF sem_create_sched [OF _ _ that(1)]] g that(2) by simp
  qed
  have sig: "in_gate (sched_of (snd (semaphore_signal n x)))" if "sched_of x = sched_of y" "in_gate (sched_of y)" for n x y
    using sem_signal_gate [of x n] that by simp
  show ?thesis
    using assms(3) Some sh k e1 kf(1) g unfolding exec_call_def
    by (auto simp: Let_def un split: option.splits if_splits prod.splits dest!: make intro: sig)
qed

lemma portal_cleanup_gate:
  assumes "in_gate (sched_of s)" and "exec_cleanup c s = (r, c', s')"
  shows "in_gate (sched_of s')"
proof -
  have un: "sched_of x = sched_of s" if "shm_unshare n va s = (q, x)" for n va q x by (rule sched_of_unshare [OF that])
  have d: "in_gate (sched_of (snd (semaphore_destroy po x)))" if "sched_of x = sched_of s" for po x
    using sems_in_gate [OF sem_destroy_sched] assms(1) that by simp
  show ?thesis
    using assms by (auto simp: exec_cleanup_def Let_def d split: option.splits if_splits prod.splits dest: un)
qed

text \<open>Every portal system call of a running thread; creating a semaphore needs an intact heap.\<close>

lemma portal_in_gate:
  assumes s: "at_rest s" and live: "po_cmd c \<in> {PORTAL_CTRL_INIT, PORTAL_CTRL_CALL} \<Longrightarrow> waits_live s"
    and call: "portal_syscall_isr c s = (r, c', s')"
  shows "in_gate (sched_of s')"
proof -
  note g = at_rest_gate [OF s]
  have w: "in_gate (sched_of s')" if "exec_wait_reply c s = (r, c', s')" for r c'
    using that g sem_wait_gate [OF s] by (auto simp: exec_wait_reply_def split: option.splits if_splits)
  have q: "in_gate (sched_of s')" if "exec_get_req c s = (r, c', s')" for r c'
    using that g by (auto simp: exec_get_req_def Let_def split: option.splits list.splits)
  have y: "in_gate (sched_of s')" if "exec_reply c s = (r, c', s')" for r c'
    using that g sem_signal_gate by (auto simp: exec_reply_def Let_def split: option.splits if_splits)
  have "in_gate (sched_of s')" if "portal_exec c s = (r, c', s')" for r c'
    using that g portal_init_gate [OF s live] portal_destroy_gate [OF g] portal_call_gate [OF s live] portal_cleanup_gate [OF g] w q y sem_wait_gate [OF s]
    unfolding portal_exec_def by (auto split: if_splits option.splits)
  then show ?thesis using call g by (auto simp: portal_syscall_isr_def split: option.splits if_splits)
qed

end
