(* ===== verification/Gates.thy ===== *)
theory Gates
  imports Syscall Calls
begin

text \<open>
  The gates into the kernel (\<^verbatim>\<open>arch/i386/irq.S\<close>): every entry runs one handler with interrupts off and commits
  the switch the handler may have requested on the way out.  The steps a running system can take through
  them keep the scheduler's state well formed and the processor set to the running thread.
\<close>

section \<open>Entry and exit\<close>

text \<open>
  The frame an entry from kernel code leaves on the stack of the running thread becomes its saved frame; \<open>esp\<close>
  is where it lies.  An entry from user mode pushes its frame where the context points already.
\<close>

definition save_regs :: "ptr option \<Rightarrow> kernel \<Rightarrow> kernel" where
  "save_regs esp s =
     (case (esp, curr_task_ctx s) of
        (Some a, Some t) \<Rightarrow> set_ctx t (\<lambda>c. c\<lparr>ctx_regs := a\<rparr>) s
      | _ \<Rightarrow> s)"

text \<open>
  An interrupt: the line is masked while its handlers run; the acknowledgement sent to the interrupt controller
  is port output and not part of the state.  \<open>cnt\<close> is the re-entry counter before the entry, -1
  when the kernel was idle; an entry from inside another gate runs no handler.
\<close>

definition interrupt_gate :: "(kernel \<Rightarrow> kernel) \<Rightarrow> u16 \<Rightarrow> ptr option \<Rightarrow> int \<Rightarrow> kernel \<Rightarrow> kernel" where
  "interrupt_gate handler irq_no esp cnt s =
     (let s = save_regs esp s;
          s = s\<lparr>pic_of := arch_mask_irq irq_no (pic_of s)\<rparr>;
          s = (if cnt + 1 = 0 then handler s else s);
          s = s\<lparr>pic_of := arch_unmask_irq irq_no (pic_of s)\<rparr>
      in arch_task_context_switch s)"

text \<open>
  The end of a system call: the result goes into the frame of the caller, unless the caller has been switched
  away from or its context is gone; then a pending switch is committed.
\<close>

definition park_result :: "ptr option \<Rightarrow> int \<Rightarrow> kernel \<Rightarrow> kernel" where
  "park_result esi ret s =
     (case esi of
        None \<Rightarrow> s
      | Some t \<Rightarrow>
          if curr_task_ctx s \<noteq> Some t then s
          else let va = ctx_regs (task_ctx (tcb_at s t)); a = frame_addr s va in
            if va = 0 then s else s\<lparr>frames := (frames s)(a := (frames s a)\<lparr>r_eax := of_int ret\<rparr>)\<rparr>)"

definition syscall_gate :: "(kernel \<Rightarrow> int \<times> kernel) \<Rightarrow> ptr option \<Rightarrow> int \<Rightarrow> kernel \<Rightarrow> kernel" where
  "syscall_gate dispatch esp cnt s =
     (let s = save_regs esp s in
      if cnt + 1 = 0
      then let esi = curr_task_ctx s; (ret, s) = dispatch s in arch_task_context_switch (park_result esi ret s)
      else arch_task_context_switch s)"

lemma sched_of_save [simp]: "sched_of (save_regs esp s) = sched_of s"
  by (simp add: save_regs_def split: option.splits)

lemma save_regs_other:
  "irq_at (save_regs esp s) = irq_at s" "line_at (save_regs esp s) = line_at s" "irqlines (save_regs esp s) = irqlines s"
  by (simp_all add: save_regs_def set_ctx_def set_tcb_def split: option.splits)

lemma sched_of_park [simp]: "sched_of (park_result esi ret s) = sched_of s"
  by (simp add: park_result_def Let_def split: option.splits)

lemma sched_of_interrupt:
  "sched_of (interrupt_gate h n esp cnt s) =
   a_commit (sched_of (if cnt + 1 = 0 then h ((save_regs esp s)\<lparr>pic_of := arch_mask_irq n (pic_of (save_regs esp s))\<rparr>) else s))"
  by (simp add: interrupt_gate_def sched_of_commit Let_def)

lemma sched_of_syscall:
  "f (save_regs esp s) = (ret, s') \<Longrightarrow>
   sched_of (syscall_gate f esp cnt s) = a_commit (if cnt + 1 = 0 then sched_of s' else sched_of s)"
  by (simp add: syscall_gate_def sched_of_commit Let_def)

section \<open>Steps of a running system\<close>

text \<open>
  What the kernel's own interrupt handlers do.  The one the kernel registers is the scheduler's, at the address
  \<open>tick\<close>; a line may carry it once.  Any other leaves the registrations alone and changes the scheduler at most
  by waking threads, as sending mail does.
\<close>

definition isrs_ok :: "ptr \<Rightarrow> (ptr \<Rightarrow> ptr \<Rightarrow> kernel \<Rightarrow> kernel) \<Rightarrow> u32 \<Rightarrow> kernel \<Rightarrow> bool" where
  "isrs_ok tick isr mj s \<longleftrightarrow>
     (\<forall>c x. isr tick c x = schedule_isr x) \<and>
     (\<forall>h c x. h \<noteq> tick \<longrightarrow> sched_ok (sched_of x) \<longrightarrow> irq_at (isr h c x) = irq_at x \<and> wakes (sched_of x) (sched_of (isr h c x))) \<and>
     (\<forall>line. irqlines s (unat mj) = Some line \<longrightarrow>
        length (filter (\<lambda>p. irq_handler (irq_at s p) = tick) (line_irqs (line_at s line))) \<le> 1)"

text \<open>
  Handles a caller passes in name objects of their kind: an interrupt of some line, and a portal request that is
  queued or has been handed to its server.  (The code does not check this: a forged handle is used as a pointer.)
\<close>

definition irq_known :: "kernel \<Rightarrow> ptr \<Rightarrow> bool" where
  "irq_known s p \<longleftrightarrow> (\<exists>n line. irqlines s n = Some line \<and> p \<in> set (line_irqs (line_at s line)))"

definition request_known :: "kernel \<Rightarrow> ptr \<Rightarrow> bool" where
  "request_known s r \<longleftrightarrow> dequeued (req_at s r) \<or> (\<exists>p\<in>set (portal_header s). r \<in> set (po_reqs (portal_at s p)))"

text \<open>
  The steps: an interrupt, through the handlers of its line, and the seven system calls, each entered idle or from
  inside a gate, from user mode or from the kernel.  Creating threads, processes, mailboxes and portals needs an
  intact kernel heap that holds the blocks in use, and fresh numbers (\<open>can_create\<close>, \<open>can_spawn\<close>, \<open>blocks_live\<close>,
  \<open>waits_live\<close>).  A mailbox call names no mailbox or comes from a user process, whose mailbox argument the handler
  refuses.
\<close>

inductive gate :: "kernel \<Rightarrow> kernel \<Rightarrow> bool" where
  interrupt: "isrs_ok tick isr (ucast irq_no) s \<Longrightarrow> gate s (interrupt_gate (irqline_handler isr (ucast irq_no)) irq_no esp cnt s)"
| proc_call: "x = save_regs esp s \<Longrightarrow> thread_run x = Some t \<Longrightarrow> proc_syscall_isr img c x = Some (r, c', s') \<Longrightarrow>
    (pc_cmd c = THREAD_CTRL_CREATE \<Longrightarrow> can_create x) \<Longrightarrow>
    (pc_cmd c \<in> {PROC_CTRL_CREATE, PROC_CTRL_LOAD_FROM_ELF} \<Longrightarrow> can_spawn x) \<Longrightarrow> gate s (syscall_gate (\<lambda>_. (r, s')) esp cnt s)"
| mail_call: "x = save_regs esp s \<Longrightarrow> thread_run x = Some t \<Longrightarrow> mailbox_syscall_isr c x = (c', s') \<Longrightarrow>
    mc_mb c = None \<or> (\<exists>p. get_current_process x = Some p \<and> priv (pcb_at x p) \<noteq> PROC_PRIV_KERNEL) \<Longrightarrow>
    (mc_cmd c = MAILBOX_CTRL_ALLOC \<Longrightarrow> blocks_live x) \<Longrightarrow> gate s (syscall_gate (\<lambda>_. (mc_ret c', s')) esp cnt s)"
| irq_call: "irq_syscall_isr c (save_regs esp s) = (c', s') \<Longrightarrow>
    ic_cmd c = IRQ_SYSCALL_REQUEST \<or> (\<forall>p. ic_handle c = Some p \<longrightarrow> irq_known s p) \<Longrightarrow>
    gate s (syscall_gate (\<lambda>_. (ic_ret c', s')) esp cnt s)"
| portal_call: "x = save_regs esp s \<Longrightarrow> thread_run x = Some t \<Longrightarrow> portal_syscall_isr c x = (r, c', s') \<Longrightarrow>
    (\<forall>p. po_req c = Some p \<longrightarrow> request_known x p) \<Longrightarrow>
    (po_cmd c \<in> {PORTAL_CTRL_INIT, PORTAL_CTRL_CALL} \<Longrightarrow> waits_live x) \<Longrightarrow> gate s (syscall_gate (\<lambda>_. (r, s')) esp cnt s)"
| heap_call: "x = save_regs esp s \<Longrightarrow> heap_syscall_isr data (heaps_of (mem x)) = Some (r, data', H) \<Longrightarrow>
    gate s (syscall_gate (\<lambda>_. (r, x\<lparr>mem := (mem x)\<lparr>heaps_of := H\<rparr>\<rparr>)) esp cnt s)"
| io_call: "x = save_regs esp s \<Longrightarrow> io_syscall_isr dev c x = (acc, c') \<Longrightarrow> gate s (syscall_gate (\<lambda>_. (io_ret c', x)) esp cnt s)"
| mmio_call: "mmio_syscall_isr data (save_regs esp s) = (r, data', s') \<Longrightarrow> gate s (syscall_gate (\<lambda>_. (r, s')) esp cnt s)"

section \<open>What each step keeps\<close>

lemma committed_switch: "committed (sched_of s) \<Longrightarrow> switch_vcb s = None"
  using committed_goal [of "sched_of s"] by simp

lemma tick_in_gate:
  assumes "in_gate (sched_of s)" and "goal_dir (sched_of s) = None"
  shows "in_gate (sched_of (schedule_isr s))"
  using sched_of_tick [of s] assms a_yield_ok [of "sched_of s"] a_yield_pending [of "sched_of s"] by (auto simp: in_gate_def)

lemma wakes_goal: "wakes a b \<Longrightarrow> goal_dir b = goal_dir a"
proof -
  have "goal_dir (fold a_wake_one qs a) = goal_dir a" for qs
    by (induction qs arbitrary: a)
      (simp_all add: a_wake_one_def a_unblock_def a_dequeue_def split: list.splits option.splits)
  then show "wakes a b \<Longrightarrow> goal_dir b = goal_dir a" by (auto simp: wakes_def)
qed

text \<open>Delivering mail and switching threads leave the registrations of interrupts alone.\<close>

lemma irq_at_basic [simp]:
  "irq_at (set_tcb t f s) = irq_at s" "irq_at (set_wq q g s) = irq_at s" "irq_at (set_mb b h s) = irq_at s" "irq_at (set_meta m k s) = irq_at s"
  "irq_at (kfree_k p s) = irq_at s" "irq_at (free_k p s) = irq_at s" "irq_at (lock_release_k l s) = irq_at s"
  "irq_at (thread_unblock_internal n s) = irq_at s" "irq_at (run_handlers mb m s) = irq_at s"
proof -
  have "irq_at (fold (\<lambda>(mh, h) s. if h \<noteq> 0 then s\<lparr>calls := (h, m) # calls s\<rparr> else s) hs x) = irq_at x" for hs x
    by (induction hs arbitrary: x) auto
  then show "irq_at (run_handlers mb m s) = irq_at s" by (simp add: run_handlers_def)
qed (simp_all add: set_tcb_def set_wq_def set_mb_def set_meta_def kfree_k_def free_k_def lock_release_k_def thread_unblock_internal_def
    thread_unblock_locked_def split: option.splits)

lemma irq_at_allocs:
  "malloc_k n s = (r, x) \<Longrightarrow> irq_at x = irq_at s" "kmalloc_k n s = (r, x) \<Longrightarrow> irq_at x = irq_at s" "lock_alloc_k s = (l, x) \<Longrightarrow> irq_at x = irq_at s"
  by (auto simp: malloc_k_def kmalloc_k_def lock_alloc_k_def split: prod.splits option.splits)

lemma irq_at_release_mail [simp]: "irq_at (release_mail m s) = irq_at s"
  by (simp add: release_mail_def Let_def split: option.splits)

lemma irq_at_wake [simp]: "irq_at (wait_queue_wake_one q s) = irq_at s"
  by (simp add: wait_queue_wake_one_def wake_waiter_def Let_def split: option.splits)

lemma irq_at_send_mail [simp]: "irq_at (snd (send_mail mb m s)) = irq_at s"
  by (simp add: send_mail_def split: option.splits)

lemma irq_at_alloc_mail: "alloc_mail s = (r, x) \<Longrightarrow> irq_at x = irq_at s"
  by (auto simp: alloc_mail_def Let_def split: prod.splits option.splits if_splits dest!: irq_at_allocs)

lemma irq_at_dispatch [simp]: "irq_at (dispatch_user_mode_irq p s) = irq_at s"
  by (auto simp: dispatch_user_mode_irq_def Let_def split: option.splits prod.splits dest: irq_at_alloc_mail)

lemma irq_at_tick [simp]: "irq_at (schedule_isr s) = irq_at s"
proof -
  have "irq_at x = irq_at s" if "find_next_runnable c s = (r, x)" for c r x s
    using that by (auto simp: find_next_runnable_def split: option.splits)
  then have "irq_at (snd (schedule_if_needed s)) = irq_at s" for s
    by (auto simp: schedule_if_needed_def switch_to_def request_switch_context_def Let_def split: option.splits prod.splits)
  then show ?thesis by (auto simp: schedule_isr_def Let_def split: prod.splits)
qed

text \<open>One handler of a line: all but the scheduler's leave a pending switch as it is.\<close>

abbreviation serve :: "(ptr \<Rightarrow> ptr \<Rightarrow> kernel \<Rightarrow> kernel) \<Rightarrow> ptr \<Rightarrow> kernel \<Rightarrow> kernel" where
  "serve isr p s \<equiv> if \<not> enabled (irq_at s p) then s
     else if is_user_irq (irq_at s p) then dispatch_user_mode_irq p s
     else isr (irq_handler (irq_at s p)) (irq_context (irq_at s p)) s"

lemma serve_in_gate:
  assumes tick: "\<And>c x. isr tick c x = schedule_isr x"
    and other: "\<And>h c x. h \<noteq> tick \<Longrightarrow> sched_ok (sched_of x) \<Longrightarrow> irq_at (isr h c x) = irq_at x \<and> wakes (sched_of x) (sched_of (isr h c x))"
  shows "in_gate (sched_of x) \<Longrightarrow> length (filter (\<lambda>p. irq_handler (irq_at x p) = tick) ps) \<le> (if goal_dir (sched_of x) = None then 1 else 0) \<Longrightarrow>
    in_gate (sched_of (fold (serve isr) ps x))"
proof (induction ps arbitrary: x)
  case (Cons p ps)
  have ok: "sched_ok (sched_of x)" using Cons.prems(1) by (simp add: in_gate_def)
  let ?h = "irq_handler (irq_at x p)" and ?y = "serve isr p x"
  have ia: "irq_at ?y = irq_at x" using tick other [OF _ ok, of ?h] by (cases "?h = tick") auto
  show ?case
  proof (cases "?h = tick")
    case True
    then have goal: "goal_dir (sched_of x) = None" and rest: "filter (\<lambda>q. irq_handler (irq_at x q) = tick) ps = []"
      using Cons.prems(2) by (auto split: if_splits)
    have "in_gate (sched_of ?y)"
      using Cons.prems(1) wakes_in_gate [OF Cons.prems(1) wakes_dispatch [OF ok]] tick_in_gate [OF Cons.prems(1) goal] tick True by auto
    then show ?thesis using Cons.IH [of ?y] rest ia by simp
  next
    case False
    then have w: "wakes (sched_of x) (sched_of ?y)" using wakes_dispatch [OF ok] other [OF False ok] by simp
    then show ?thesis
      using Cons.IH [of ?y] Cons.prems wakes_in_gate [OF Cons.prems(1) w] wakes_goal [OF w] ia False by (simp del: sched_of_fields)
  qed
qed simp

lemma handler_in_gate:
  assumes "isrs_ok tick isr mj s" and "in_gate (sched_of s)" and "goal_dir (sched_of s) = None"
  shows "in_gate (sched_of (irqline_handler isr mj s))"
proof (cases "irqlines s (unat mj)")
  case None
  then show ?thesis using assms(2) by (simp add: irqline_handler_def)
next
  case (Some line)
  then show ?thesis
    using assms serve_in_gate [of isr tick s "line_irqs (line_at s line)"] by (simp add: irqline_handler_def isrs_ok_def)
qed

lemma listen_in_gate:
  assumes ok: "sched_ok (sched_of s)" "committed (sched_of s)" and run: "thread_run s = Some t" and mb: "mc_mb c = None"
  shows "in_gate (sched_of (snd (exec_listen_block c s)))"
proof -
  have "thread_get_by_tid (thread_get_tid s) s = Some t"
    using by_tid_of [OF ok(1) running_thread [OF ok(1)], of t] run by (simp add: thread_get_by_tid_eq thread_get_tid_def)
  then have own: "mc_mb (own_mailbox c s) = t_mailbox (tcb_at s t)" using mb by (simp add: own_mailbox_def)
  have "in_gate (a_sleep (Mb_wq b) (sched_of s))" if "t_mailbox (tcb_at s t) = Some b" for b
    using that run ok committed_pending [OF ok(2)] committed_goal [OF ok(2)]
    by (auto simp: in_gate_def intro!: a_sleep_ok a_sleep_pending)
  then show ?thesis
    using in_gateI [OF ok] sched_of_sleep [OF ok(1) run] by (auto simp: exec_listen_block_def own Let_def split: option.splits)
qed

lemma mail_exec_in_gate:
  assumes ok: "sched_ok (sched_of s)" "committed (sched_of s)" and run: "thread_run s = Some t" and mb: "mc_mb c = None"
    and live: "mc_cmd c = MAILBOX_CTRL_ALLOC \<Longrightarrow> blocks_live s"
  shows "in_gate (sched_of (snd (mailbox_exec c s)))"
proof -
  have g: "in_gate (sched_of s)" by (rule in_gateI [OF ok])
  have send: "in_gate (sched_of (snd (send (mc_m c) s)))" by (rule wakes_in_gate [OF g wakes_send [OF ok(1)]])
  have get: "sched_of (snd (try_get_mail b s)) = sched_of s" for b by (simp add: try_get_mail_def Let_def split: option.splits)
  have alloc: "sched_of x = sched_of s" if a: "alloc_mailbox p n s = (b, x)" and l: "blocks_live s" for p n b x
  proof (cases b)
    case None
    then show ?thesis using alloc_mailbox_frame(1) [OF a] by simp
  next
    case (Some y)
    then have "\<forall>u\<in>set (threads (sched_of s)). c_mbox (core (sched_of s) u) \<noteq> Some y"
      using alloc_mailbox_frame(3) [OF a] l by (auto simp: blocks_live_def)
    then show ?thesis using no_waiters [OF ok(1)] alloc_mailbox_frame(1) [OF a] Some by simp
  qed
  then have alloc': "blocks_live s \<Longrightarrow> sched_of (snd (alloc_mailbox p n s)) = sched_of s" for p n by (metis surjective_pairing)
  have sub: "sched_of (snd (exec_subscribe c s)) = sched_of s" "sched_of (snd (exec_unsubscribe c s)) = sched_of s"
    by (simp_all add: exec_subscribe_def exec_unsubscribe_def Let_def split: option.splits)
  show ?thesis
    using g send listen_in_gate [OF ok run mb] sub live mb
    by (auto simp: mailbox_exec_def Let_def get alloc' register_handler_def unregister_handler_def release_mailbox_def case_prod_beta
        split: if_splits option.splits)
qed

lemma delete_in_gate:
  "sched_ok (sched_of s) \<Longrightarrow> committed (sched_of s) \<Longrightarrow> in_gate (sched_of (thread_delete_internal n s))"
  by (simp add: in_gate_def sched_of_delete a_delete_ok a_delete_pending committed_pending committed_switch)

lemma block_in_gate:
  "sched_ok (sched_of s) \<Longrightarrow> committed (sched_of s) \<Longrightarrow> in_gate (sched_of (thread_block_internal n s))"
  "sched_ok (sched_of s) \<Longrightarrow> committed (sched_of s) \<Longrightarrow> in_gate (sched_of (thread_unblock_internal n s))"
  "sched_ok (sched_of s) \<Longrightarrow> committed (sched_of s) \<Longrightarrow> in_gate (sched_of (thread_yield_internal s))"
  by (simp_all add: in_gate_def sched_of_block sched_of_unblock_locked sched_of_yield thread_unblock_internal_def a_block_ok
      a_block_pending a_unblock_ok a_unblock_pending a_yield_ok a_yield_pending committed_pending committed_switch)

lemma proc_block_in_gate:
  "sched_ok (sched_of s) \<Longrightarrow> committed (sched_of s) \<Longrightarrow> in_gate (sched_of (proc_block_internal n s))"
  "sched_ok (sched_of s) \<Longrightarrow> committed (sched_of s) \<Longrightarrow> in_gate (sched_of (proc_unblock_internal n s))"
  by (simp_all add: in_gate_def proc_block_internal_def proc_unblock_internal_def Let_def sched_of_states a_states_ok
      a_states_pending committed_pending split: option.splits)

lemma create_in_gate:
  assumes s: "at_rest s" and run: "thread_run s = Some t" and cc: "can_create s"
    and c: "t_create (Some (parent (tcb_at s t))) pv pc param s = (r, s')"
  shows "in_gate (sched_of s')"
proof -
  have "t \<in> set (threads (sched_of s))" using running_thread [of "sched_of s"] s run by (simp add: at_rest_def)
  then have "parent (tcb_at s t) \<in> set (proc_head s)" using s by (auto simp: at_rest_def sched_ok_def procs_ok_def)
  from create_at_rest [OF s cc this c [unfolded t_create_def]] show ?thesis using at_rest_gate by blast
qed

lemma proc_call_in_gate:
  assumes s: "at_rest s"
    and c: "pc_cmd c = THREAD_CTRL_CREATE \<Longrightarrow> can_create s" "pc_cmd c \<in> {PROC_CTRL_CREATE, PROC_CTRL_LOAD_FROM_ELF} \<Longrightarrow> can_spawn s"
    and call: "proc_syscall_isr img c s = Some (r, c', s')"
  shows "in_gate (sched_of s')"
proof (cases "s' = s")
  case True
  then show ?thesis using at_rest_gate [OF s] by simp
next
  case False
  then have x: "proc_syscall_exec img c s = Some (c', s')"
    using call by (auto simp: proc_syscall_isr_def Let_def split: if_splits)
  have ok: "sched_ok (sched_of s)" "committed (sched_of s)" using s by (simp_all add: at_rest_def)
  have thread: "in_gate (sched_of y)"
    if "pc_cmd c = THREAD_CTRL_CREATE" "thread_run s = Some t" "t_create (Some (parent (tcb_at s t))) pv pc param s = (q, y)" for t pv pc param q y
    using create_in_gate [OF s that(2) c(1) that(3)] that(1) by blast
  have proc: "in_gate (sched_of y)" if "pc_cmd c = PROC_CTRL_CREATE" "proc_create_internal pv pc param s = (q, y)" for pv pc param q y
    using at_rest_gate [OF spawn_at_rest [OF s c(2)]] that by (simp add: proc_create_internal_def)
  have load: "in_gate (sched_of y)"
    if "pc_cmd c = PROC_CTRL_LOAD_FROM_ELF" "proc_load_from_elf_internal img a b param s = Some (q, y)" for a b param q y
    using load_settled [OF s c(2) that(2)] that(1) in_gateI by blast
  have quit: "in_gate (sched_of y)" if "proc_exit_internal n s = Some y" for n y using exit_settled [OF s that] in_gateI by blast
  show ?thesis
    using x at_rest_gate [OF s] thread proc load quit delete_in_gate [OF ok] block_in_gate [OF ok] proc_block_in_gate [OF ok]
    unfolding proc_syscall_exec_def by (auto split: if_splits prod.splits option.splits)
qed

lemma call_done:
  assumes "y = syscall_gate (\<lambda>_. (r, z)) e cnt x" and "in_gate (sched_of z)" and "in_gate (sched_of x)"
  shows "\<exists>a. in_gate a \<and> sched_of y = a_commit a"
  using assms by (cases "cnt + 1 = 0") (auto simp: sched_of_syscall)

lemma rest_saved:
  assumes "sched_ok (sched_of x)" and "committed (sched_of x)" and "w = save_regs esp x" and "thread_run w = Some t"
  shows "at_rest w"
proof -
  have "sched_of w = sched_of x" using assms(3) by simp
  moreover have "running (sched_of w) = Some t" using assms(4) by (simp only: sched_of_fields)
  ultimately show ?thesis using assms(1,2) by (simp add: at_rest_def del: sched_of_fields)
qed

text \<open>Every step ends with the commit of a state that is in order.\<close>

lemma gate_step:
  assumes "gate x y" and ok: "sched_ok (sched_of x)" "committed (sched_of x)"
  shows "\<exists>a. in_gate a \<and> sched_of y = a_commit a"
  using assms(1)
proof cases
  note g = in_gateI [OF ok]
  case (interrupt tick isr n esp cnt)
  let ?w = "(save_regs esp x)\<lparr>pic_of := arch_mask_irq n (pic_of (save_regs esp x))\<rparr>"
  have "isrs_ok tick isr (ucast n) ?w" using interrupt(2) by (simp add: isrs_ok_def save_regs_other)
  then have "in_gate (sched_of (irqline_handler isr (ucast n) ?w))"
    using g committed_goal [OF ok(2)] by (intro handler_in_gate) simp_all
  then show ?thesis using interrupt(1) g by (cases "cnt + 1 = 0") (auto simp: sched_of_interrupt)
next
  note g = in_gateI [OF ok]
  case (proc_call w esp t img c r c' z cnt)
  from call_done [OF proc_call(1) proc_call_in_gate [OF rest_saved [OF ok proc_call(2,3)] proc_call(5,6,4)] g] show ?thesis by blast
next
  note g = in_gateI [OF ok]
  case (mail_call w esp t c c' z cnt)
  have "sched_ok (sched_of w)" "committed (sched_of w)" using ok mail_call(2) by simp_all
  then have "in_gate (sched_of z)"
    using mail_call in_gateI [of "sched_of w"] mail_exec_in_gate [OF _ _ mail_call(3), of c]
    by (auto simp: mailbox_syscall_isr_def split: if_splits option.splits)
  from call_done [OF mail_call(1) this g] show ?thesis .
next
  note g = in_gateI [OF ok]
  case (irq_call c esp c' z cnt)
  then have "sched_of z = sched_of x" using sched_of_irq_syscall [of c "save_regs esp x"] by simp
  then show ?thesis using call_done [OF irq_call(1) _ g] g by simp
next
  note g = in_gateI [OF ok]
  case (portal_call w esp t c r c' z cnt)
  from call_done [OF portal_call(1) portal_in_gate [OF rest_saved [OF ok portal_call(2,3)] portal_call(6,4)] g] show ?thesis by blast
next
  note g = in_gateI [OF ok]
  case (heap_call w esp data r data' H cnt)
  then show ?thesis using call_done [OF heap_call(1) _ g] g by (simp add: sched_of_heaps)
next
  note g = in_gateI [OF ok]
  case (io_call w esp dev c acc c' cnt)
  then show ?thesis using call_done [OF io_call(1) _ g] g by simp
next
  note g = in_gateI [OF ok]
  case (mmio_call data esp r data' z cnt)
  then have "sched_of z = sched_of x" using sched_of_mmio [of data "save_regs esp x"] by simp
  then show ?thesis using call_done [OF mmio_call(1) _ g] g by simp
qed

text \<open>
  Property C2: the kernel keeps its scheduler in order.  From a well-formed state with the processor set to the
  running thread, every sequence of interrupts and of process, mailbox, interrupt, portal, heap, port and MMIO system
  calls leads to such a state again: the thread and process lists agree with each other and with the wait queues, no
  switch is left pending, and the processor runs in the context of the running thread and in the address space of
  its process.  The steps assume what the relation \<open>gate\<close> spells out: kernel interrupt handlers other than the
  scheduler's at most wake threads; a call that creates something finds the kernel heap intact, with the blocks
  in use in it, and fresh numbers; kernel callers name no mailbox; handles name objects of their kind.  Mail handlers
  are calls without an effect of their own, and a call enters at its handler, behind the copies of \<open>Syscall\<close>.
\<close>

theorem gates_keep_order:
  assumes "gate\<^sup>*\<^sup>* s s'" and "sched_ok (sched_of s)" and "committed (sched_of s)"
  shows "sched_ok (sched_of s') \<and> committed (sched_of s')"
  using assms
proof (induction rule: rtranclp_induct)
  case (step x y)
  then have ok: "sched_ok (sched_of x)" "committed (sched_of x)" by simp_all
  from gate_step [OF \<open>gate x y\<close> this] show ?case using commit_done by auto
qed simp

text \<open>In the example system, with the timer's line set up: the timer ticks, then thread 0 yields.\<close>

definition demo_timer :: "memsys \<Rightarrow> kernel" where
  "demo_timer m = (demo m)\<lparr>irqlines := (\<lambda>_. None)(0x20 := Some 0x600),
     line_at := (\<lambda>_. \<lparr>line_major = 0x20, line_enabled = True, line_lock = None, line_irqs = [0x700]\<rparr>),
     irq_at := (\<lambda>_. \<lparr>irq_name = 0, irq_context = 0, major = 0x20, minor = 0, enabled = True, is_user_irq = False, irq_tid = 0,
       irq_owner = None, irq_lock = None, irq_handler = 0x5000\<rparr>)\<rparr>"

definition demo_isr :: "ptr \<Rightarrow> ptr \<Rightarrow> kernel \<Rightarrow> kernel" where
  "demo_isr h c s = (if h = 0x5000 then schedule_isr s else s)"

definition yield_request :: proc_thread_ctrl_config where
  "yield_request = \<lparr>pc_cmd = THREAD_CTRL_YIELD, pc_pid = 0, pc_tid = 0, pc_priv = 0, pc_entry = 0, pc_elf_start = 0, pc_elf_end = 0, pc_param = 0\<rparr>"

lemma demo_timer_sched: "sched_of (demo_timer m) = sched_of (demo m)"
  by (simp add: demo_timer_def sched_of_def)

lemma demo_tick:
  assumes "y = interrupt_gate (irqline_handler demo_isr 0x20) 0x20 None (- 1) (demo_timer m)"
  shows "gate (demo_timer m) y" "thread_run y = Some 0x100"
proof -
  have "isrs_ok 0x5000 demo_isr (ucast (0x20 :: u16)) (demo_timer m)" by (simp add: isrs_ok_def demo_isr_def demo_timer_def)
  then show "gate (demo_timer m) y" using gate.interrupt [of "0x5000" demo_isr "0x20" "demo_timer m" None "- 1"] assms by simp
  let ?w = "(demo_timer m)\<lparr>pic_of := arch_mask_irq 0x20 (pic_of (demo_timer m))\<rparr>"
  have "irqline_handler demo_isr 0x20 ?w = ?w\<lparr>timeslice := 1\<rparr>"
    by (simp add: irqline_handler_def demo_timer_def demo_isr_def schedule_isr_def demo_def boot_kernel_def)
  then have "sched_of y = a_commit (sched_of (demo m))" using assms by (simp add: sched_of_interrupt save_regs_def demo_timer_sched)
  from arg_cong [OF this, of running] show "thread_run y = Some 0x100" by (simp add: a_commit_def demo_def)
qed

lemma gates_keep_order_witness:
  "\<forall>m. \<exists>x y z. y = interrupt_gate (irqline_handler demo_isr 0x20) 0x20 None (- 1) (demo_timer m) \<and>
     proc_syscall_isr (\<lambda>_. 0) yield_request y = Some (0, yield_request, x) \<and> z = syscall_gate (\<lambda>_. (0, x)) None (- 1) y \<and>
     sched_ok (sched_of z) \<and> committed (sched_of z)"
proof
  fix m
  define y where "y = interrupt_gate (irqline_handler demo_isr 0x20) 0x20 None (- 1) (demo_timer m)"
  let ?x = "thread_yield_internal y"
  have c: "proc_syscall_isr (\<lambda>_. 0) yield_request y = Some (0, yield_request, ?x)"
    by (simp add: proc_syscall_isr_def proc_syscall_exec_def yield_request_def THREAD_CTRL_YIELD_def THREAD_CTRL_CREATE_def
        THREAD_CTRL_DELETE_def PROC_CTRL_CREATE_def Let_def)
  have "gate y (syscall_gate (\<lambda>_. (0, ?x)) None (- 1) y)"
    by (rule gate.proc_call [OF _ demo_tick(2) [OF y_def] c])
      (simp_all add: save_regs_def yield_request_def THREAD_CTRL_YIELD_def THREAD_CTRL_CREATE_def PROC_CTRL_CREATE_def PROC_CTRL_LOAD_FROM_ELF_def)
  then have "gate\<^sup>*\<^sup>* (demo_timer m) (syscall_gate (\<lambda>_. (0, ?x)) None (- 1) y)" using demo_tick(1) [OF y_def] by simp
  from gates_keep_order [OF this] demo_ok [of m] c y_def
  show "\<exists>x y z. y = interrupt_gate (irqline_handler demo_isr 0x20) 0x20 None (- 1) (demo_timer m) \<and>
     proc_syscall_isr (\<lambda>_. 0) yield_request y = Some (0, yield_request, x) \<and> z = syscall_gate (\<lambda>_. (0, x)) None (- 1) y \<and>
     sched_ok (sched_of z) \<and> committed (sched_of z)" by (auto simp: demo_timer_sched)
qed

end
