(* ===== verification/Privilege.thy ===== *)
theory Privilege
  imports Elf
begin

text \<open>
  Privilege: which rings the threads of the system run in, and what the process system call can do about it.
  The rings of the threads are followed through every operation of the call.
\<close>

section \<open>Operations that change no ring\<close>

definition thr :: "kernel \<Rightarrow> ptr list \<times> (ptr \<Rightarrow> u8)" where
  "thr s = (thread_head s, \<lambda>t. ring (task_ctx (tcb_at s t)))"

lemma thr_cong: "thread_head s' = thread_head s \<Longrightarrow> tcb_at s' = tcb_at s \<Longrightarrow> thr s' = thr s"
  by (simp add: thr_def)

lemma thr_set_tcb: "ring (task_ctx (f (tcb_at s t))) = ring (task_ctx (tcb_at s t)) \<Longrightarrow> thr (set_tcb t f s) = thr s"
  by (auto simp: thr_def)

lemma thr_updates [simp]:
  "thr (set_tcb t (\<lambda>x. x\<lparr>t_state := v\<rparr>) s) = thr s" "thr (set_tcb t (\<lambda>x. x\<lparr>wake_pending := b\<rparr>) s) = thr s"
  "thr (set_tcb t (\<lambda>x. x\<lparr>wake_pending := b, t_state := v\<rparr>) s) = thr s" "thr (set_tcb t (\<lambda>x. x\<lparr>waiting_on := w\<rparr>) s) = thr s"
  "thr (set_tcb t (\<lambda>x. x\<lparr>t_irqs := h x\<rparr>) s) = thr s" "thr (set_tcb t (\<lambda>x. x\<lparr>t_lock := l\<rparr>) s) = thr s"
  "thr (set_tcb t (\<lambda>x. x\<lparr>t_mailbox := mb\<rparr>) s) = thr s"
  by (rule thr_set_tcb; simp)+

lemma thr_frame [simp]:
  "thr (set_pcb p f1 s) = thr s" "thr (set_wq q f2 s) = thr s" "thr (set_mb p f3 s) = thr s" "thr (set_meta p f4 s) = thr s"
  "thr (set_irq p f5 s) = thr s" "thr (set_line p f6 s) = thr s" "thr (s\<lparr>mem := m\<rparr>) = thr s" "thr (s\<lparr>mail_at := x1\<rparr>) = thr s"
  "thr (s\<lparr>inflight := x2\<rparr>) = thr s" "thr (s\<lparr>pic_of := x3\<rparr>) = thr s" "thr (s\<lparr>thread_run := x4\<rparr>) = thr s"
  "thr (s\<lparr>switch_vcb := x5, switch_ctx := x6\<rparr>) = thr s" "thr (s\<lparr>proc_head := x7\<rparr>) = thr s" "thr (s\<lparr>g_tss := x8\<rparr>) = thr s"
  "thr (s\<lparr>gdt := x9\<rparr>) = thr s" "thr (s\<lparr>curr_task_ctx := x10\<rparr>) = thr s" "thr (s\<lparr>next_pid := x11\<rparr>) = thr s" "thr (s\<lparr>frames := x12\<rparr>) = thr s"
  by (rule thr_cong; simp)+

lemma thr_free [simp]: "thr (kfree_k p s) = thr s" "thr (lock_release_k l s) = thr s" "thr (free_k p s) = thr s"
  by (simp_all add: kfree_k_def lock_release_k_def free_k_def)

lemma thr_allocD:
  "kmalloc_k n s = (r, s') \<Longrightarrow> thr s' = thr s" "lock_alloc_k s = (l, s') \<Longrightarrow> thr s' = thr s"
  by (auto simp: kmalloc_k_def lock_alloc_k_def split: prod.splits)

lemma thr_fold: "(\<And>x s. thr (f x s) = thr s) \<Longrightarrow> thr (fold f xs s) = thr s"
  by (induction xs arbitrary: s) simp_all

lemma thr_mail [simp]: "thr (release_mail m s) = thr s" "thr (release_mailbox mbo s) = thr s"
proof -
  have r: "thr (release_mail m s) = thr s" for m s by (simp add: release_mail_def Let_def split: option.splits)
  then show "thr (release_mail m s) = thr s" .
  show "thr (release_mailbox mbo s) = thr s"
    by (simp add: release_mailbox_def Let_def thr_fold r split: option.splits prod.splits)
qed

lemma thr_irq [simp]: "thr (irq_release_internal po s) = thr s" "thr (release_irqs t s) = thr s"
proof -
  have i: "thr (irq_release_internal po s) = thr s" for po s
    by (simp add: irq_release_internal_def irqline_mask_def irqline_remove_irq_def irq_free_def Let_def split: option.splits)
  then show "thr (irq_release_internal po s) = thr s" .
  show "thr (release_irqs t s) = thr s" by (simp add: release_irqs_def thr_fold i)
qed

lemma thr_free_thread [simp]: "thr (free_thread t s) = thr s"
  by (simp add: free_thread_def Let_def)

lemma thr_switch [simp]:
  "thr (switch_to n s) = thr s" "thr (tcb_detach_wait to s) = thr s" "thr (snd (arch_task_restore_context to s)) = thr s"
  by (simp_all add: switch_to_def request_switch_context_def tcb_detach_wait_def arch_task_restore_context_def ldt_reload_def Let_def
      split: option.splits)

lemma thr_commit [simp]: "thr (arch_task_context_switch s) = thr s"
  by (simp add: arch_task_context_switch_def Let_def split: option.splits)

lemma thr_next: "find_next_runnable c s = (n, s') \<Longrightarrow> thr s' = thr s"
  by (auto simp: find_next_runnable_def split: option.splits)

lemma thr_sched [simp]:
  "thr (thread_yield_internal s) = thr s" "thr (thread_block_internal n s) = thr s" "thr (thread_unblock_internal n s) = thr s"
  "thr (proc_block_internal n s) = thr s" "thr (proc_unblock_internal n s) = thr s"
  by (auto simp: thread_yield_internal_def thread_block_internal_def thread_unblock_internal_def thread_unblock_locked_def
      proc_block_internal_def proc_unblock_internal_def Let_def thr_fold split: option.splits prod.splits dest!: thr_next)

lemma thr_space [simp]:
  "thr (put_vcb p v m s) = thr s" "thr (set_caps p co h s) = thr s" "thr (inherit_caps p q s) = thr s" "thr (destroy_space p s) = thr s"
  "thr (free_proc p s) = thr s" "thr (put_space p vo m s) = thr s"
  by (simp_all add: put_vcb_def set_caps_def inherit_caps_def destroy_space_def free_proc_def put_space_def Let_def split: prod.splits)

lemma thr_load [simp]:
  "thr (copy_in a img b n s) = thr s" "thr (clear_in a n s) = thr s" "thr (pmm_free_k pa n s) = thr s"
  "thr (snd (grant_k p c s)) = thr s" "thr (snd (revoke_k p c s)) = thr s" "thr (snd (map_fixed_k p pa va n fl own s)) = thr s"
  by (simp_all add: copy_in_def clear_in_def pmm_free_k_def grant_k_def revoke_k_def map_fixed_k_def split: prod.splits)

section \<open>Creating threads\<close>

lemma cap_check_none:
  assumes "\<forall>c\<in>held p. cap_kind c \<noteq> type"
  shows "cap_check (Some p) type a \<noteq> 0"
proof -
  have "for_brk cs (\<lambda>cap ret. if cap_kind cap \<noteq> type then Inl ret
      else if (case a of None \<Rightarrow> False | Some a \<Rightarrow> case_cap_check cap a = 0) then Inr (0 :: int) else Inl E_PERM) r = Inl r"
    if "\<forall>c\<in>set cs. cap_kind c \<noteq> type" for cs and r :: int
    using that by (induction cs) auto
  from this [of "map snd (capabilities p)" E_PERM] assms show ?thesis by (simp add: cap_check_def)
qed

text \<open>The ring of a new thread is the one that was asked for.\<close>

lemma alloc_tcbD:
  "kmalloc_k n s = (r, s') \<Longrightarrow> tcb_at s' = tcb_at s \<and> thread_head s' = thread_head s"
  "lock_alloc_k s = (l, s') \<Longrightarrow> tcb_at s' = tcb_at s \<and> thread_head s' = thread_head s"
  by (auto simp: kmalloc_k_def lock_alloc_k_def split: prod.splits)

lemma free_tcb [simp]:
  "tcb_at (kfree_k p s) = tcb_at s" "thread_head (kfree_k p s) = thread_head s"
  "tcb_at (lock_release_k l s) = tcb_at s" "thread_head (lock_release_k l s) = thread_head s"
  by (simp_all add: kfree_k_def lock_release_k_def)

lemma context_init_ring:
  assumes "arch_task_context_init (Some p) (Some t) pc pv s = (0, s')"
  shows "ring (task_ctx (tcb_at s' t)) = (if pv = TASK_PRIV_KERNEL then 0 else 3)"
  using assms by (auto simp: arch_task_context_init_def Let_def set_ctx_def E_NOMEM_def split: if_splits prod.splits option.splits)

lemma alloc_mailbox_tcb: "alloc_mailbox p n s = (mb, s') \<Longrightarrow> tcb_at s' = tcb_at s"
  by (auto simp: alloc_mailbox_def Let_def split: prod.splits option.splits if_splits dest!: alloc_tcbD)

lemma finish_create_ring: "task_ctx (tcb_at (finish_create p t param st s) t) = task_ctx (tcb_at s t)"
proof -
  have l: "task_ctx (tcb_at (link_thread p t param st x) t) = task_ctx (tcb_at x t)" for x by (simp add: link_thread_def Let_def)
  have f: "task_ctx (tcb_at (first_thread p t x) t) = task_ctx (tcb_at x t)" for x
    by (simp add: first_thread_def arch_task_restore_context_def ldt_reload_def Let_def)
  show ?thesis by (auto simp: finish_create_def Let_def l f dest!: alloc_mailbox_tcb split: prod.splits)
qed

text \<open>The threads a step adds all have the ring that belongs to privilege \<open>pv\<close>.\<close>

definition adds_ring :: "u32 \<Rightarrow> kernel \<Rightarrow> kernel \<Rightarrow> bool" where
  "adds_ring pv s s' \<longleftrightarrow> (\<forall>t\<in>set (thread_head s') - set (thread_head s). ring (task_ctx (tcb_at s' t)) = (if pv = TASK_PRIV_KERNEL then 0 else 3))"

lemma adds_ring_none: "set (thread_head s') \<subseteq> set (thread_head s) \<Longrightarrow> adds_ring pv s s'"
  by (auto simp: adds_ring_def)

lemma finish_create_head: "thread_head (finish_create p t param st s) = t # thread_head s"
proof -
  have m: "thread_head y = thread_head x" if "alloc_mailbox a b x = (mb, y)" for a b x mb y
    using that by (auto simp: alloc_mailbox_def Let_def split: prod.splits option.splits if_splits dest!: alloc_tcbD)
  have f: "thread_head (first_thread p t x) = thread_head x" for x
    by (simp add: first_thread_def arch_task_restore_context_def ldt_reload_def Let_def)
  have l: "thread_head (link_thread p t param st s) = t # thread_head s" by (simp add: link_thread_def Let_def)
  show ?thesis by (auto simp: finish_create_def Let_def l f dest!: m split: prod.splits)
qed

lemma thread_create_ring:
  assumes "thread_create_ex_internal (Some p) pv pc param st s = (r, s')"
  shows "adds_ring pv s s'"
proof -
  obtain x s1 where k: "kmalloc_k sizeof_tcb s = (x, s1)" by (meson surj_pair)
  show ?thesis
  proof (cases x)
    case None
    then show ?thesis using assms k alloc_tcbD(1) [OF k] by (auto simp: thread_create_ex_internal_def intro: adds_ring_none)
  next
    case (Some t)
    define s2 where "s2 = set_tcb t (\<lambda>_. null_tcb) s1"
    obtain rc s3 where c: "arch_task_context_init (Some p) (Some t) pc pv s2 = (rc, s3)" by (meson surj_pair)
    obtain l s4 where l: "lock_alloc_k s3 = (l, s4)" by (meson surj_pair)
    have "thread_head s3 = thread_head s2" using arg_cong [OF context_init_frame(1) [OF c], of threads] by simp
    then have h: "thread_head s3 = thread_head s" using alloc_tcbD(1) [OF k] by (simp add: s2_def)
    have rel: "thread_head (arch_task_context_release vo co y) = thread_head y" for vo co y
      by (metis sched_of_context_release sched_of_fields(1))
    have res: "(r, s') = (if rc \<noteq> 0 then (E_THREAD_CREATE, kfree_k t s3)
        else let s = set_tcb t (\<lambda>x. x\<lparr>t_lock := l\<rparr>) s4 in
        if l = None then (E_LIMIT, kfree_k t (arch_task_context_release (Some p) (Some t) s))
        else let s = finish_create p t param st s in (tid (tcb_at s t), s))"
      unfolding assms [symmetric] using k Some c l by (simp add: thread_create_ex_internal_def s2_def [symmetric] Let_def)
    show ?thesis
    proof (cases "rc \<noteq> 0 \<or> l = None")
      case True
      then have "thread_head s' = thread_head s" using res h alloc_tcbD(2) [OF l] by (auto simp: Let_def rel split: if_splits)
      then show ?thesis by (intro adds_ring_none) simp
    next
      case False
      then have "s' = finish_create p t param st (set_tcb t (\<lambda>x. x\<lparr>t_lock := l\<rparr>) s4)" using res by (auto simp: Let_def)
      moreover have "ring (task_ctx (tcb_at s4 t)) = (if pv = TASK_PRIV_KERNEL then 0 else 3)"
        using context_init_ring [of p t pc pv s2 s3] c False alloc_tcbD(2) [OF l] by simp
      ultimately show ?thesis using h alloc_tcbD(2) [OF l] by (auto simp: adds_ring_def finish_create_head finish_create_ring)
    qed
  qed
qed

lemma adds_ring_thr: "adds_ring pv s s' \<Longrightarrow> thr x = thr s \<Longrightarrow> thr y = thr s' \<Longrightarrow> adds_ring pv x y"
  by (auto simp: adds_ring_def thr_def fun_eq_iff)

lemma adds_ring_same: "thr s' = thr s \<Longrightarrow> adds_ring pv s s'"
  by (rule adds_ring_none) (simp add: thr_def)

lemma create_undo_ring:
  assumes "thread_create_ex_internal (Some p) pv pc param st x = (q, y)" and "thr x = thr s" and "thr z = thr y"
  shows "adds_ring pv s z"
  by (rule adds_ring_thr [OF thread_create_ring [OF assms(1)]]) (simp_all add: assms(2,3))

lemma proc_create_ring:
  assumes "p_create_ex pv pc param st s = (r, s')"
  shows "adds_ring pv s s'"
proof -
  obtain x s1 where k: "kmalloc_k sizeof_pcb s = (x, s1)" by (meson surj_pair)
  show ?thesis
  proof (cases x)
    case None
    then show ?thesis using assms k by (auto simp: p_create_ex_def dest: thr_allocD intro: adds_ring_same)
  next
    case (Some p)
    obtain l s2 where l: "lock_alloc_k (set_pcb p (\<lambda>_. null_pcb) s1) = (l, s2)" by (meson surj_pair)
    obtain cl s3 where cl: "lock_alloc_k (set_pcb p (\<lambda>q. q\<lparr>p_lock := l\<rparr>) s2) = (cl, s3)" by (meson surj_pair)
    have t3: "thr s2 = thr s" "thr s3 = thr s" using thr_allocD(1) [OF k] thr_allocD(2) [OF l] thr_allocD(2) [OF cl] by simp_all
    show ?thesis
      using assms k l cl Some t3
      by (auto simp: p_create_ex_def Let_def split: if_splits prod.splits option.splits
          intro: adds_ring_same elim!: create_undo_ring)
  qed
qed

section \<open>Deleting threads\<close>

text \<open>The threads that remain keep their rings.\<close>

definition rings_kept :: "kernel \<Rightarrow> kernel \<Rightarrow> bool" where
  "rings_kept s s' \<longleftrightarrow> set (thread_head s') \<subseteq> set (thread_head s) \<and>
     (\<forall>t\<in>set (thread_head s'). ring (task_ctx (tcb_at s' t)) = ring (task_ctx (tcb_at s t)))"

lemma rings_kept_same: "thr s' = thr s \<Longrightarrow> rings_kept s s'"
  by (auto simp: rings_kept_def thr_def fun_eq_iff)

lemma rings_kept_trans: "rings_kept s x \<Longrightarrow> rings_kept x s' \<Longrightarrow> rings_kept s s'"
  by (auto simp: rings_kept_def)

lemma adds_then_kept: "adds_ring pv s x \<Longrightarrow> rings_kept x s' \<Longrightarrow> adds_ring pv s s'"
  by (auto simp: adds_ring_def rings_kept_def)

lemma kept_adds: "rings_kept s s' \<Longrightarrow> adds_ring pv s s'"
  by (auto simp: adds_ring_def rings_kept_def)

lemma release_rings:
  "thread_head (arch_task_context_release (Some p) (Some t) s) = thread_head s"
  "u \<noteq> t \<Longrightarrow> ring (task_ctx (tcb_at (arch_task_context_release (Some p) (Some t) s) u)) = ring (task_ctx (tcb_at s u))"
  by (simp_all add: arch_task_context_release_def set_ctx_def vmm_free_pages_k_def put_vcb_def kfree_k_def Let_def split: prod.splits)

lemma unlink_kept: "rings_kept s (unlink_thread t s)"
proof -
  define x where "x = arch_task_context_release (Some (parent (tcb_at s t))) (Some t) s"
  have d: "thr (tcb_detach_wait (Some t) x) = thr x" by simp
  then have "thread_head (unlink_thread t s) = list_remove t (thread_head s)"
    "\<And>u. u \<noteq> t \<Longrightarrow> ring (task_ctx (tcb_at (unlink_thread t s) u)) = ring (task_ctx (tcb_at s u))"
    using release_rings [where p = "parent (tcb_at s t)" and t = t and s = s]
    by (auto simp: unlink_thread_def Let_def x_def [symmetric] thr_def fun_eq_iff)
  then show ?thesis by (auto simp: rings_kept_def list_remove_def)
qed

lemma delete_kept: "rings_kept s (thread_delete_internal n s)"
proof -
  have k: "rings_kept s (free_thread t (unlink_thread t x))" if "thr x = thr s" for t x
    using rings_kept_trans [OF rings_kept_same [OF that] rings_kept_trans [OF unlink_kept rings_kept_same]] by simp
  then show ?thesis
    by (auto simp: thread_delete_internal_def rings_kept_same split: option.splits prod.splits dest: thr_next)
qed

lemma drop_kept: "thr x = thr s \<Longrightarrow> rings_kept s (drop_thread t x)"
  using rings_kept_trans [OF rings_kept_same rings_kept_trans [OF unlink_kept rings_kept_same]] by (simp add: drop_thread_def Let_def)

lemma exit_threads_kept:
  assumes "exit_threads p s = Some s'"
  shows "rings_kept s s'"
proof -
  have "exit_threads p s = Some s' \<Longrightarrow> rings_kept s s'" for p s s'
  proof (rule exit_threads.raw_induct [where P = "\<lambda>p s s'. rings_kept s s'"], goal_cases)
    case (1 rec p s s')
    have step: "rings_kept s s'" if "rec p (drop_thread t x) = Some s'" "thr x = thr s" for t x
      using rings_kept_trans [OF drop_kept [OF that(2)] 1(2) [OF that(1)]] .
    have pass: "rings_kept s s'" if "find_next_runnable c s = (Some n, x)" "rec p (drop_thread t (switch_to n x)) = Some s'" for c n x t
      using step [OF that(2)] thr_next [OF that(1)] by simp
    from 1(3) show ?case
      by (auto simp: rings_kept_same split: list.splits if_splits option.splits prod.splits intro: step pass)
  qed
  then show ?thesis using assms .
qed

lemma exit_kept: "proc_exit_internal n s = Some s' \<Longrightarrow> rings_kept s s'"
  by (auto simp: proc_exit_internal_def Let_def rings_kept_same split: option.splits prod.splits Option.bind_splits
      dest!: exit_threads_kept intro: rings_kept_trans [OF _ rings_kept_same])

section \<open>The system call\<close>

lemma load_segment_thr:
  "thr (case load_segment p img n ph (b, s) of Inl (b', s') \<Rightarrow> s' | Inr (e, s') \<Rightarrow> s') = thr s"
proof -
  have g: "thr x = thr y" if "grant_k q c y = (r, x)" for q c r x y using thr_load(4) [of q c y] that by simp
  have m: "thr x = thr y" if "map_fixed_k q pa va k fl own y = (r, x)" for q pa va k fl own r x y
    using thr_load(6) [of q pa va k fl own y] that by simp
  show ?thesis by (auto simp: load_segment_def Let_def split: prod.splits if_splits dest!: g m)
qed

lemma elf_load_thr: "elf_load (Some p) img n s = (r, s') \<Longrightarrow> thr s' = thr s"
proof -
  have "thr (case for_brk is (\<lambda>i. load_segment p img n (phdr img i)) (b, s) of Inl (b', s') \<Rightarrow> s' | Inr (e, s') \<Rightarrow> s') = thr s" for "is" b s
  proof (induction "is" arbitrary: b s)
    case (Cons i "is")
    then show ?case
      using load_segment_thr [of p img n "phdr img i" b s]
      by (cases "load_segment p img n (phdr img i) (b, s)") (auto split: prod.splits)
  qed simp
  from this [of "[0..<unat (e_phnum (ehdr img))]" False s] show "elf_load (Some p) img n s = (r, s') \<Longrightarrow> thr s' = thr s"
    by (auto simp: elf_load_def split: if_splits sum.splits prod.splits)
qed

lemma load_ring:
  assumes "proc_load_from_elf_internal img a b param s = Some (r, s')"
  shows "adds_ring PROC_PRIV_USER s s'"
proof -
  have create: "adds_ring PROC_PRIV_USER s y" if "proc_create_internal PROC_PRIV_USER pc q x = (n, y)" "thr x = thr s" for pc q x n y
    using adds_ring_thr [OF proc_create_ring, of PROC_PRIV_USER pc q TS_PENDING x n y s y] that by (simp add: proc_create_internal_def)
  have frame: "adds_ring PROC_PRIV_USER s z" if "adds_ring PROC_PRIV_USER s y" "thr z = thr y" for y z
    using adds_then_kept [OF that(1) rings_kept_same [OF that(2)]] .
  have quit: "adds_ring PROC_PRIV_USER s w" if "adds_ring PROC_PRIV_USER s y" "thr z = thr y" "proc_exit_internal n z = Some w" for y z w n
    using adds_then_kept [OF frame [OF that(1,2)] exit_kept [OF that(3)]] .
  obtain k x where k: "kmalloc_k (b - a) s = (k, x)" by (meson surj_pair)
  obtain n y where c: "proc_create_internal PROC_PRIV_USER (e_entry (ehdr img)) param x = (n, y)" by (meson surj_pair)
  have x: "thr x = thr s" by (rule thr_allocD(1) [OF k])
  note ay = create [OF c x]
  show ?thesis
  proof (cases "get_process_by_pid n y")
    case None
    have "adds_ring PROC_PRIV_USER s w" if "proc_exit_internal n (kfree_k buf y) = Some w" for buf w by (rule quit [OF ay _ that]) simp
    with None show ?thesis
      using assms k c x frame [OF ay] unfolding proc_load_from_elf_internal_def Let_def
      by (auto simp: adds_ring_same split: if_splits option.splits Option.bind_splits)
  next
    case (Some p)
    obtain e z where l: "elf_load (Some p) img (b - a) y = (e, z)" by (meson surj_pair)
    have z: "thr z = thr y" by (rule elf_load_thr [OF l])
    have "adds_ring PROC_PRIV_USER s w" if "proc_exit_internal n (kfree_k buf z) = Some w" for buf w
      by (rule quit [OF ay _ that]) (simp add: z)
    with Some show ?thesis
      using assms k c x l z frame [OF ay] unfolding proc_load_from_elf_internal_def Let_def
      by (auto simp: adds_ring_same split: if_splits option.splits sum.splits Option.bind_splits)
  qed
qed

text \<open>
  Property C4: a user process cannot make itself a kernel thread.  When the calling process is not a kernel process
  and holds neither capability for creating kernel threads and processes, then whatever it asks of the
  process system call, every thread the call adds to the system has a context made for ring 3.  (The statement
  is about \<^verbatim>\<open>context->ring\<close>, the ring that \<^verbatim>\<open>arch_task_context_init\<close> puts into selectors and descriptors.)
\<close>

theorem proc_syscall_no_escalation:
  assumes run: "get_current_process s = Some p" and p: "priv (pcb_at s p) \<noteq> PROC_PRIV_KERNEL"
    and caps: "\<forall>c\<in>held (caps (space (pcb_at s p))). cap_kind c \<notin> {CAP_CREATE_KRNL_THREAD, CAP_CREATE_KRNL_PROC}"
    and call: "proc_syscall_isr img c s = Some (r, c', s')"
  shows "\<forall>t\<in>set (thread_head s') - set (thread_head s). ring (task_ctx (tcb_at s' t)) = 3"
proof -
  have deny: "cap_check (Some (caps (space (pcb_at s p)))) CAP_CREATE_KRNL_THREAD a \<noteq> 0"
    "cap_check (Some (caps (space (pcb_at s p)))) CAP_CREATE_KRNL_PROC a \<noteq> 0" for a
    using caps by (auto intro!: cap_check_none)
  have ring3: "adds_ring pv s s' \<Longrightarrow> pv \<noteq> TASK_PRIV_KERNEL \<Longrightarrow> ?thesis" for pv by (simp add: adds_ring_def)
  have user: "PROC_PRIV_USER \<noteq> TASK_PRIV_KERNEL" "PROC_PRIV_KERNEL = TASK_PRIV_KERNEL"
    by (simp_all add: PROC_PRIV_USER_def TASK_PRIV_KERNEL_def PROC_PRIV_KERNEL_def)
  show ?thesis
  proof (cases "proc_syscall_exec img c s = Some (c', s')")
    case False
    then have "s' = s" using call by (auto simp: proc_syscall_isr_def Let_def split: if_splits)
    then show ?thesis by simp
  next
    case x: True
    have guard: "pc_cmd c = THREAD_CTRL_CREATE \<Longrightarrow> pc_priv c \<noteq> TASK_PRIV_KERNEL" if "s' \<noteq> s"
      using call run p deny that by (auto simp: proc_syscall_isr_def Let_def split: if_splits)
    have guard': "pc_cmd c = PROC_CTRL_CREATE \<Longrightarrow> pc_priv c \<noteq> TASK_PRIV_KERNEL" if "s' \<noteq> s"
      using call run p deny that by (auto simp: proc_syscall_isr_def Let_def user split: if_splits)
    consider "s' = s" | "s' \<noteq> s" "adds_ring (pc_priv c) s s'" "pc_cmd c \<in> {THREAD_CTRL_CREATE, PROC_CTRL_CREATE}"
      | "adds_ring PROC_PRIV_USER s s'"
      using x by (cases "s' = s")
        (auto simp: proc_syscall_exec_def t_create_def proc_create_internal_def kept_adds delete_kept exit_kept adds_ring_same
          split: if_splits option.splits prod.splits dest: thread_create_ring proc_create_ring load_ring)
    then show ?thesis using guard guard' ring3 user(1) by cases auto
  qed
qed

text \<open>The example system with process 1 a user process; its thread asks for a thread of its own privilege.\<close>

definition demo_user :: "memsys \<Rightarrow> kernel" where
  "demo_user m = set_pcb 0x10 (\<lambda>q. q\<lparr>priv := PROC_PRIV_USER\<rparr>) (demo m)"

definition thread_request :: proc_thread_ctrl_config where
  "thread_request = \<lparr>pc_cmd = THREAD_CTRL_CREATE, pc_pid = 0, pc_tid = 0, pc_priv = TASK_PRIV_USER, pc_entry = 0x8000000,
     pc_elf_start = 0, pc_elf_end = 0, pc_param = 0\<rparr>"

lemma demo_user_fields:
  "get_current_process (demo_user m) = Some 0x10" "priv (pcb_at (demo_user m) 0x10) \<noteq> PROC_PRIV_KERNEL"
  "capabilities (caps (space (pcb_at (demo_user m) 0x10))) = []" "thread_run (demo_user m) = Some 0x100"
  by (simp_all add: demo_user_def demo_def boot_kernel_def demo_tcb_def demo_pcb_def null_tcb_def null_pcb_def get_current_process_def
      PROC_PRIV_USER_def PROC_PRIV_KERNEL_def)

lemma proc_syscall_no_escalation_witness:
  "\<forall>m. \<exists>r c' s'. proc_syscall_isr (\<lambda>_. 0) thread_request (demo_user m) = Some (r, c', s') \<and>
     (\<lambda>t. ring (task_ctx (tcb_at s' t))) ` (set (thread_head s') - set (thread_head (demo_user m))) \<subseteq> {3}"
proof
  fix m
  have "TASK_PRIV_USER \<noteq> TASK_PRIV_KERNEL" by (simp add: TASK_PRIV_USER_def TASK_PRIV_KERNEL_def)
  then obtain r c' s' where c: "proc_syscall_isr (\<lambda>_. 0) thread_request (demo_user m) = Some (r, c', s')"
    by (cases "t_create (Some (parent (tcb_at (demo_user m) 0x100))) TASK_PRIV_USER 0x8000000 0 (demo_user m)")
      (simp add: proc_syscall_isr_def proc_syscall_exec_def thread_request_def demo_user_fields Let_def THREAD_CTRL_CREATE_def PROC_CTRL_CREATE_def)
  have "\<forall>t\<in>set (thread_head s') - set (thread_head (demo_user m)). ring (task_ctx (tcb_at s' t)) = 3"
    by (rule proc_syscall_no_escalation [OF demo_user_fields(1,2) _ c]) (simp add: demo_user_fields)
  with c show "\<exists>r c' s'. proc_syscall_isr (\<lambda>_. 0) thread_request (demo_user m) = Some (r, c', s') \<and>
     (\<lambda>t. ring (task_ctx (tcb_at s' t))) ` (set (thread_head s') - set (thread_head (demo_user m))) \<subseteq> {3}" by blast
qed

end
