(* ===== verification/Lines.thy ===== *)
theory Lines
  imports Process
begin

text \<open>
  The table of interrupt lines (\<^verbatim>\<open>kernel/irq.c\<close>) is well typed: what requesting an interrupt keeps of it.
\<close>

section \<open>Well-typed lines\<close>

text \<open>The interrupts registered on some line.\<close>

definition listed :: "kernel \<Rightarrow> ptr set" where
  "listed s = {p. \<exists>i l. irqlines s i = Some l \<and> p \<in> set (line_irqs (line_at s l))}"

text \<open>
  A line stands at its own number in the table and lists, each once, interrupts with that number and with
  different minor numbers; lines and interrupts are blocks of an intact kernel heap, each line at one place.
\<close>

definition line_typed :: "kernel \<Rightarrow> nat \<Rightarrow> ptr \<Rightarrow> bool" where
  "line_typed s i l \<longleftrightarrow> (let L = line_at s l in
     unat (line_major L) = i \<and> distinct (line_irqs L) \<and> inj_on (\<lambda>p. minor (irq_at s p)) (set (line_irqs L)) \<and>
     (\<forall>p\<in>set (line_irqs L). unat (major (irq_at s p)) = i))"

definition lines_ok :: "kernel \<Rightarrow> bool" where
  "lines_ok s \<longleftrightarrow> kheap_ok (heaps_of (mem s)) \<and> listed s \<subseteq> klive (heaps_of (mem s)) \<and>
     (\<forall>i l. irqlines s i = Some l \<longrightarrow> l \<in> klive (heaps_of (mem s)) \<and> line_typed s i l) \<and>
     (\<forall>i j l. irqlines s i = Some l \<longrightarrow> irqlines s j = Some l \<longrightarrow> i = j)"

lemma listed_cong: "irqlines s' = irqlines s \<Longrightarrow> line_at s' = line_at s \<Longrightarrow> listed s' = listed s"
  by (simp add: listed_def)

lemma lines_cong:
  assumes ok: "lines_ok s" and eq: "irqlines s' = irqlines s" "line_at s' = line_at s" "\<forall>p\<in>listed s. irq_at s' p = irq_at s p"
    and heap: "heap_grew (mem s) (mem s')"
  shows "lines_ok s'"
proof -
  have "line_typed s' i l" if "irqlines s i = Some l" for i l
  proof -
    have same: "irq_at s' p = irq_at s p" if "p \<in> set (line_irqs (line_at s l))" for p
      using eq(3) that \<open>irqlines s i = Some l\<close> by (auto simp: listed_def)
    then have "inj_on (\<lambda>p. minor (irq_at s' p)) (set (line_irqs (line_at s l))) \<longleftrightarrow>
        inj_on (\<lambda>p. minor (irq_at s p)) (set (line_irqs (line_at s l)))" by (intro inj_on_cong) simp
    then show ?thesis using ok that same by (simp add: lines_ok_def line_typed_def eq(2) Let_def)
  qed
  then show ?thesis
    using ok heap listed_cong [OF eq(1,2)] by (auto simp: lines_ok_def heap_grew_def eq(1))
qed

section \<open>Making a line\<close>

lemma alloc_lines:
  assumes "kmalloc_k n s = (r, s')"
  shows "irqlines s' = irqlines s" "line_at s' = line_at s" "irq_at s' = irq_at s" "heap_grew (mem s) (mem s')"
    "kheap_ok (heaps_of (mem s)) \<Longrightarrow> r = Some p \<Longrightarrow>
       p \<notin> klive (heaps_of (mem s)) \<and> klive (heaps_of (mem s')) = insert p (klive (heaps_of (mem s)))"
proof -
  obtain m where k: "kmalloc_in n (mem s) = (r, m)" "s' = s\<lparr>mem := m\<rparr>"
    using assms by (auto simp: kmalloc_k_def split: prod.splits)
  show "irqlines s' = irqlines s" "line_at s' = line_at s" "irq_at s' = irq_at s" "heap_grew (mem s) (mem s')"
    "kheap_ok (heaps_of (mem s)) \<Longrightarrow> r = Some p \<Longrightarrow>
       p \<notin> klive (heaps_of (mem s)) \<and> klive (heaps_of (mem s')) = insert p (klive (heaps_of (mem s)))"
    using heap_grew_kmalloc(1) [OF k(1)] kheap.alloc_fresh kheap.alloc_live kmalloc_in_simps(1) [OF k(1)] by (auto simp: k(2))
qed

lemma lock_lines:
  assumes "lock_alloc_k s = (l, s')"
  shows "irqlines s' = irqlines s" "line_at s' = line_at s" "irq_at s' = irq_at s" "heaps_of (mem s') = heaps_of (mem s)"
  using assms by (auto simp: lock_alloc_k_def split: prod.splits)

lemma ensure_line_ok:
  assumes ok: "lines_ok s" and mj: "unat mj < IDT_ENTRIES" and e: "ensure_line mj s = (r, s')"
  shows "lines_ok s'" "listed s' = listed s" "irq_at s' = irq_at s" "heap_grew (mem s) (mem s')"
    "r = Some l \<Longrightarrow> irqlines s' (unat mj) = Some l"
    "p \<in> klive (heaps_of (mem s)) \<Longrightarrow> p \<notin> ran (irqlines s) \<Longrightarrow> p \<notin> ran (irqlines s')"
proof -
  have "(lines_ok s' \<and> listed s' = listed s \<and> irq_at s' = irq_at s \<and> heap_grew (mem s) (mem s')) \<and>
    (\<forall>l. r = Some l \<longrightarrow> irqlines s' (unat mj) = Some l) \<and>
    (\<forall>p. p \<in> klive (heaps_of (mem s)) \<longrightarrow> p \<notin> ran (irqlines s) \<longrightarrow> p \<notin> ran (irqlines s'))"
  proof (cases "irqlines s (unat mj)")
    case (Some l)
    then show ?thesis using e ok by (auto simp: ensure_line_def heap_grew_refl)
  next
    case None
    obtain x s1 where k: "kmalloc_k sizeof_irqline s = (x, s1)" by (meson surj_pair)
    note kl = alloc_lines [OF k]
    show ?thesis
    proof (cases x)
      case None
      then have "s' = s1" "r = None" using e k \<open>irqlines s (unat mj) = None\<close> mj
        by (auto simp: ensure_line_def irqline_init_def irqline_alloc_def)
      then show ?thesis using lines_cong [OF ok kl(1,2) _ kl(4)] kl listed_cong [OF kl(1,2)] by simp
    next
      case (Some a)
      obtain lk s2 where l: "lock_alloc_k s1 = (lk, s2)" by (meson surj_pair)
      note ll = lock_lines [OF l]
      define L where "L = \<lparr>line_major = mj, line_enabled = False, line_lock = lk, line_irqs = []\<rparr>"
      have s': "s' = (set_line a (\<lambda>_. L) s2)\<lparr>irqlines := (irqlines s)(unat mj := Some a)\<rparr>" "r = Some a"
        using e k Some l \<open>irqlines s (unat mj) = None\<close> mj ll(1) kl(1)
        by (auto simp: ensure_line_def irqline_init_def irqline_alloc_def L_def)
      have fresh: "a \<notin> klive (heaps_of (mem s))" "klive (heaps_of (mem s')) = insert a (klive (heaps_of (mem s)))"
        using kl(5) [of a] ok Some ll(4) by (auto simp: lines_ok_def s')
      have grew: "heap_grew (mem s) (mem s')" using kl(4) ll(4) by (simp add: heap_grew_def s')
      have at: "line_at s' = (line_at s)(a := L)" "irq_at s' = irq_at s" "irqlines s' = (irqlines s)(unat mj := Some a)"
        using kl ll by (simp_all add: s')
      have old: "l \<noteq> a" if "irqlines s i = Some l" for i l using ok that fresh(1) by (auto simp: lines_ok_def)
      have "irqlines s' i = Some l \<and> p \<in> set (line_irqs (line_at s' l)) \<longleftrightarrow>
          irqlines s i = Some l \<and> p \<in> set (line_irqs (line_at s l))" for i l p
        using old [of i l] \<open>irqlines s (unat mj) = None\<close> by (auto simp: at L_def)
      then have listed: "listed s' = listed s" by (simp add: listed_def)
      moreover have "line_typed s' i l" if "irqlines s' i = Some l" for i l
      proof (cases "i = unat mj")
        case True
        then show ?thesis using that by (simp add: at line_typed_def L_def Let_def)
      next
        case False
        then have "irqlines s i = Some l" "line_typed s i l" using that ok by (simp_all add: at lines_ok_def)
        then show ?thesis using old [of i l] by (simp add: at line_typed_def)
      qed
      moreover have "i = j" if "irqlines s' i = Some l" "irqlines s' j = Some l" for i j l
      proof -
        have "irqlines s i = Some l \<Longrightarrow> irqlines s j = Some l \<Longrightarrow> i = j" using ok unfolding lines_ok_def by blast
        then show ?thesis using that old [of i l] old [of j l] unfolding at(3) by (simp split: if_splits)
      qed
      moreover have "l \<in> klive (heaps_of (mem s'))" if "irqlines s' i = Some l" for i l
        using that ok unfolding at(3) fresh(2) lines_ok_def by (simp split: if_splits)
      ultimately have "lines_ok s'"
        using ok grew fresh(2) unfolding lines_ok_def [of s'] by (auto simp: lines_ok_def [of s] heap_grew_def)
      then show ?thesis using listed grew at s'(2) fresh(1) by (auto simp: ran_def)
    qed
  qed
  then show "lines_ok s'" "listed s' = listed s" "irq_at s' = irq_at s" "heap_grew (mem s) (mem s')"
    "r = Some l \<Longrightarrow> irqlines s' (unat mj) = Some l"
    "p \<in> klive (heaps_of (mem s)) \<Longrightarrow> p \<notin> ran (irqlines s) \<Longrightarrow> p \<notin> ran (irqlines s')" by auto
qed

section \<open>The free minor number\<close>

lemma free_minor_from_least:
  assumes "\<forall>k<c. k \<in> set used" and "free_minor_from used c = m" and "m \<noteq> IRQ_ANY_MINOR"
  shows "m \<notin> set used \<and> (\<forall>k<m. k \<in> set used)"
  using assms
proof (induction used c rule: free_minor_from.induct)
  case (1 used c)
  show ?case
  proof (cases "c < 0xFFFFFFFF \<and> c \<in> set used")
    case True
    have "k < c \<or> k = c" if "k < c + 1" for k
    proof -
      have "unat c < 0xFFFFFFFF" using True by (simp add: word_less_nat_alt)
      then have "unat (c + 1) = unat c + 1" by (simp add: unat_word_ariths)
      then show ?thesis using that by (auto simp: word_less_nat_alt less_Suc_eq word_unat_eq_iff)
    qed
    then have "\<forall>k<c + 1. k \<in> set used" using 1(2) True by blast
    then show ?thesis using 1(1) 1(3,4) True by (simp add: free_minor_from.simps [of used c])
  next
    case False
    then show ?thesis using 1(2-4) by (auto simp: free_minor_from.simps [of used c] split: if_splits)
  qed
qed

section \<open>Requests\<close>

lemma irq_alloc_cases:
  assumes ok: "lines_ok s" and a: "irq_alloc mj mn u n name cx h out s = (r, out', s')"
  obtains (fail) "r \<noteq> 0" "lines_ok s'" "listed s' = listed s"
  | (made) p where "r = 0" "out' = Some p" "lines_ok s'" "listed s' = listed s" "p \<notin> listed s" "p \<notin> ran (irqlines s')"
      "p \<in> klive (heaps_of (mem s'))" "irqlines s' = irqlines s" "line_at s' = line_at s" "\<forall>q\<in>listed s. irq_at s' q = irq_at s q"
      "major (irq_at s' p) = mj" "minor (irq_at s' p) = mn" "irq_owner (irq_at s' p) = None"
proof -
  obtain x s1 where k: "kmalloc_k sizeof_irq s = (x, s1)" by (meson surj_pair)
  note kl = alloc_lines [OF k]
  show thesis
  proof (cases x)
    case None
    then have "r = E_NOMEM" "s' = s1" using a k by (auto simp: irq_alloc_def)
    then show thesis using fail lines_cong [OF ok kl(1,2) _ kl(4)] kl(3) listed_cong [OF kl(1,2)] by (simp add: E_NOMEM_def)
  next
    case (Some p)
    obtain l s2 where l: "lock_alloc_k s1 = (l, s2)" by (meson surj_pair)
    note ll = lock_lines [OF l]
    define I where "I = \<lparr>irq_name = name, irq_context = cx, major = mj, minor = mn, enabled = False,
       is_user_irq = u, irq_tid = n, irq_owner = None, irq_lock = l, irq_handler = h\<rparr>"
    define s3 where "s3 = set_irq p (\<lambda>_. I) s2"
    have res: "(r, out', s') = (if l = None then (E_LIMIT, None, kfree_k p s3) else (0, Some p, s3))"
      using a k Some l by (cases l) (auto simp: irq_alloc_def s3_def I_def Let_def)
    have h: "kheap_ok (heaps_of (mem s))" using ok by (simp add: lines_ok_def)
    have fresh: "p \<notin> klive (heaps_of (mem s))" "klive (heaps_of (mem s1)) = insert p (klive (heaps_of (mem s)))"
      using kl(5) [OF h] Some by auto
    have out: "p \<notin> listed s" "p \<notin> ran (irqlines s)" using ok fresh(1) by (auto simp: lines_ok_def ran_def)
    have at: "irqlines s3 = irqlines s" "line_at s3 = line_at s" "irq_at s3 = (irq_at s)(p := I)" "heaps_of (mem s3) = heaps_of (mem s1)"
      using kl ll by (simp_all add: s3_def)
    have same: "\<forall>q\<in>listed s. irq_at s3 q = irq_at s q" using out(1) by (auto simp: at(3))
    have grew: "heap_grew (mem s) (mem s3)" using kl(4) by (simp add: heap_grew_def at(4))
    have ok3: "lines_ok s3" by (rule lines_cong [OF ok at(1,2) same grew])
    show thesis
    proof (cases l)
      case None
      have "heap_grew (mem s) (mem (kfree_k p s3))"
        using kheap.release_inv [of "heaps_of (mem s1)" p] kheap.release_live [of "heaps_of (mem s1)" p] kl(4) fresh
        by (auto simp: heap_grew_def kfree_k_def at(4))
      then have "lines_ok (kfree_k p s3)" using at same by (intro lines_cong [OF ok]) (simp_all add: kfree_k_def)
      then show thesis using fail res None listed_cong [of "kfree_k p s3" s] at by (simp add: kfree_k_def E_LIMIT_def)
    next
      case (Some y)
      then show thesis
        using made [of p] res ok3 out at same listed_cong [of s3 s] fresh(2) by (simp add: I_def)
    qed
  qed
qed

text \<open>Giving up an interrupt that is on no line yet.\<close>

lemma release_unlisted:
  assumes ok: "lines_ok s" and p: "p \<notin> listed s" "p \<notin> ran (irqlines s)" "p \<in> klive (heaps_of (mem s))" "irq_owner (irq_at s p) = None"
  shows "lines_ok (irq_release_internal (Some p) s) \<and> listed (irq_release_internal (Some p) s) = listed s"
proof (cases "unat (major (irq_at s p)) \<ge> IDT_ENTRIES")
  case True
  then show ?thesis using ok by (simp add: irq_release_internal_def)
next
  case False
  let ?t = "irq_release_internal (Some p) s"
  have rm: "(line_at s)(l := (line_at s l)\<lparr>line_irqs := list_remove p (line_irqs (line_at s l))\<rparr>) = line_at s"
    if "irqlines s i = Some l" for i l
  proof -
    have "p \<notin> set (line_irqs (line_at s l))" using p(1) that by (auto simp: listed_def)
    then have "list_remove p (line_irqs (line_at s l)) = line_irqs (line_at s l)" by (auto simp: list_remove_def filter_id_conv)
    then show ?thesis by simp
  qed
  have f: "line_at ?t = line_at s" "irqlines ?t = irqlines s" "irq_at ?t = irq_at s" "heaps_of (mem ?t) = kfree p (heaps_of (mem s))"
    using False p(4) rm
    by (auto simp: irq_release_internal_def Let_def irqline_remove_irq_def irqline_mask_def irq_free_def kfree_k_def lock_release_k_def
        split: option.splits)
  have h: "kheap_ok (kfree p (heaps_of (mem s)))" "klive (kfree p (heaps_of (mem s))) = klive (heaps_of (mem s)) - {p}"
    using kheap.release_inv kheap.release_live ok p(3) by (auto simp: lines_ok_def)
  have li: "listed ?t = listed s" by (rule listed_cong) (simp_all add: f)
  moreover have "line_typed ?t i l = line_typed s i l" for i l by (simp add: line_typed_def f)
  ultimately show ?thesis using ok p(1,2) by (auto simp: lines_ok_def f h ran_def)
qed

lemma bind_owner_fields:
  "line_at (bind_owner n p s) = line_at s" "irqlines (bind_owner n p s) = irqlines s" "mem (bind_owner n p s) = mem s"
  "major (irq_at (bind_owner n p s) q) = major (irq_at s q)" "minor (irq_at (bind_owner n p s) q) = minor (irq_at s q)"
  by (simp_all add: bind_owner_def split: option.splits)

lemma add_irq_ok:
  assumes ok: "lines_ok s" and l: "irqlines s i = Some line" and p: "p \<notin> listed s" "p \<in> klive (heaps_of (mem s))" "unat (major (irq_at s p)) = i"
    and m: "find (\<lambda>q. minor (irq_at s q) = minor (irq_at s p)) (line_irqs (line_at s line)) = None"
    and s': "s' = irqline_add_irq line p (if u then bind_owner n p s else s)"
  shows "lines_ok s' \<and> listed s' = insert p (listed s) \<and> major (irq_at s' p) = major (irq_at s p) \<and> minor (irq_at s' p) = minor (irq_at s p)"
proof -
  have f: "irqlines s' = irqlines s" "mem s' = mem s" "major (irq_at s' q) = major (irq_at s q)" "minor (irq_at s' q) = minor (irq_at s q)"
    "line_at s' = (line_at s)(line := (line_at s line)\<lparr>line_irqs := p # line_irqs (line_at s line)\<rparr>)" for q
    by (simp_all add: s' irqline_add_irq_def bind_owner_fields)
  have li: "listed s' = insert p (listed s)" using l by (auto simp: listed_def f(1,5) split: if_splits)
  have t: "line_typed s i line" and new: "p \<notin> set (line_irqs (line_at s line))" using ok l p(1) by (auto simp: lines_ok_def listed_def)
  have "line_typed s' i line"
    using t new p(3) m by (auto simp: line_typed_def f Let_def inj_on_def find_None_iff)
  moreover have "line_typed s' j k" if "irqlines s j = Some k" "k \<noteq> line" for j k
  proof -
    have "line_typed s j k" using ok that(1) by (simp add: lines_ok_def)
    then show ?thesis using that(2) by (simp add: line_typed_def f)
  qed
  moreover have "j = i" if "irqlines s j = Some line" for j using ok l that unfolding lines_ok_def by blast
  ultimately have typed: "line_typed s' j k" if "irqlines s j = Some k" for j k using that by (cases "k = line") auto
  have "lines_ok s'" using ok typed p(2) li unfolding lines_ok_def [of s'] by (simp add: lines_ok_def [of s] f(1,2))
  then show ?thesis using li f(3,4) by simp
qed

lemma pick_minor_ok:
  assumes ok: "lines_ok s" and mj: "unat mj < IDT_ENTRIES" and c: "pick_minor mj mn s = (r, s')"
  shows "lines_ok s'" "listed s' = listed s" "r = Inl e \<Longrightarrow> e \<noteq> 0"
    "r = Inr k \<Longrightarrow> mn \<noteq> IRQ_ANY_MINOR \<Longrightarrow> k = mn"
    "r = Inr k \<Longrightarrow> mn = IRQ_ANY_MINOR \<Longrightarrow> (\<exists>line. irqlines s' (unat mj) = Some line \<and>
       (\<forall>j<k. \<exists>q\<in>set (line_irqs (line_at s' line)). minor (irq_at s' q) = j))"
proof -
  obtain x y where e: "ensure_line mj s = (x, y)" by (meson surj_pair)
  note el = ensure_line_ok [OF ok mj e]
  show "lines_ok s'" "listed s' = listed s" using c e el ok by (auto simp: pick_minor_def Let_def split: if_splits option.splits)
  show "r = Inl e \<Longrightarrow> e \<noteq> 0"
    using c e by (auto simp: pick_minor_def Let_def E_INTERNAL_def E_IRQ_NOTAVAIL_def split: if_splits option.splits)
  show "r = Inr k \<Longrightarrow> mn \<noteq> IRQ_ANY_MINOR \<Longrightarrow> k = mn" using c by (auto simp: pick_minor_def)
  assume k: "r = Inr k" "mn = IRQ_ANY_MINOR"
  then obtain line where l: "x = Some line" "s' = y" "k = irqline_find_free_minor line y" "k \<noteq> IRQ_ANY_MINOR"
    using c e by (auto simp: pick_minor_def Let_def split: if_splits option.splits)
  then have "\<forall>j<k. j \<in> (\<lambda>p. minor (irq_at y p)) ` set (line_irqs (line_at y line))"
    using free_minor_from_least [of 0 "map (\<lambda>p. minor (irq_at y p)) (line_irqs (line_at y line))" k] by (simp add: irqline_find_free_minor_def)
  then show "\<exists>line. irqlines s' (unat mj) = Some line \<and> (\<forall>j<k. \<exists>q\<in>set (line_irqs (line_at s' line)). minor (irq_at s' q) = j)"
    using el(5) [OF l(1)] unfolding l(2) by (intro exI [of _ line]) (auto simp: image_iff)
qed

text \<open>
  Property C17: requesting an interrupt keeps the table of lines well typed.  A request that is refused or fails
  registers nothing; one that succeeds returns a new interrupt with the requested number, registered on exactly the
  line of that number, with the requested minor number or, when any will do, one below which all are taken.
\<close>

theorem irq_request_typed:
  assumes ok: "lines_ok s" and call: "irq_request_internal out name mj mn cb cp u n s = (r, h, s')"
  shows "lines_ok s' \<and> (if r \<noteq> 0 then listed s' = listed s
    else \<exists>p line. h = Some p \<and> p \<notin> listed s \<and> listed s' = insert p (listed s) \<and> major (irq_at s' p) = mj \<and>
      irqlines s' (unat mj) = Some line \<and> p \<in> set (line_irqs (line_at s' line)) \<and>
      (if mn \<noteq> IRQ_ANY_MINOR then minor (irq_at s' p) = mn
       else \<forall>j<minor (irq_at s' p). \<exists>q\<in>set (line_irqs (line_at s' line)). minor (irq_at s' q) = j))"
proof (cases "unat mj \<ge> IDT_ENTRIES \<or> irq_denied mj s")
  case True
  then show ?thesis using call ok by (auto simp: irq_request_internal_def E_INVAL_def E_PERM_def split: if_splits)
next
  case False
  then have mj: "unat mj < IDT_ENTRIES" by simp
  obtain k s1 where k: "pick_minor mj mn s = (k, s1)" by (meson surj_pair)
  note pm = pick_minor_ok [OF ok mj k]
  show ?thesis
  proof (cases k)
    case (Inl e)
    then show ?thesis using call k False pm(1-3) by (auto simp: irq_request_internal_def)
  next
    case (Inr m)
    obtain ra h1 s2 where a: "irq_alloc mj m u n name cp cb out s1 = (ra, h1, s2)" by (metis prod_cases3)
    from pm(1) a show ?thesis
    proof (cases rule: irq_alloc_cases)
      case fail
      then show ?thesis using call k False Inr a pm(2) by (auto simp: irq_request_internal_def)
    next
      case (made p)
      obtain lo s3 where e: "ensure_line mj s2 = (lo, s3)" by (meson surj_pair)
      note el = ensure_line_ok [OF made(3) mj e]
      have p3: "p \<notin> listed s3" "p \<notin> ran (irqlines s3)" "p \<in> klive (heaps_of (mem s3))" "irq_owner (irq_at s3 p) = None"
        using made el(1-4) el(6) [of p] by (auto simp: heap_grew_def lines_ok_def)
      note rel = release_unlisted [OF el(1) p3]
      have l3: "listed s3 = listed s" using el(2) made(4) pm(2) by simp
      show ?thesis
      proof (cases "\<exists>line. lo = Some line \<and> find (\<lambda>q. minor (irq_at s3 q) = m) (line_irqs (line_at s3 line)) = None")
        case False
        then have "r \<noteq> 0 \<and> s' = irq_release_internal (Some p) s3"
          using call k \<open>\<not> (unat mj \<ge> IDT_ENTRIES \<or> irq_denied mj s)\<close> Inr a made(1,2) e
          by (cases lo) (auto simp: irq_request_internal_def E_INTERNAL_def E_IRQ_INUSE_def split: if_splits)
        then show ?thesis using rel l3 by simp
      next
        case True
        then obtain line where line: "lo = Some line" "find (\<lambda>q. minor (irq_at s3 q) = m) (line_irqs (line_at s3 line)) = None" by blast
        note l5 = el(5) [OF line(1)]
        have res: "r = 0" "h = Some p" "s' = irqline_add_irq line p (if u then bind_owner n p s3 else s3)"
          using call k False Inr a made(1,2) e line by (auto simp: irq_request_internal_def)
        have mm: "major (irq_at s3 p) = mj" "minor (irq_at s3 p) = m" using el(3) made(11,12) by simp_all
        have add: "lines_ok s' \<and> listed s' = insert p (listed s3) \<and> major (irq_at s' p) = mj \<and> minor (irq_at s' p) = m"
          using add_irq_ok [OF el(1) l5 p3(1,3) _ _ res(3)] line(2) mm by simp
        have at: "irqlines s' (unat mj) = Some line" "line_irqs (line_at s' line) = p # line_irqs (line_at s3 line)"
          "minor (irq_at s' q) = minor (irq_at s3 q)" for q
          using l5 by (simp_all add: res(3) irqline_add_irq_def bind_owner_fields)
        have least: "\<forall>j<m. \<exists>q\<in>set (line_irqs (line_at s' line)). minor (irq_at s' q) = j" if any: "mn = IRQ_ANY_MINOR"
        proof -
          obtain l1 where l1: "irqlines s1 (unat mj) = Some l1" "\<forall>j<m. \<exists>q\<in>set (line_irqs (line_at s1 l1)). minor (irq_at s1 q) = j"
            using pm(5) [OF Inr any] by blast
          have "s3 = s2" "line = l1" using e l1(1) made(8) line(1) by (auto simp: ensure_line_def)
          moreover have "irq_at s2 q = irq_at s1 q" if "q \<in> set (line_irqs (line_at s1 l1))" for q
            using made(10) that l1(1) by (auto simp: listed_def)
          ultimately show ?thesis using l1(2) made(9) at by fastforce
        qed
        show ?thesis using res(1,2) add at(1,2) least pm(4) [OF Inr] p3(1) l3 by auto
      qed
    qed
  qed
qed

lemma irq_request_typed_witness:
  "\<exists>m r h s'. room 16000000 (heaps_of m) \<and> irq_request_internal None 0 0x21 IRQ_ANY_MINOR 0x500 0 False 0 (demo m) = (r, h, s') \<and>
     lines_ok s' \<and> (if r \<noteq> 0 then listed s' = {} else \<exists>p. h = Some p \<and> listed s' = {p} \<and> major (irq_at s' p) = 0x21)"
proof -
  obtain m :: memsys where m: "room 16000000 (heaps_of m)" using ex_memsys by blast
  have d: "irqlines (demo m) = (\<lambda>_. None)" "heaps_of (mem (demo m)) = heaps_of m" by (simp_all add: demo_def boot_kernel_def)
  then have e: "listed (demo m) = {}" by (simp add: listed_def)
  with d room_ok [OF m] have ok: "lines_ok (demo m)" by (simp add: lines_ok_def)
  obtain r h s' where c: "irq_request_internal None 0 0x21 IRQ_ANY_MINOR 0x500 0 False 0 (demo m) = (r, h, s')" by (metis prod_cases3)
  have "lines_ok s' \<and> (if r \<noteq> 0 then listed s' = {} else \<exists>p. h = Some p \<and> listed s' = {p} \<and> major (irq_at s' p) = 0x21)"
    using irq_request_typed [OF ok c] e by (auto split: if_splits)
  with m c show ?thesis by blast
qed

end
