(* ===== verification/Redblack.thy ===== *)
theory Redblack
  imports Prelude
begin

text \<open>
  Red-black trees (\<^verbatim>\<open>kernel/lib/rbtree.c\<close>, \<^verbatim>\<open>include/lib/rbtree.h\<close>) on a store of nodes: one function per field of
  \<^verbatim>\<open>rbnode\<close>, and the fields \<^verbatim>\<open>root\<close> and \<^verbatim>\<open>nil\<close> of the tree.  The code reads and writes the sentinel
  \<^verbatim>\<open>nil\<close> like any other node.  \<open>tree_at s t\<close> says that the store holds the coloured tree \<open>t\<close>; a position in it is
  a subtree in a context, the list of the frames on the way to the root, and the loops that climb are
  followed by recursion on the context.
\<close>

section \<open>The store\<close>

datatype color = RED | BLACK

record rbstore =
  rb_col :: "ptr \<Rightarrow> color"
  rb_parent :: "ptr \<Rightarrow> ptr"
  rb_left :: "ptr \<Rightarrow> ptr"
  rb_right :: "ptr \<Rightarrow> ptr"
  rb_root :: ptr
  rb_nil :: ptr

definition set_col :: "ptr \<Rightarrow> color \<Rightarrow> rbstore \<Rightarrow> rbstore" where
  "set_col a v s = s\<lparr>rb_col := (rb_col s)(a := v)\<rparr>"

definition set_parent :: "ptr \<Rightarrow> ptr \<Rightarrow> rbstore \<Rightarrow> rbstore" where
  "set_parent a v s = s\<lparr>rb_parent := (rb_parent s)(a := v)\<rparr>"

definition set_left :: "ptr \<Rightarrow> ptr \<Rightarrow> rbstore \<Rightarrow> rbstore" where
  "set_left a v s = s\<lparr>rb_left := (rb_left s)(a := v)\<rparr>"

definition set_right :: "ptr \<Rightarrow> ptr \<Rightarrow> rbstore \<Rightarrow> rbstore" where
  "set_right a v s = s\<lparr>rb_right := (rb_right s)(a := v)\<rparr>"

section \<open>Rotations\<close>

definition left_rotate :: "ptr \<Rightarrow> rbstore \<Rightarrow> rbstore" where
  "left_rotate node s =
     (let right = rb_right s node; parent = rb_parent s node;
          s = set_right node (rb_left s right) s;
          s = (if rb_left s right \<noteq> rb_nil s then set_parent (rb_left s right) node s else s);
          s = set_left right node s;
          s = set_parent right parent s;
          s = (if parent \<noteq> rb_nil s
               then if rb_left s parent = node then set_left parent right s else set_right parent right s
               else s\<lparr>rb_root := right\<rparr>)
      in set_parent node right s)"

definition right_rotate :: "ptr \<Rightarrow> rbstore \<Rightarrow> rbstore" where
  "right_rotate node s =
     (let left = rb_left s node; parent = rb_parent s node;
          s = set_left node (rb_right s left) s;
          s = (if rb_right s left \<noteq> rb_nil s then set_parent (rb_right s left) node s else s);
          s = set_right left node s;
          s = set_parent left parent s;
          s = (if parent \<noteq> rb_nil s
               then if rb_left s parent = node then set_left parent left s else set_right parent left s
               else s\<lparr>rb_root := left\<rparr>)
      in set_parent node left s)"

definition rbtree_replace_node :: "ptr \<Rightarrow> ptr \<Rightarrow> rbstore \<Rightarrow> rbstore" where
  "rbtree_replace_node old new s =
     (let s = (if rb_parent s old = rb_nil s then s\<lparr>rb_root := new\<rparr>
               else if rb_left s (rb_parent s old) = old then set_left (rb_parent s old) new s
               else set_right (rb_parent s old) new s)
      in set_parent new (rb_parent s old) s)"

definition rbtree_init :: "ptr \<Rightarrow> rbstore \<Rightarrow> rbstore" where
  "rbtree_init nl s =
     (let s = set_col nl BLACK s; s = set_left nl nl s; s = set_right nl nl s; s = set_parent nl nl s
      in s\<lparr>rb_root := nl, rb_nil := nl\<rparr>)"

section \<open>Search and traversal\<close>

text \<open>A loop that follows pointers may not end on a damaged tree; \<open>None\<close> is the loop that does not return.\<close>

partial_function (option) search_loop :: "(ptr \<Rightarrow> int) \<Rightarrow> ptr \<Rightarrow> rbstore \<Rightarrow> ptr option option" where
  "search_loop cmp node s =
     (if node \<noteq> rb_nil s
      then if cmp node < 0 then search_loop cmp (rb_left s node) s
           else if cmp node > 0 then search_loop cmp (rb_right s node) s
           else Some (Some node)
      else Some None)"

definition rbtree_search :: "(ptr \<Rightarrow> int) \<Rightarrow> rbstore \<Rightarrow> ptr option option" where
  "rbtree_search cmp s = (if rb_root s = rb_nil s then Some None else search_loop cmp (rb_root s) s)"

partial_function (option) leftmost :: "ptr \<Rightarrow> rbstore \<Rightarrow> ptr option" where
  "leftmost n s = (if rb_left s n \<noteq> rb_nil s then leftmost (rb_left s n) s else Some n)"

partial_function (option) rightmost :: "ptr \<Rightarrow> rbstore \<Rightarrow> ptr option" where
  "rightmost n s = (if rb_right s n \<noteq> rb_nil s then rightmost (rb_right s n) s else Some n)"

definition rbtree_first :: "rbstore \<Rightarrow> ptr option option" where
  "rbtree_first s = (if rb_root s = rb_nil s then Some None else map_option Some (leftmost (rb_root s) s))"

definition rbtree_last :: "rbstore \<Rightarrow> ptr option option" where
  "rbtree_last s = (if rb_root s = rb_nil s then Some None else map_option Some (rightmost (rb_root s) s))"

partial_function (option) climb_right :: "ptr \<Rightarrow> ptr \<Rightarrow> rbstore \<Rightarrow> ptr option" where
  "climb_right node p s = (if p \<noteq> rb_nil s \<and> node = rb_right s p then climb_right p (rb_parent s p) s else Some p)"

partial_function (option) climb_left :: "ptr \<Rightarrow> ptr \<Rightarrow> rbstore \<Rightarrow> ptr option" where
  "climb_left node p s = (if p \<noteq> rb_nil s \<and> node = rb_left s p then climb_left p (rb_parent s p) s else Some p)"

definition rbtree_next :: "ptr \<Rightarrow> rbstore \<Rightarrow> ptr option option" where
  "rbtree_next node s =
     (if rb_right s node \<noteq> rb_nil s then map_option Some (leftmost (rb_right s node) s)
      else map_option (\<lambda>p. if p = rb_nil s then None else Some p) (climb_right node (rb_parent s node) s))"

definition rbtree_prev :: "ptr \<Rightarrow> rbstore \<Rightarrow> ptr option option" where
  "rbtree_prev node s =
     (if rb_left s node \<noteq> rb_nil s then map_option Some (rightmost (rb_left s node) s)
      else map_option (\<lambda>p. if p = rb_nil s then None else Some p) (climb_left node (rb_parent s node) s))"

partial_function (option) for_each_from :: "ptr option \<Rightarrow> rbstore \<Rightarrow> ptr list option" where
  "for_each_from pos s =
     (case pos of
        None \<Rightarrow> Some []
      | Some n \<Rightarrow> Option.bind (rbtree_next n s) (\<lambda>m. Option.bind (for_each_from m s) (\<lambda>ns. Some (n # ns))))"

text \<open>The nodes that \<^verbatim>\<open>rbtree_for_each\<close> visits, in its order.\<close>

definition rbtree_for_each :: "rbstore \<Rightarrow> ptr list option" where
  "rbtree_for_each s = Option.bind (rbtree_first s) (\<lambda>n. for_each_from n s)"

section \<open>Insertion\<close>

definition insert_recolour :: "ptr \<Rightarrow> ptr \<Rightarrow> rbstore \<Rightarrow> rbstore" where
  "insert_recolour node uncle s =
     (let s = set_col (rb_parent s node) BLACK s;
          s = set_col uncle BLACK s
      in set_col (rb_parent s (rb_parent s node)) RED s)"

definition insert_left_case :: "ptr \<Rightarrow> rbstore \<Rightarrow> rbstore" where
  "insert_left_case node s =
     (let (node, s) = (if node = rb_right s (rb_parent s node)
                       then (rb_parent s node, left_rotate (rb_parent s node) s) else (node, s));
          s = set_col (rb_parent s node) BLACK s;
          s = set_col (rb_parent s (rb_parent s node)) RED s
      in right_rotate (rb_parent s (rb_parent s node)) s)"

definition insert_right_case :: "ptr \<Rightarrow> rbstore \<Rightarrow> rbstore" where
  "insert_right_case node s =
     (let (node, s) = (if node = rb_left s (rb_parent s node)
                       then (rb_parent s node, right_rotate (rb_parent s node) s) else (node, s));
          s = set_col (rb_parent s node) BLACK s;
          s = set_col (rb_parent s (rb_parent s node)) RED s
      in left_rotate (rb_parent s (rb_parent s node)) s)"

partial_function (option) insert_fixup :: "ptr \<Rightarrow> rbstore \<Rightarrow> rbstore option" where
  "insert_fixup node s =
     (if rb_parent s node \<noteq> rb_nil s \<and> rb_col s (rb_parent s node) = RED then
        if rb_left s (rb_parent s (rb_parent s node)) = rb_parent s node then
          let uncle = rb_right s (rb_parent s (rb_parent s node)) in
          if rb_col s uncle = RED
          then insert_fixup (rb_parent s (rb_parent s node)) (insert_recolour node uncle s)
          else Some (insert_left_case node s)
        else
          let uncle = rb_left s (rb_parent s (rb_parent s node)) in
          if rb_col s uncle = RED
          then insert_fixup (rb_parent s (rb_parent s node)) (insert_recolour node uncle s)
          else Some (insert_right_case node s)
      else Some s)"

partial_function (option) insert_descend :: "(ptr \<Rightarrow> int) \<Rightarrow> ptr \<Rightarrow> ptr \<Rightarrow> rbstore \<Rightarrow> ptr option" where
  "insert_descend cmp node parent s =
     (if node \<noteq> rb_nil s
      then insert_descend cmp (if cmp node < 0 then rb_left s node else rb_right s node) node s
      else Some parent)"

definition rbtree_insert :: "ptr option \<Rightarrow> (ptr \<Rightarrow> ptr \<Rightarrow> int) option \<Rightarrow> rbstore \<Rightarrow> rbstore option" where
  "rbtree_insert new_node cmp s =
     (case (new_node, cmp) of
        (Some new_node, Some cmp) \<Rightarrow>
          let s = set_col new_node RED s;
              s = set_left new_node (rb_nil s) s;
              s = set_right new_node (rb_nil s) s;
              s = set_parent new_node (rb_nil s) s in
          if rb_root s = rb_nil s then Some (set_col new_node BLACK (s\<lparr>rb_root := new_node\<rparr>))
          else Option.bind (insert_descend (cmp new_node) (rb_root s) (rb_nil s) s) (\<lambda>parent.
            let s = set_parent new_node parent s;
                s = (if cmp new_node parent < 0 then set_left parent new_node s else set_right parent new_node s) in
            Option.bind (insert_fixup new_node s) (\<lambda>s. Some (set_col (rb_root s) BLACK s)))
      | _ \<Rightarrow> Some s)"

definition rbtree_find_or_insert :: "(ptr \<Rightarrow> int) \<Rightarrow> ptr option \<Rightarrow> (ptr \<Rightarrow> ptr \<Rightarrow> int) option \<Rightarrow> rbstore \<Rightarrow> (ptr option \<times> rbstore) option" where
  "rbtree_find_or_insert key_cmp new_node node_cmp s =
     Option.bind (rbtree_search key_cmp s) (\<lambda>found.
       case found of
         Some n \<Rightarrow> Some (Some n, s)
       | None \<Rightarrow> Option.bind (rbtree_insert new_node node_cmp s) (\<lambda>s. Some (None, s)))"

section \<open>Deletion\<close>

text \<open>One round of the loop for a left child: go on with a node (\<open>Inl\<close>) or leave the loop (\<open>Inr\<close>).\<close>

definition delete_left_case :: "ptr \<Rightarrow> rbstore \<Rightarrow> ptr \<times> rbstore + rbstore" where
  "delete_left_case node s =
     (let brother = rb_right s (rb_parent s node);
          (brother, s) =
            (if rb_col s brother = RED
             then let s = set_col brother BLACK s;
                      s = set_col (rb_parent s brother) RED s;
                      s = left_rotate (rb_parent s node) s
                  in (rb_right s (rb_parent s node), s)
             else (brother, s)) in
      if rb_col s (rb_left s brother) = BLACK \<and> rb_col s (rb_right s brother) = BLACK
      then let s = (if brother \<noteq> rb_nil s then set_col brother RED s else s) in Inl (rb_parent s node, s)
      else
        let (brother, s) =
              (if rb_col s (rb_right s brother) = BLACK
               then let s = set_col (rb_left s brother) BLACK s;
                        s = set_col brother RED s;
                        s = right_rotate brother s
                    in (rb_right s (rb_parent s node), s)
               else (brother, s));
            s = set_col brother (rb_col s (rb_parent s node)) s;
            s = set_col (rb_parent s node) BLACK s;
            s = set_col (rb_right s brother) BLACK s
        in Inr (left_rotate (rb_parent s node) s))"

definition delete_right_case :: "ptr \<Rightarrow> rbstore \<Rightarrow> ptr \<times> rbstore + rbstore" where
  "delete_right_case node s =
     (let brother = rb_left s (rb_parent s node);
          (brother, s) =
            (if rb_col s brother = RED
             then let s = set_col brother BLACK s;
                      s = set_col (rb_parent s brother) RED s;
                      s = right_rotate (rb_parent s node) s
                  in (rb_left s (rb_parent s node), s)
             else (brother, s)) in
      if rb_col s (rb_left s brother) = BLACK \<and> rb_col s (rb_right s brother) = BLACK
      then let s = (if brother \<noteq> rb_nil s then set_col brother RED s else s) in Inl (rb_parent s node, s)
      else
        let (brother, s) =
              (if rb_col s (rb_left s brother) = BLACK
               then let s = set_col (rb_right s brother) BLACK s;
                        s = set_col brother RED s;
                        s = left_rotate brother s
                    in (rb_left s (rb_parent s node), s)
               else (brother, s));
            s = set_col brother (rb_col s (rb_parent s node)) s;
            s = set_col (rb_parent s node) BLACK s;
            s = set_col (rb_left s brother) BLACK s
        in Inr (right_rotate (rb_parent s node) s))"

partial_function (option) delete_fixup :: "ptr \<Rightarrow> rbstore \<Rightarrow> rbstore option" where
  "delete_fixup node s =
     (if node \<noteq> rb_root s \<and> rb_col s node = BLACK
      then case (if node = rb_left s (rb_parent s node) then delete_left_case node s else delete_right_case node s) of
             Inl (node, s) \<Rightarrow> delete_fixup node s
           | Inr s \<Rightarrow> Some (set_col node BLACK s)
      else Some (set_col node BLACK s))"

text \<open>The node with two children is replaced by \<open>new\<close>, the least node of its right subtree.\<close>

definition replace_by_next :: "ptr \<Rightarrow> ptr \<Rightarrow> rbstore \<Rightarrow> rbstore" where
  "replace_by_next node new s =
     (let fixup_node = rb_right s new;
          s = (if rb_parent s new = node
               then let s = set_parent (rb_left s node) new s;
                        s = set_left new (rb_left s node) s
                    in set_parent fixup_node new s
               else let s = rbtree_replace_node new (rb_right s new) s;
                        s = set_right new (rb_right s node) s
                    in set_parent (rb_right s new) new s);
          s = rbtree_replace_node node new s;
          s = set_left new (rb_left s node) s;
          s = set_parent (rb_left s new) new s
      in set_col new (rb_col s node) s)"

definition rbtree_delete :: "ptr option \<Rightarrow> rbstore \<Rightarrow> rbstore option" where
  "rbtree_delete node s =
     (case node of
        None \<Rightarrow> Some s
      | Some node \<Rightarrow>
          if rb_left s node = rb_nil s then
            let removed_color = rb_col s node; fixup_node = rb_right s node;
                s = rbtree_replace_node node fixup_node s
            in if removed_color = BLACK then delete_fixup fixup_node s else Some s
          else if rb_right s node = rb_nil s then
            let removed_color = rb_col s node; fixup_node = rb_left s node;
                s = rbtree_replace_node node fixup_node s
            in if removed_color = BLACK then delete_fixup fixup_node s else Some s
          else Option.bind (leftmost (rb_right s node) s) (\<lambda>new_node.
            let removed_color = rb_col s new_node; fixup_node = rb_right s new_node;
                s = replace_by_next node new_node s
            in if removed_color = BLACK then delete_fixup fixup_node s else Some s))"

section \<open>Trees and positions\<close>

text \<open>
  The tree a store holds, with the addresses of its nodes.  A frame \<open>Fr d c a y\<close> is a node \<open>a\<close> of colour \<open>c\<close>
  whose child on side \<open>d\<close> is left open and whose other child is \<open>y\<close>.  The two sides mirror each other, so most
  of what follows is said once, for a side.
\<close>

datatype rbt = Tip | Bin color rbt ptr rbt

datatype side = L | R

datatype frame = Fr side color ptr rbt

type_synonym ctx = "frame list"

fun opp :: "side \<Rightarrow> side" where "opp L = R" | "opp R = L"

fun bin :: "side \<Rightarrow> color \<Rightarrow> rbt \<Rightarrow> ptr \<Rightarrow> rbt \<Rightarrow> rbt" where
  "bin L c x a y = Bin c x a y"
| "bin R c x a y = Bin c y a x"

fun inorder :: "rbt \<Rightarrow> ptr list" where
  "inorder Tip = []"
| "inorder (Bin c l a r) = inorder l @ a # inorder r"

fun nodes :: "rbt \<Rightarrow> ptr set" where
  "nodes Tip = {}"
| "nodes (Bin c l a r) = insert a (nodes l \<union> nodes r)"

fun plug :: "rbt \<Rightarrow> ctx \<Rightarrow> rbt" where
  "plug t [] = t"
| "plug t (Fr d c a y # k) = plug (bin d c t a y) k"

fun ctx_nodes :: "ctx \<Rightarrow> ptr set" where
  "ctx_nodes [] = {}"
| "ctx_nodes (Fr d c a y # k) = insert a (nodes y \<union> ctx_nodes k)"

fun before :: "ctx \<Rightarrow> ptr list" where
  "before [] = []"
| "before (Fr d c a y # k) = before k @ (if d = R then inorder y @ [a] else [])"

fun after :: "ctx \<Rightarrow> ptr list" where
  "after [] = []"
| "after (Fr d c a y # k) = (if d = L then a # inorder y else []) @ after k"

fun tapart :: "rbt \<Rightarrow> bool" where
  "tapart Tip = True"
| "tapart (Bin c l a r) \<longleftrightarrow> tapart l \<and> tapart r \<and> a \<notin> nodes l \<and> a \<notin> nodes r \<and> nodes l \<inter> nodes r = {}"

fun ctx_apart :: "ctx \<Rightarrow> bool" where
  "ctx_apart [] = True"
| "ctx_apart (Fr d c a y # k) \<longleftrightarrow> tapart y \<and> a \<notin> nodes y \<and> a \<notin> ctx_nodes k \<and> nodes y \<inter> ctx_nodes k = {} \<and> ctx_apart k"

lemma set_inorder [simp]: "set (inorder t) = nodes t"
  by (induction t) auto

lemma distinct_inorder: "distinct (inorder t) \<longleftrightarrow> tapart t"
  by (induction t) auto

lemma bin_simps [simp]:
  "nodes (bin d c x a y) = insert a (nodes x \<union> nodes y)"
  "tapart (bin d c x a y) \<longleftrightarrow> tapart x \<and> tapart y \<and> a \<notin> nodes x \<and> a \<notin> nodes y \<and> nodes x \<inter> nodes y = {}"
  "bin d c x a y \<noteq> Tip"
  by (cases d; auto)+

lemma opp_simps [simp]: "opp (opp d) = d" "opp d \<noteq> d" "d \<noteq> opp d" "opp d = opp e \<longleftrightarrow> d = e" "d \<noteq> R \<longleftrightarrow> d = L"
  by (cases d; cases e; simp)+

lemma bin_opp: "bin (opp d) c x a y = bin d c y a x"
  by (cases d) auto

lemma inorder_bin: "inorder (bin d c x a y) = (if d = L then inorder x @ a # inorder y else inorder y @ a # inorder x)"
  by (cases d) auto

lemma plug_append: "plug t (k @ k') = plug (plug t k) k'"
  by (induction t k rule: plug.induct) auto

lemma ctx_append [simp]:
  "ctx_nodes (k @ k') = ctx_nodes k \<union> ctx_nodes k'" "before (k @ k') = before k' @ before k" "after (k @ k') = after k @ after k'"
  by (induction k rule: ctx_nodes.induct) auto

lemma inorder_plug: "inorder (plug t k) = before k @ inorder t @ after k"
  by (induction t k rule: plug.induct) (auto simp: inorder_bin)

lemma nodes_plug [simp]: "nodes (plug t k) = nodes t \<union> ctx_nodes k"
  by (induction t k rule: plug.induct) auto

lemma apart_plug [simp]: "tapart (plug t k) \<longleftrightarrow> tapart t \<and> ctx_apart k \<and> nodes t \<inter> ctx_nodes k = {}"
  by (induction t k rule: plug.induct) auto

text \<open>Every node of a tree is the root of a subtree in a context.\<close>

lemma node_position: "a \<in> nodes t \<Longrightarrow> \<exists>c l r k. t = plug (Bin c l a r) k"
proof (induction t)
  case (Bin c l b r)
  consider "a = b" | "a \<in> nodes l" | "a \<in> nodes r" using Bin.prems by auto
  then show ?case
  proof cases
    case 1
    then show ?thesis by (metis plug.simps(1))
  next
    case 2
    then obtain c' x y k where "l = plug (Bin c' x a y) k" using Bin.IH by blast
    then have "Bin c l b r = plug (Bin c' x a y) (k @ [Fr L c b r])" by (simp add: plug_append)
    then show ?thesis by blast
  next
    case 3
    then obtain c' x y k where "r = plug (Bin c' x a y) k" using Bin.IH by blast
    then have "Bin c l b r = plug (Bin c' x a y) (k @ [Fr R c b l])" by (simp add: plug_append)
    then show ?thesis by blast
  qed
qed simp

section \<open>Representation\<close>

fun child :: "rbstore \<Rightarrow> side \<Rightarrow> ptr \<Rightarrow> ptr" where
  "child s L a = rb_left s a"
| "child s R a = rb_right s a"

fun set_child :: "side \<Rightarrow> ptr \<Rightarrow> ptr \<Rightarrow> rbstore \<Rightarrow> rbstore" where
  "set_child L a v s = set_left a v s"
| "set_child R a v s = set_right a v s"

fun tptr :: "ptr \<Rightarrow> rbt \<Rightarrow> ptr" where
  "tptr n Tip = n"
| "tptr n (Bin c l a r) = a"

fun rep :: "rbstore \<Rightarrow> ptr \<Rightarrow> rbt \<Rightarrow> bool" where
  "rep s p Tip = True"
| "rep s p (Bin c l a r) \<longleftrightarrow> rb_parent s a = p \<and> rb_col s a = c \<and> child s L a = tptr (rb_nil s) l \<and>
     child s R a = tptr (rb_nil s) r \<and> rep s a l \<and> rep s a r"

fun cpar :: "ptr \<Rightarrow> ctx \<Rightarrow> ptr" where
  "cpar p [] = p"
| "cpar p (Fr d c a y # k) = a"

fun rep_ctx :: "rbstore \<Rightarrow> ptr \<Rightarrow> ptr \<Rightarrow> ctx \<Rightarrow> bool" where
  "rep_ctx s p n [] = True"
| "rep_ctx s p n (Fr d c a y # k) \<longleftrightarrow> child s d a = n \<and> child s (opp d) a = tptr (rb_nil s) y \<and> rb_col s a = c \<and>
     rb_parent s a = cpar p k \<and> rep s a y \<and> rep_ctx s p a k"

fun ctop :: "ptr \<Rightarrow> ctx \<Rightarrow> ptr" where
  "ctop n [] = n"
| "ctop n (Fr d c a y # k) = ctop a k"

definition tree_at :: "rbstore \<Rightarrow> rbt \<Rightarrow> bool" where
  "tree_at s t \<longleftrightarrow> rep s (rb_nil s) t \<and> rb_root s = tptr (rb_nil s) t \<and> tapart t \<and> rb_nil s \<notin> nodes t \<and> rb_col s (rb_nil s) = BLACK"

text \<open>The store holds the tree whose subtree \<open>t\<close> stands in the context \<open>k\<close>.\<close>

definition pos_at :: "rbstore \<Rightarrow> rbt \<Rightarrow> ctx \<Rightarrow> bool" where
  "pos_at s t k \<longleftrightarrow> rep s (cpar (rb_nil s) k) t \<and> rep_ctx s (rb_nil s) (tptr (rb_nil s) t) k \<and>
     rb_root s = ctop (tptr (rb_nil s) t) k \<and> tapart t \<and> ctx_apart k \<and> nodes t \<inter> ctx_nodes k = {} \<and>
     rb_nil s \<notin> nodes t \<and> rb_nil s \<notin> ctx_nodes k \<and> rb_col s (rb_nil s) = BLACK"

text \<open>Two stores agree outside a set of nodes.\<close>

definition same_outside :: "ptr set \<Rightarrow> rbstore \<Rightarrow> rbstore \<Rightarrow> bool" where
  "same_outside A s s' \<longleftrightarrow> rb_nil s' = rb_nil s \<and>
     (\<forall>b. b \<notin> A \<longrightarrow> rb_col s' b = rb_col s b \<and> rb_parent s' b = rb_parent s b \<and> rb_left s' b = rb_left s b \<and> rb_right s' b = rb_right s b)"

declare child.simps [simp del] set_child.simps [simp del]

lemma tptr_bin [simp]: "tptr n (bin d c x a y) = a"
  by (cases d) auto

lemma rep_bin [simp]:
  "rep s p (bin d c x a y) \<longleftrightarrow> rb_parent s a = p \<and> rb_col s a = c \<and> child s d a = tptr (rb_nil s) x \<and>
     child s (opp d) a = tptr (rb_nil s) y \<and> rep s a x \<and> rep s a y"
  by (cases d) auto

lemma tptr_plug: "tptr n (plug t k) = ctop (tptr n t) k"
  by (induction t k rule: plug.induct) auto

lemma tptr_nil: "n \<notin> nodes t \<Longrightarrow> tptr n t = n \<longleftrightarrow> t = Tip" "t \<noteq> Tip \<Longrightarrow> tptr n t \<in> nodes t"
  by (cases t; auto)+

lemma rep_plug: "rep s p (plug t k) \<longleftrightarrow> rep s (cpar p k) t \<and> rep_ctx s p (tptr (rb_nil s) t) k"
  by (induction t k rule: plug.induct) auto

lemma tree_at_plug: "tree_at s (plug t k) \<longleftrightarrow> pos_at s t k"
  by (auto simp: tree_at_def pos_at_def rep_plug tptr_plug)

lemma set_side: "set_left = set_child L" "set_right = set_child R"
  by (intro ext; simp add: set_child.simps)+

lemma get_side: "rb_left s = child s L" "rb_right s = child s R"
  by (intro ext; simp add: child.simps)+

text \<open>Reading after an assignment.\<close>

lemma store_simps [simp]:
  "rb_col (set_col a c s) = (rb_col s)(a := c)" "rb_parent (set_col a c s) = rb_parent s" "child (set_col a c s) = child s"
  "rb_root (set_col a c s) = rb_root s" "rb_nil (set_col a c s) = rb_nil s"
  "rb_col (set_parent a v s) = rb_col s" "rb_parent (set_parent a v s) = (rb_parent s)(a := v)" "child (set_parent a v s) = child s"
  "rb_root (set_parent a v s) = rb_root s" "rb_nil (set_parent a v s) = rb_nil s"
  "rb_col (set_child d a v s) = rb_col s" "rb_parent (set_child d a v s) = rb_parent s"
  "rb_root (set_child d a v s) = rb_root s" "rb_nil (set_child d a v s) = rb_nil s"
  "child (s\<lparr>rb_root := n\<rparr>) = child s"
proof -
  have "child (set_col a c s) e b = child s e b" "child (set_parent a v s) e b = child s e b"
    "child (s\<lparr>rb_root := n\<rparr>) e b = child s e b" for e b
    by (cases e; simp add: child.simps set_col_def set_parent_def)+
  then show "child (set_col a c s) = child s" "child (set_parent a v s) = child s" "child (s\<lparr>rb_root := n\<rparr>) = child s"
    by (intro ext; simp)+
qed (cases d; simp add: set_child.simps set_col_def set_parent_def set_left_def set_right_def)+

lemma child_set_child [simp]: "child (set_child d a v s) e b = (if d = e \<and> b = a then v else child s e b)"
  by (cases d; cases e) (auto simp: child.simps set_child.simps set_left_def set_right_def)

text \<open>An assignment to a node outside a tree or a context leaves it as it is.\<close>

lemma rep_cong:
  assumes "rb_nil s' = rb_nil s"
    "\<And>a. a \<in> nodes t \<Longrightarrow> rb_col s' a = rb_col s a \<and> rb_parent s' a = rb_parent s a \<and> (\<forall>d. child s' d a = child s d a)"
  shows "rep s' p t \<longleftrightarrow> rep s p t"
  using assms by (induction t arbitrary: p) auto

lemma rep_ctx_cong:
  assumes "rb_nil s' = rb_nil s"
    "\<And>a. a \<in> ctx_nodes k \<Longrightarrow> rb_col s' a = rb_col s a \<and> rb_parent s' a = rb_parent s a \<and> (\<forall>d. child s' d a = child s d a)"
  shows "rep_ctx s' p n k \<longleftrightarrow> rep_ctx s p n k"
  using assms(2)
proof (induction k arbitrary: n)
  case (Cons f k)
  obtain d c a y where f: "f = Fr d c a y" by (cases f)
  have "rep s' a y \<longleftrightarrow> rep s a y" by (rule rep_cong [OF assms(1)]) (use Cons.prems f in auto)
  then show ?case using Cons f assms(1) by auto
qed simp

lemma rep_frame [simp]:
  "a \<notin> nodes t \<Longrightarrow> rep (set_col a c s) p t \<longleftrightarrow> rep s p t"
  "a \<notin> nodes t \<Longrightarrow> rep (set_parent a v s) p t \<longleftrightarrow> rep s p t"
  "a \<notin> nodes t \<Longrightarrow> rep (set_child d a v s) p t \<longleftrightarrow> rep s p t"
  "rep (s\<lparr>rb_root := n\<rparr>) p t \<longleftrightarrow> rep s p t"
  by (rule rep_cong; auto)+

lemma rep_ctx_frame [simp]:
  "a \<notin> ctx_nodes k \<Longrightarrow> rep_ctx (set_col a c s) p n k \<longleftrightarrow> rep_ctx s p n k"
  "a \<notin> ctx_nodes k \<Longrightarrow> rep_ctx (set_parent a v s) p n k \<longleftrightarrow> rep_ctx s p n k"
  "a \<notin> ctx_nodes k \<Longrightarrow> rep_ctx (set_child d a v s) p n k \<longleftrightarrow> rep_ctx s p n k"
  "rep_ctx (s\<lparr>rb_root := m\<rparr>) p n k \<longleftrightarrow> rep_ctx s p n k"
  by (rule rep_ctx_cong; auto)+

lemma rep_reparent:
  assumes "rep s p t" "rb_nil s \<notin> nodes t" "tapart t"
  shows "rep (set_parent (tptr (rb_nil s) t) q s) q t"
  using assms by (cases t) auto

lemma same_outside_refl [simp]: "same_outside A s s"
  by (simp add: same_outside_def)

lemma same_outside_trans: "same_outside A s t \<Longrightarrow> same_outside A t u \<Longrightarrow> same_outside A s u"
  by (auto simp: same_outside_def)

lemma same_outside_upd:
  "same_outside A s t \<Longrightarrow> a \<in> A \<Longrightarrow> same_outside A s (set_col a c t)"
  "same_outside A s t \<Longrightarrow> a \<in> A \<Longrightarrow> same_outside A s (set_parent a v t)"
  "same_outside A s t \<Longrightarrow> a \<in> A \<Longrightarrow> same_outside A s (set_child d a v t)"
  "same_outside A s t \<Longrightarrow> same_outside A s (t\<lparr>rb_root := v\<rparr>)"
  by (auto simp: same_outside_def get_side)

lemma cpar_cases: "cpar n k = n \<and> k = [] \<or> cpar n k \<in> ctx_nodes k"
  by (cases k rule: ctx_nodes.cases) auto

section \<open>Rotations move one node\<close>

text \<open>The parent's pointer to a node, or the root, is redirected.\<close>

definition relink :: "ptr \<Rightarrow> ptr \<Rightarrow> ptr \<Rightarrow> rbstore \<Rightarrow> rbstore" where
  "relink p old new s =
     (if p \<noteq> rb_nil s then if child s L p = old then set_child L p new s else set_child R p new s
      else s\<lparr>rb_root := new\<rparr>)"

lemma relink_fields [simp]:
  "rb_col (relink p m n s) = rb_col s" "rb_parent (relink p m n s) = rb_parent s" "rb_nil (relink p m n s) = rb_nil s"
  "a \<noteq> p \<or> p = rb_nil s \<Longrightarrow> child (relink p m n s) d a = child s d a"
  by (auto simp: relink_def)

lemma relink_rep: "p = rb_nil s \<or> p \<notin> nodes t \<Longrightarrow> rep (relink p m n s) q t \<longleftrightarrow> rep s q t"
  by (rule rep_cong) (auto simp: relink_def)

lemma relink_ctx:
  assumes "rep_ctx s (rb_nil s) m k" "rb_root s = ctop m k" "m \<notin> ctx_nodes k" "m \<noteq> rb_nil s" "ctx_apart k" "rb_nil s \<notin> ctx_nodes k"
  shows "rep_ctx (relink (cpar (rb_nil s) k) m n s) (rb_nil s) n k \<and> rb_root (relink (cpar (rb_nil s) k) m n s) = ctop n k"
proof (cases k rule: ctx_nodes.cases)
  case (2 d c a y k')
  then have "a \<noteq> rb_nil s" "tptr (rb_nil s) y \<noteq> m" using assms by (cases y; auto)+
  then show ?thesis using assms 2 by (cases d) (auto simp: relink_def)
qed (use assms in \<open>auto simp: relink_def\<close>)

definition rotate :: "side \<Rightarrow> ptr \<Rightarrow> rbstore \<Rightarrow> rbstore" where
  "rotate d a s =
     (let b = child s (opp d) a; y = child s d b; p = rb_parent s a;
          s = set_child (opp d) a y s;
          s = (if y \<noteq> rb_nil s then set_parent y a s else s)
      in set_parent a b (relink p a b (set_parent b p (set_child d b a s))))"

lemma rotate_sides: "left_rotate = rotate L" "right_rotate = rotate R"
  by (intro ext; simp add: left_rotate_def right_rotate_def rotate_def relink_def Let_def get_side set_side)+

lemma rotate_pos:
  assumes "pos_at s (bin d c x a (bin d c' y b z)) k"
  shows "pos_at (rotate d a s) (bin d c' (bin d c x a y) b z) k"
proof -
  define n where "n = rb_nil s"
  define p where "p = cpar n k"
  define u where "u = set_child (opp d) a (tptr n y) s"
  define v where "v = set_child d b a (if tptr n y \<noteq> n then set_parent (tptr n y) a u else u)"
  have f: "child s (opp d) a = b" "child s d b = tptr n y" "rb_parent s a = p" "rb_parent s b = a" "child s d a = tptr n x"
    "child s (opp d) b = tptr n z" "rb_col s a = c" "rb_col s b = c'" "rep s a x" "rep s b y" "rep s b z"
    and ctx: "rep_ctx s n a k" "rb_root s = ctop a k" "rb_col s n = BLACK"
    and ap: "tapart x" "tapart y" "tapart z" "a \<noteq> b" "a \<notin> nodes x \<union> nodes y \<union> nodes z" "b \<notin> nodes x \<union> nodes y \<union> nodes z"
    "nodes x \<inter> nodes y = {}" "nodes x \<inter> nodes z = {}" "nodes y \<inter> nodes z = {}" "ctx_apart k"
    "(insert a (insert b (nodes x \<union> nodes y \<union> nodes z))) \<inter> ctx_nodes k = {}"
    "n \<notin> insert a (insert b (nodes x \<union> nodes y \<union> nodes z)) \<union> ctx_nodes k"
    using assms by (auto simp: pos_at_def n_def p_def)
  have pn: "p = n \<or> p \<notin> nodes x \<union> nodes y \<union> nodes z \<union> {a, b}" using cpar_cases [of n k] ap(11) by (auto simp: p_def)
  have r: "rotate d a s = set_parent a b (relink p a b (set_parent b p v))"
    using f ap(4) by (simp add: rotate_def Let_def u_def v_def n_def)
  have nv: "rb_nil v = n" "rb_root v = rb_root s" "rb_col v = rb_col s" by (simp_all add: v_def u_def n_def)
  have yk: "tptr n y \<noteq> n \<Longrightarrow> tptr n y \<notin> ctx_nodes k \<and> tptr n y \<notin> nodes x \<and> tptr n y \<notin> nodes z \<and> tptr n y \<noteq> a \<and> tptr n y \<noteq> b"
    using ap by (cases y) auto
  have kv: "rep_ctx (set_parent b p v) n a k" using ctx yk ap by (auto simp: v_def u_def)
  have ak: "a \<notin> ctx_nodes k" "b \<notin> ctx_nodes k" "a \<noteq> n" "b \<noteq> n" "n \<notin> ctx_nodes k" using ap by auto
  define w where "w = relink p a b (set_parent b p v)"
  have w: "rep_ctx w n b k" "rb_root w = ctop b k"
    using relink_ctx [of "set_parent b p v" a k b] kv nv ctx(2) ak ap(10) by (simp_all add: w_def p_def)
  have ny: "a \<notin> nodes y" "b \<notin> nodes y" "n \<notin> nodes y" using ap by auto
  have "rep (set_parent (tptr n y) a u) a y"
    using rep_reparent [of u b y a] f(10) ap(2) ny by (simp add: u_def flip: n_def)
  then have "rep v a y" using ny by (cases "y = Tip") (simp_all add: v_def tptr_nil)
  moreover have "rep v a x" "rep v b z" using f ap yk by (auto simp: v_def u_def)
  moreover have "child v d a = tptr n x" "child v (opp d) a = tptr n y" "child v d b = a" "child v (opp d) b = tptr n z"
    using f ap by (auto simp: v_def u_def)
  ultimately have "rep w a x" "rep w a y" "rep w b z" "child w d a = tptr n x" "child w (opp d) a = tptr n y"
    "child w d b = a" "child w (opp d) b = tptr n z" "rb_parent w b = p" "rb_col w = rb_col s" "rb_nil w = n"
    using pn ap nv by (auto simp: w_def relink_rep)
  then show ?thesis unfolding r w_def [symmetric] pos_at_def
    using w ap ak ctx(3) f(7,8) by (auto simp: p_def)
qed

lemma relink_outside: "same_outside A s t \<Longrightarrow> p = rb_nil t \<or> p \<in> A \<Longrightarrow> same_outside A s (relink p m n t)"
  by (auto simp: relink_def intro!: same_outside_upd)

lemma rotate_outside:
  assumes "pos_at s (bin d c x a (bin d c' y b z)) k"
  shows "same_outside (nodes (bin d c x a (bin d c' y b z)) \<union> ctx_nodes k) s (rotate d a s)"
proof -
  have f: "child s (opp d) a = b" "child s d b = tptr (rb_nil s) y" "rb_parent s a = cpar (rb_nil s) k"
    using assms by (auto simp: pos_at_def)
  have y: "tptr (rb_nil s) y = rb_nil s \<or> tptr (rb_nil s) y \<in> nodes y" by (cases y) auto
  show ?thesis
    unfolding rotate_def Let_def f
    by (intro same_outside_upd relink_outside) (use cpar_cases [of "rb_nil s" k] y in \<open>auto intro!: same_outside_upd\<close>)
qed

lemma rotate_fields [simp]: "rb_nil (rotate d a s) = rb_nil s" "rb_col (rotate d a s) = rb_col s"
  by (simp_all add: rotate_def Let_def)

section \<open>Steps at a position\<close>

lemma pos_up: "pos_at s t (Fr d c a y # k) \<longleftrightarrow> pos_at s (bin d c t a y) k"
  by (simp flip: tree_at_plug)

lemma pos_flip: "pos_at s x (Fr d c a y # k) \<longleftrightarrow> pos_at s y (Fr (opp d) c a x # k)"
  by (simp add: bin_opp flip: tree_at_plug)

lemma pos_fields:
  assumes "pos_at s t (Fr d c a y # k)"
  shows "rb_col s a = c" "child s d a = tptr (rb_nil s) t" "child s (opp d) a = tptr (rb_nil s) y" "rb_parent s a = cpar (rb_nil s) k"
    "a \<noteq> rb_nil s" "t \<noteq> Tip \<Longrightarrow> rb_parent s (tptr (rb_nil s) t) = a" "y \<noteq> Tip \<Longrightarrow> rb_parent s (tptr (rb_nil s) y) = a"
  using assms by (cases t; cases y; auto simp: pos_at_def)+

lemma pos_col: "pos_at s (bin d c x a y) k \<Longrightarrow> pos_at (set_col a c' s) (bin d c' x a y) k"
  by (auto simp: pos_at_def)

lemma pos_col_parent: "pos_at s t (Fr d c a y # k) \<Longrightarrow> pos_at (set_col a c' s) t (Fr d c' a y # k)"
  unfolding pos_up by (rule pos_col)

lemma pos_col_sibling: "pos_at s t (Fr d c a (bin e c1 x b y) # k) \<Longrightarrow> pos_at (set_col b c2 s) t (Fr d c a (bin e c2 x b y) # k)"
  unfolding pos_flip [of _ t] by (rule pos_col)

lemma pos_col_up: "pos_at s t (Fr e c1 b x # Fr d c a y # k) \<Longrightarrow> pos_at (set_col a c' s) t (Fr e c1 b x # Fr d c' a y # k)"
  by (simp only: pos_up [of _ t]) (rule pos_col_parent)

lemma pos_nodes: "pos_at s t k \<Longrightarrow> rb_nil s \<notin> nodes (plug t k)"
  by (simp add: pos_at_def)

section \<open>Balance\<close>

fun tcol :: "rbt \<Rightarrow> color" where
  "tcol Tip = BLACK"
| "tcol (Bin c l a r) = c"

fun blk :: "color \<Rightarrow> nat" where "blk RED = 0" | "blk BLACK = 1"

fun bh :: "rbt \<Rightarrow> nat" where
  "bh Tip = 0"
| "bh (Bin c l a r) = bh l + blk c"

text \<open>Every path has the same number of black nodes, and a red node has black children.\<close>

fun balanced :: "rbt \<Rightarrow> bool" where
  "balanced Tip = True"
| "balanced (Bin c l a r) \<longleftrightarrow> balanced l \<and> balanced r \<and> bh l = bh r \<and> (c = RED \<longrightarrow> tcol l = BLACK \<and> tcol r = BLACK)"

text \<open>A context into which every balanced tree of height \<open>h\<close> and colour \<open>c\<close> fits.\<close>

fun ctx_ok :: "nat \<Rightarrow> color \<Rightarrow> ctx \<Rightarrow> bool" where
  "ctx_ok h c [] = True"
| "ctx_ok h c (Fr d c' a y # k) \<longleftrightarrow> balanced y \<and> bh y = h \<and> (c' = RED \<longrightarrow> c = BLACK \<and> tcol y = BLACK) \<and> ctx_ok (h + blk c') c' k"

definition redblack :: "rbt \<Rightarrow> bool" where
  "redblack t \<longleftrightarrow> balanced t \<and> tcol t = BLACK"

fun top_black :: "ctx \<Rightarrow> bool" where
  "top_black [] = True"
| "top_black [Fr d c a y] = (c = BLACK)"
| "top_black (f # g # k) = top_black (g # k)"

lemma bin_balance [simp]:
  "tcol (bin d c x a y) = c"
  "balanced (bin d c x a y) \<Longrightarrow> bh (bin d c x a y) = bh x + blk c"
  "balanced (bin d c x a y) \<longleftrightarrow> balanced x \<and> balanced y \<and> bh x = bh y \<and> (c = RED \<longrightarrow> tcol x = BLACK \<and> tcol y = BLACK)"
  by (cases d; auto)+

lemma bh_bin [simp]: "bh x = bh y \<Longrightarrow> bh (bin d c x a y) = bh x + blk c"
  by (cases d) auto

lemma not_red [simp]: "c \<noteq> RED \<longleftrightarrow> c = BLACK" "c \<noteq> BLACK \<longleftrightarrow> c = RED"
  by (cases c; simp)+

lemma balanced_plug: "balanced (plug t k) \<longleftrightarrow> balanced t \<and> ctx_ok (bh t) (tcol t) k"
proof (induction t k rule: plug.induct)
  case (2 t d c a y k)
  then show ?case by (cases "balanced (bin d c t a y)") auto
qed simp

lemma ctx_ok_black: "ctx_ok h c k \<Longrightarrow> ctx_ok h BLACK k"
  by (cases k rule: ctx_nodes.cases) auto

lemma tcol_plug: "tcol (plug t k) = BLACK \<longleftrightarrow> (if k = [] then tcol t = BLACK else top_black k)"
  by (induction k arbitrary: t rule: top_black.induct) (auto split: frame.splits, (case_tac f; simp)+)

section \<open>Insertion keeps the tree balanced\<close>

text \<open>The two branches of the loop, said once for the side \<open>d\<close> on which the parent hangs.\<close>

definition lift_up :: "side \<Rightarrow> ptr \<Rightarrow> rbstore \<Rightarrow> rbstore" where
  "lift_up d node s =
     (let s = set_col (rb_parent s node) BLACK s;
          s = set_col (rb_parent s (rb_parent s node)) RED s
      in rotate (opp d) (rb_parent s (rb_parent s node)) s)"

definition insert_case :: "side \<Rightarrow> ptr \<Rightarrow> rbstore \<Rightarrow> rbstore" where
  "insert_case d node s =
     (if node = child s (opp d) (rb_parent s node)
      then lift_up d (rb_parent s node) (rotate d (rb_parent s node) s) else lift_up d node s)"

lemma insert_fixup_side:
  "insert_fixup node s =
     (let p = rb_parent s node; g = rb_parent s p; d = (if child s L g = p then L else R); uncle = child s (opp d) g in
      if p \<noteq> rb_nil s \<and> rb_col s p = RED
      then if rb_col s uncle = RED then insert_fixup g (insert_recolour node uncle s) else Some (insert_case d node s)
      else Some s)"
  by (subst insert_fixup.simps)
    (simp add: Let_def get_side rotate_sides insert_left_case_def insert_right_case_def insert_case_def lift_up_def split: prod.splits)

lemma lift_up_pos:
  assumes "pos_at s x (Fr d RED p y # Fr d BLACK g u # k)" "x \<noteq> Tip"
  shows "pos_at (lift_up d (tptr (rb_nil s) x) s) (bin d BLACK x p (bin d RED y g u)) k"
    "same_outside (nodes (plug x (Fr d RED p y # Fr d BLACK g u # k))) s (lift_up d (tptr (rb_nil s) x) s)"
proof -
  have f: "rb_parent s (tptr (rb_nil s) x) = p" "rb_parent s p = g"
    using pos_fields [OF assms(1)] assms(2) by auto
  define v where "v = set_col g RED (set_col p BLACK s)"
  have v: "pos_at v x (Fr d BLACK p y # Fr d RED g u # k)"
    unfolding v_def by (rule pos_col_up, rule pos_col_parent, rule assms(1))
  then have "pos_at v (bin (opp d) RED u g (bin (opp d) BLACK y p x)) k"
    by (simp only: pos_up bin_opp)
  note rot = rotate_pos [OF this] rotate_outside [OF this]
  have l: "lift_up d (tptr (rb_nil s) x) s = rotate (opp d) g v"
    by (simp add: lift_up_def Let_def f v_def)
  show "pos_at (lift_up d (tptr (rb_nil s) x) s) (bin d BLACK x p (bin d RED y g u)) k"
    using rot(1) unfolding l by (simp only: bin_opp)
  have "same_outside (nodes (plug x (Fr d RED p y # Fr d BLACK g u # k))) s v"
    unfolding v_def by (intro same_outside_upd) auto
  then show "same_outside (nodes (plug x (Fr d RED p y # Fr d BLACK g u # k))) s (lift_up d (tptr (rb_nil s) x) s)"
    using rot(2) unfolding l by (auto simp: insert_commute Un_ac elim!: same_outside_trans)
qed

lemma sibling_other: "pos_at s t (Fr d c a y # k) \<Longrightarrow> t \<noteq> Tip \<Longrightarrow> tptr (rb_nil s) y \<noteq> tptr (rb_nil s) t"
  by (cases t; cases y) (auto simp: pos_at_def)

lemma as_bin: "\<exists>x y. Bin c l a r = bin d c x a y"
  by (cases d) (metis bin.simps)+

lemma insert_case_pos:
  assumes "pos_at s t (Fr e RED p y # Fr d BLACK g u # k)" "t = bin d RED t1 n t2"
  defines "w \<equiv> (if e = d then bin d BLACK t p (bin d RED y g u) else bin d BLACK (bin d RED y p t1) n (bin d RED t2 g u))"
  shows "pos_at (insert_case d n s) w k" "same_outside (nodes (plug t (Fr e RED p y # Fr d BLACK g u # k))) s (insert_case d n s)"
proof -
  have f: "rb_parent s n = p" "tptr (rb_nil s) t = n" "t \<noteq> Tip" using pos_fields [OF assms(1)] assms(2) by auto
  have "pos_at (insert_case d n s) w k \<and> same_outside (nodes (plug t (Fr e RED p y # Fr d BLACK g u # k))) s (insert_case d n s)"
  proof (cases "e = d")
    case True
    then have "insert_case d n s = lift_up d n s"
      using pos_fields(3) [OF assms(1)] sibling_other [OF assms(1)] f by (simp add: insert_case_def)
    then show ?thesis using lift_up_pos [of s t d p y g u k] assms(1,2) f True by (simp add: w_def)
  next
    case False
    then have e: "e = opp d" by (cases e; cases d) auto
    then have i: "insert_case d n s = lift_up d p (rotate d p s)"
      using pos_fields(2) [OF assms(1)] f by (simp add: insert_case_def)
    have pos: "pos_at s (bin d RED y p (bin d RED t1 n t2)) (Fr d BLACK g u # k)"
      using assms(1) [unfolded e pos_up [of _ t] bin_opp] unfolding assms(2) .
    note rot = rotate_pos [OF pos] rotate_outside [OF pos]
    have "pos_at (rotate d p s) (bin d RED y p t1) (Fr d RED n t2 # Fr d BLACK g u # k)"
      using rot(1) by (simp only: pos_up [of _ "bin d RED y p t1"])
    note up = lift_up_pos [OF this]
    show ?thesis
      using up rot(2) False assms(2) unfolding i
      by (auto simp: w_def insert_commute Un_ac intro: same_outside_trans)
  qed
  then show "pos_at (insert_case d n s) w k" "same_outside (nodes (plug t (Fr e RED p y # Fr d BLACK g u # k))) s (insert_case d n s)"
    by auto
qed

lemma insert_recolour_pos:
  assumes "pos_at s t (Fr e RED p y # Fr d BLACK g (bin d RED u1 u u2) # k)" "t \<noteq> Tip"
  defines "s' \<equiv> insert_recolour (tptr (rb_nil s) t) u s"
  shows "pos_at s' (bin d RED (bin e BLACK t p y) g (bin d BLACK u1 u u2)) k"
    "same_outside (nodes (plug t (Fr e RED p y # Fr d BLACK g (bin d RED u1 u u2) # k))) s s'"
proof -
  have f: "rb_parent s (tptr (rb_nil s) t) = p" "rb_parent s p = g"
    using pos_fields [OF assms(1)] assms(2) by auto
  have s': "s' = set_col g RED (set_col u BLACK (set_col p BLACK s))"
    by (simp add: s'_def insert_recolour_def Let_def f)
  have "pos_at (set_col p BLACK s) (bin e BLACK t p y) (Fr d BLACK g (bin d RED u1 u u2) # k)"
    using pos_col_parent [OF assms(1)] by (simp only: pos_up [of _ t])
  from pos_col_parent [OF pos_col_sibling [OF this]]
  show "pos_at s' (bin d RED (bin e BLACK t p y) g (bin d BLACK u1 u u2)) k"
    unfolding s' by (simp only: pos_up)
  show "same_outside (nodes (plug t (Fr e RED p y # Fr d BLACK g (bin d RED u1 u u2) # k))) s s'"
    unfolding s' by (intro same_outside_upd) auto
qed

text \<open>
  The loop of \<^verbatim>\<open>insert_fixup\<close> ends and leaves a balanced tree with the same nodes in the same order, when the red node it starts
  at is the only one that may have a red parent.
\<close>

lemma insert_fixup_ok:
  assumes "pos_at s t k" "tcol t = RED" "balanced t" "ctx_ok (bh t) BLACK k" "top_black k"
  shows "\<exists>s' t'. insert_fixup (tptr (rb_nil s) t) s = Some s' \<and> tree_at s' t' \<and> balanced t' \<and>
    inorder t' = inorder (plug t k) \<and> same_outside (nodes (plug t k)) s s'"
  using assms
proof (induction "length k" arbitrary: s t k rule: less_induct)
  case less
  obtain l n r where t: "t = Bin RED l n r" using less.prems(2) by (cases t) auto
  have n: "tptr (rb_nil s) t = n" "t \<noteq> Tip" using t by simp_all
  show ?case
  proof (cases k rule: ctx_nodes.cases)
    case 1
    then have "rb_parent s n = rb_nil s" using less.prems(1) t by (simp add: pos_at_def)
    then have "insert_fixup n s = Some s" by (subst insert_fixup.simps) simp
    then show ?thesis using less.prems 1 n by (intro exI [of _ s] exI [of _ t]) (simp add: tree_at_plug [of _ _ "[]", simplified])
  next
    case (2 e c p y k1)
    note pf = pos_fields [OF less.prems(1) [unfolded 2]]
    show ?thesis
    proof (cases c)
      case BLACK
      then have "insert_fixup n s = Some s" using pf n by (subst insert_fixup.simps) simp
      moreover have "balanced (plug t k)" using less.prems BLACK 2 by (simp add: balanced_plug del: plug.simps)
      ultimately show ?thesis using less.prems(1) n by (intro exI [of _ s] exI [of _ "plug t k"]) (simp add: tree_at_plug)
    next
      case RED
      then obtain d g u k2 where k1: "k1 = Fr d BLACK g u # k2" 
        using less.prems(4,5) 2 by (cases k1 rule: ctx_nodes.cases) auto
      have pos: "pos_at s t (Fr e RED p y # Fr d BLACK g u # k2)" using less.prems(1) 2 RED k1 by simp
      have g: "rb_parent s n = p" "rb_parent s p = g" "p \<noteq> rb_nil s" "rb_col s p = RED" using pf n RED k1 by auto
      note gf = pos_fields [OF pos [unfolded pos_up [of _ t]]]
      have d: "(if child s L g = p then L else R) = d"
        using gf(2,3) sibling_other [OF pos [unfolded pos_up [of _ t]]] by (cases d) auto
      have u: "child s (opp d) g = tptr (rb_nil s) u" using gf(3) by simp
      have step: "insert_fixup n s = (if rb_col s (tptr (rb_nil s) u) = RED
          then insert_fixup g (insert_recolour n (tptr (rb_nil s) u) s) else Some (insert_case d n s))"
        by (subst insert_fixup_side) (simp add: Let_def g d u)
      have cu: "rb_col s (tptr (rb_nil s) u) = tcol u" using pos by (cases u) (auto simp: pos_at_def)
      show ?thesis
      proof (cases "tcol u")
        case BLACK
        obtain t1 t2 where b: "t = bin d RED t1 n t2" using as_bin t by blast
        define w where "w = (if e = d then bin d BLACK t p (bin d RED y g u) else bin d BLACK (bin d RED y p t1) n (bin d RED t2 g u))"
        note ic = insert_case_pos [OF pos b, folded w_def]
        have "balanced w \<and> bh w = bh t + 1 \<and> tcol w = BLACK"
          using less.prems(3,4) BLACK RED 2 k1 b by (auto simp: w_def)
        then have "balanced (plug w k2)" using less.prems(4) 2 RED k1 by (simp add: balanced_plug)
        moreover have "inorder (plug w k2) = inorder (plug t k)"
          using b 2 k1 by (cases e; cases d) (auto simp: inorder_plug w_def)
        ultimately show ?thesis
          using ic step cu BLACK n 2 k1 RED
          by (intro exI [of _ "insert_case d n s"] exI [of _ "plug w k2"]) (simp add: tree_at_plug del: plug.simps)
      next
        case RED': RED
        obtain ua u1 u2 where b: "u = bin d RED u1 ua u2" using as_bin RED' by (metis tcol.elims color.distinct(1))
        note rc = insert_recolour_pos [OF pos [unfolded b] n(2), unfolded n(1)]
        define s1 where "s1 = insert_recolour n ua s"
        define w where "w = bin d RED (bin e BLACK t p y) g (bin d BLACK u1 ua u2)"
        have "\<exists>s' t'. insert_fixup (tptr (rb_nil s1) w) s1 = Some s' \<and> tree_at s' t' \<and> balanced t' \<and>
            inorder t' = inorder (plug w k2) \<and> same_outside (nodes (plug w k2)) s1 s'"
        proof (rule less.hyps)
          show "pos_at s1 w k2" using rc(1) by (simp add: s1_def w_def)
          show "top_black k2" using less.prems(5) 2 k1 by (cases k2) auto
        qed (use less.prems(3,4) 2 k1 RED b in \<open>auto simp: w_def dest: ctx_ok_black\<close>)
        moreover have "inorder (plug w k2) = inorder (plug t k)" "nodes (plug w k2) = nodes (plug t k)"
          using b 2 k1 by (cases e; cases d; auto simp: inorder_plug w_def)+
        moreover have "same_outside (nodes (plug t k)) s s1" using rc(2) 2 k1 RED b by (simp add: s1_def del: plug.simps)
        moreover have "insert_fixup n s = insert_fixup g s1" using step cu RED' b by (simp add: s1_def)
        ultimately show ?thesis using n by (auto simp: w_def intro: same_outside_trans)
      qed
    qed
  qed
qed

text \<open>
  The descent ends at the place of the new node: every node before it compares as not greater than the new one and
  every node after it as greater.  The comparison is only asked to be consistent with the order of the tree.
\<close>

definition consistent :: "(ptr \<Rightarrow> int) \<Rightarrow> ptr list \<Rightarrow> bool" where
  "consistent cmp xs \<longleftrightarrow> sorted_wrt (\<lambda>x y. cmp x < 0 \<longrightarrow> cmp y < 0) xs"

lemma insert_descend_ok:
  assumes "pos_at s t k" "consistent cmp (inorder t)" "\<forall>x\<in>set (before k). cmp x \<ge> 0" "\<forall>x\<in>set (after k). cmp x < 0"
  shows "\<exists>k'. insert_descend cmp (tptr (rb_nil s) t) (cpar (rb_nil s) k) s = Some (cpar (rb_nil s) k') \<and> plug Tip k' = plug t k \<and>
    (\<forall>x\<in>set (before k'). cmp x \<ge> 0) \<and> (\<forall>x\<in>set (after k'). cmp x < 0)"
  using assms
proof (induction t arbitrary: k)
  case Tip
  then show ?case by (intro exI [of _ k]) (simp add: insert_descend.simps)
next
  case (Bin c l a r)
  define d where "d = (if cmp a < 0 then L else R)"
  define x y where "x = (if d = L then l else r)" and "y = (if d = L then r else l)"
  have b: "Bin c l a r = bin d c x a y" by (cases d) (simp_all add: x_def y_def)
  have pos: "pos_at s x (Fr d c a y # k)" using Bin.prems(1) by (simp only: b pos_up)
  have "insert_descend cmp (tptr (rb_nil s) (Bin c l a r)) (cpar (rb_nil s) k) s = insert_descend cmp (tptr (rb_nil s) x) a s"
    using pos_fields(2,5) [OF pos] by (subst insert_descend.simps) (simp add: get_side d_def split: if_splits)
  moreover have "\<exists>k'. insert_descend cmp (tptr (rb_nil s) x) (cpar (rb_nil s) (Fr d c a y # k)) s = Some (cpar (rb_nil s) k') \<and>
      plug Tip k' = plug x (Fr d c a y # k) \<and> (\<forall>x\<in>set (before k'). cmp x \<ge> 0) \<and> (\<forall>x\<in>set (after k'). cmp x < 0)"
  proof (cases "d = L")
    case True
    then have "cmp a < 0" by (simp add: d_def split: if_splits)
    then show ?thesis using Bin.IH(1) [of "Fr d c a y # k"] pos Bin.prems(2-4) True
      by (auto simp: x_def y_def consistent_def sorted_wrt_append)
  next
    case False
    then have "cmp a \<ge> 0" by (simp add: d_def split: if_splits)
    moreover have "\<forall>z\<in>nodes l. cmp z \<ge> 0" using calculation Bin.prems(2) by (force simp: consistent_def sorted_wrt_append)
    ultimately show ?thesis using Bin.IH(2) [of "Fr d c a y # k"] pos Bin.prems(2-4) False
      by (auto simp: x_def y_def consistent_def sorted_wrt_append)
  qed
  ultimately show ?case by (simp add: b)
qed

lemma attach_pos:
  assumes "pos_at s Tip (Fr d c p y # k)" "new \<notin> nodes (plug Tip (Fr d c p y # k))" "new \<noteq> rb_nil s"
    "rb_col s new = RED" "child s L new = rb_nil s" "child s R new = rb_nil s"
  shows "pos_at (set_child d p new (set_parent new p s)) (Bin RED Tip new Tip) (Fr d c p y # k)"
  using assms by (auto simp: pos_at_def)

lemma black_root:
  assumes "tree_at s t" "balanced t" "t \<noteq> Tip"
  shows "\<exists>t'. tree_at (set_col (rb_root s) BLACK s) t' \<and> redblack t' \<and> inorder t' = inorder t"
proof -
  obtain c l a r where t: "t = Bin c l a r" using assms(3) by (cases t) auto
  then have "tree_at (set_col (rb_root s) BLACK s) (Bin BLACK l a r)"
    using assms(1) pos_col [of s L c l a r "[]" BLACK] by (simp add: tree_at_def pos_at_def)
  then show ?thesis using assms(2) t by (intro exI [of _ "Bin BLACK l a r"]) (simp add: redblack_def)
qed

lemma takeWhile_split: "\<forall>x\<in>set xs. P x \<Longrightarrow> \<forall>x\<in>set ys. \<not> P x \<Longrightarrow> takeWhile P (xs @ ys) = xs \<and> dropWhile P (xs @ ys) = ys"
  by (cases ys) auto

text \<open>The four assignments that make a node a red leaf.\<close>

definition red_leaf :: "ptr \<Rightarrow> rbstore \<Rightarrow> rbstore" where
  "red_leaf new s = set_parent new (rb_nil s) (set_child R new (rb_nil s) (set_child L new (rb_nil s) (set_col new RED s)))"

lemma red_leaf_fields:
  "rb_nil (red_leaf new s) = rb_nil s" "rb_root (red_leaf new s) = rb_root s" "rb_col (red_leaf new s) new = RED"
  "child (red_leaf new s) L new = rb_nil s" "child (red_leaf new s) R new = rb_nil s" "rb_parent (red_leaf new s) new = rb_nil s"
  "new \<notin> nodes t \<Longrightarrow> new \<noteq> rb_nil s \<Longrightarrow> tree_at s t \<Longrightarrow> tree_at (red_leaf new s) t" "same_outside (insert new A) s (red_leaf new s)"
proof -
  show "same_outside (insert new A) s (red_leaf new s)" unfolding red_leaf_def by (intro same_outside_upd) auto
qed (simp_all add: red_leaf_def tree_at_def)

lemma insert_empty:
  assumes "tree_at s Tip" "new \<noteq> rb_nil s"
  defines "s' \<equiv> set_col new BLACK ((red_leaf new s)\<lparr>rb_root := new\<rparr>)"
  shows "rbtree_insert (Some new) (Some cmp) s = Some s'" "tree_at s' (Bin BLACK Tip new Tip)" "same_outside {new} s s'"
proof -
  show "rbtree_insert (Some new) (Some cmp) s = Some s'"
    using assms(1) by (simp add: rbtree_insert_def Let_def set_side red_leaf_def s'_def tree_at_def)
  show "tree_at s' (Bin BLACK Tip new Tip)" using assms by (auto simp: tree_at_def s'_def red_leaf_def)
  show "same_outside {new} s s'" unfolding s'_def red_leaf_def by (intro same_outside_upd) auto
qed

text \<open>The new leaf is hung up where the descent ended, the tree is balanced and its root made black.\<close>

lemma insert_at:
  assumes tree: "tree_at s t" and rb: "redblack t" and new: "new \<notin> nodes t" "new \<noteq> rb_nil s" and t: "t = plug Tip (Fr d c p y # k)"
  defines "s2 \<equiv> set_child d p new (set_parent new p (red_leaf new s))"
  shows "\<exists>s3 t'. insert_fixup new s2 = Some s3 \<and> tree_at (set_col (rb_root s3) BLACK s3) t' \<and> redblack t' \<and>
    inorder t' = before (Fr d c p y # k) @ new # after (Fr d c p y # k) \<and> same_outside (insert new (nodes t)) s (set_col (rb_root s3) BLACK s3)"
proof -
  define kk where "kk = Fr d c p y # k"
  note f = red_leaf_fields(1-6) [of new s] red_leaf_fields(7) [OF new tree] red_leaf_fields(8) [of new "nodes t" s]
  have pos: "pos_at s2 (Bin RED Tip new Tip) kk"
    unfolding s2_def kk_def by (rule attach_pos) (use f t new in \<open>auto simp flip: tree_at_plug\<close>)
  have ok: "balanced t" "top_black kk" "ctx_ok 0 BLACK kk"
    using rb balanced_plug [of Tip kk] tcol_plug [of Tip kk] t by (auto simp: redblack_def kk_def)
  obtain s3 t3 where fx: "insert_fixup new s2 = Some s3" "tree_at s3 t3" "balanced t3" "inorder t3 = before kk @ new # after kk"
      "same_outside (insert new (nodes t)) s2 s3"
    using insert_fixup_ok [OF pos] ok nodes_plug [of Tip kk] t by (auto simp: inorder_plug kk_def [symmetric])
  have "t3 \<noteq> Tip" using fx(4) by auto
  then obtain t4 where t4: "tree_at (set_col (rb_root s3) BLACK s3) t4" "redblack t4" "inorder t4 = inorder t3"
    using black_root fx(2,3) by blast
  have p: "p \<in> nodes t" by (simp add: t)
  have "nodes t3 = insert new (nodes t)" using arg_cong [OF fx(4), of set] arg_cong [OF inorder_plug [of Tip kk], of set] t
    by (simp add: kk_def)
  then have r3: "rb_root s3 \<in> insert new (nodes t)" using fx(2) \<open>t3 \<noteq> Tip\<close> by (cases t3) (auto simp: tree_at_def)
  have "same_outside (insert new (nodes t)) s s2" unfolding s2_def by (intro same_outside_upd f) (use p in auto)
  then have "same_outside (insert new (nodes t)) s (set_col (rb_root s3) BLACK s3)"
    using fx(5) r3 by (blast intro: same_outside_upd same_outside_trans)
  then show ?thesis using fx(1,4) t4 by (auto simp: kk_def)
qed

lemma insert_tree:
  assumes tree: "tree_at s t" and rb: "redblack t" and new: "new \<notin> nodes t" "new \<noteq> rb_nil s"
    and cmp: "consistent (cmp new) (inorder t)"
  shows "\<exists>s' t'. rbtree_insert (Some new) (Some cmp) s = Some s' \<and> tree_at s' t' \<and> redblack t' \<and>
    inorder t' = takeWhile (\<lambda>x. cmp new x \<ge> 0) (inorder t) @ new # dropWhile (\<lambda>x. cmp new x \<ge> 0) (inorder t) \<and>
    same_outside (insert new (nodes t)) s s'"
proof (cases "t = Tip")
  case True
  then show ?thesis using insert_empty(1) [of s new cmp] insert_empty(2,3) [of s new] tree new
    by (intro exI [of _ "set_col new BLACK ((red_leaf new s)\<lparr>rb_root := new\<rparr>)"] exI [of _ "Bin BLACK Tip new Tip"]) (simp add: redblack_def)
next
  case False
  define s1 where "s1 = red_leaf new s"
  note f = red_leaf_fields(1,2) [of new s] red_leaf_fields(7) [OF new tree]
  obtain k where k: "insert_descend (cmp new) (tptr (rb_nil s) t) (rb_nil s) s1 = Some (cpar (rb_nil s) k)" "plug Tip k = t"
      "\<forall>x\<in>set (before k). cmp new x \<ge> 0" "\<forall>x\<in>set (after k). cmp new x < 0"
    using insert_descend_ok [of s1 t "[]" "cmp new"] f cmp by (auto simp: s1_def simp flip: tree_at_plug)
  obtain d c' p y k' where k': "k = Fr d c' p y # k'" using k(2) False by (cases k rule: ctx_nodes.cases) auto
  have d: "cmp new p < 0 \<longleftrightarrow> d = L" using k(3,4) k' by (cases d) auto
  have root: "rb_root s \<noteq> rb_nil s" "rb_root s = tptr (rb_nil s) t"
    using tree False tptr_nil(1) by (auto simp: tree_at_def)
  have ins: "rbtree_insert (Some new) (Some cmp) s =
      Option.bind (insert_fixup new (set_child d p new (set_parent new p s1))) (\<lambda>s. Some (set_col (rb_root s) BLACK s))"
    using k(1) root d f k' unfolding s1_def red_leaf_def by (cases d) (simp_all add: rbtree_insert_def Let_def set_side)
  have i: "inorder t = before k @ after k" using k(2) inorder_plug [of Tip k] by simp
  have "\<forall>x\<in>set (after k). \<not> cmp new x \<ge> 0" using k(4) by auto
  note tw = takeWhile_split [OF k(3) this, folded i]
  show ?thesis using insert_at [OF tree rb new k(2) [unfolded k', symmetric]] tw unfolding ins s1_def k' by auto
qed

text \<open>
  Property C8: \<^verbatim>\<open>rbtree_insert\<close> returns, and on the red-black tree a store holds it puts the new node after every node it does
  not compare as smaller than and before the others, leaves a red-black tree and touches no node outside of it.
\<close>

theorem rbtree_insert_correct:
  assumes "tree_at s t" "redblack t" "new \<notin> nodes t" "new \<noteq> rb_nil s" "consistent (cmp new) (inorder t)"
  shows "\<exists>s' t'. rbtree_insert (Some new) (Some cmp) s = Some s' \<and> tree_at s' t' \<and> redblack t' \<and>
    inorder t' = takeWhile (\<lambda>x. cmp new x \<ge> 0) (inorder t) @ new # dropWhile (\<lambda>x. cmp new x \<ge> 0) (inorder t) \<and>
    same_outside (insert new (nodes t)) s s'"
  using assms insert_tree [of s t new cmp] by blast

section \<open>Deletion keeps the tree balanced\<close>

text \<open>The two branches of the loop, said once for the side \<open>d\<close> of the node.\<close>

definition red_brother :: "side \<Rightarrow> ptr \<Rightarrow> rbstore \<Rightarrow> rbstore" where
  "red_brother d node s =
     (let b = child s (opp d) (rb_parent s node) in
      if rb_col s b = RED then rotate d (rb_parent s node) (set_col (rb_parent s b) RED (set_col b BLACK s)) else s)"

definition near_red :: "side \<Rightarrow> ptr \<Rightarrow> rbstore \<Rightarrow> rbstore" where
  "near_red d node s =
     (let b = child s (opp d) (rb_parent s node) in
      if rb_col s (child s (opp d) b) = BLACK then rotate (opp d) b (set_col b RED (set_col (child s d b) BLACK s)) else s)"

definition far_red :: "side \<Rightarrow> ptr \<Rightarrow> rbstore \<Rightarrow> rbstore" where
  "far_red d node s =
     (let b = child s (opp d) (rb_parent s node);
          s = set_col b (rb_col s (rb_parent s node)) s;
          s = set_col (rb_parent s node) BLACK s;
          s = set_col (child s (opp d) b) BLACK s
      in rotate d (rb_parent s node) s)"

definition black_brother :: "side \<Rightarrow> ptr \<Rightarrow> rbstore \<Rightarrow> ptr \<times> rbstore + rbstore" where
  "black_brother d node s =
     (let b = child s (opp d) (rb_parent s node) in
      if rb_col s (child s d b) = BLACK \<and> rb_col s (child s (opp d) b) = BLACK
      then Inl (rb_parent s node, if b \<noteq> rb_nil s then set_col b RED s else s)
      else Inr (far_red d node (near_red d node s)))"

lemma if_snd: "(case if P then (x, y) else (x', y') of (a, b) \<Rightarrow> f a b) = (if P then f x y else f x' y')"
  by simp

lemma delete_sides:
  "delete_left_case node s = black_brother L node (red_brother L node s)"
  "delete_right_case node s = black_brother R node (red_brother R node s)"
  by (simp_all add: delete_left_case_def delete_right_case_def black_brother_def red_brother_def near_red_def far_red_def
      Let_def get_side rotate_sides if_snd conj_commute)

text \<open>A position whose node, which may be the sentinel, points to its parent.\<close>

definition node_at :: "rbstore \<Rightarrow> rbt \<Rightarrow> ctx \<Rightarrow> bool" where
  "node_at s t k \<longleftrightarrow> pos_at s t k \<and> rb_parent s (tptr (rb_nil s) t) = cpar (rb_nil s) k"

lemma node_atI:
  assumes "pos_at s' t k'" "same_outside (nodes (plug t k)) s s'" "node_at s t k" "cpar (rb_nil s) k' = cpar (rb_nil s) k"
  shows "node_at s' t k'"
proof (cases t)
  case Tip
  then show ?thesis using assms pos_nodes [of s t k] by (auto simp: node_at_def same_outside_def)
next
  case (Bin c l a r)
  then show ?thesis using assms(1) by (simp add: node_at_def pos_at_def)
qed

lemma node_at_bin: "pos_at s (bin d c x a y) k \<Longrightarrow> node_at s (bin d c x a y) k"
  by (simp add: node_at_def pos_at_def)

lemma pos_tcol: "pos_at s t k \<Longrightarrow> rb_col s (tptr (rb_nil s) t) = tcol t"
  by (cases t) (auto simp: pos_at_def)

lemma node_fields:
  assumes "node_at s t (Fr d c a y # k)"
  shows "rb_parent s (tptr (rb_nil s) t) = a" "child s d a = tptr (rb_nil s) t" "child s (opp d) a = tptr (rb_nil s) y"
    "rb_col s a = c" "rb_col s (tptr (rb_nil s) y) = tcol y" "rb_col s (tptr (rb_nil s) t) = tcol t" "pos_at s t (Fr d c a y # k)"
proof -
  show p: "pos_at s t (Fr d c a y # k)" "rb_parent s (tptr (rb_nil s) t) = a" using assms by (simp_all add: node_at_def)
  then show "rb_col s (tptr (rb_nil s) y) = tcol y" "rb_col s (tptr (rb_nil s) t) = tcol t" "child s d a = tptr (rb_nil s) t"
    "child s (opp d) a = tptr (rb_nil s) y" "rb_col s a = c"
    using pos_tcol pos_flip pos_fields [OF p(1)] by blast+
qed

lemma brother_fields:
  assumes "node_at s t (Fr d c a (bin d cb x b y) # k)"
  shows "child s d b = tptr (rb_nil s) x" "child s (opp d) b = tptr (rb_nil s) y" "rb_parent s b = a" "b \<noteq> rb_nil s"
    "rb_col s (tptr (rb_nil s) x) = tcol x" "rb_col s (tptr (rb_nil s) y) = tcol y"
proof -
  have p: "pos_at s (bin d cb x b y) (Fr (opp d) c a t # k)" using assms pos_flip by (simp add: node_at_def)
  note q = p [unfolded pos_up [of _ x, symmetric]]
  show "rb_parent s b = a" using pos_fields(6) [OF p] by simp
  show "rb_col s (tptr (rb_nil s) x) = tcol x" "rb_col s (tptr (rb_nil s) y) = tcol y" using q pos_tcol pos_flip by blast+
  show "child s d b = tptr (rb_nil s) x" "child s (opp d) b = tptr (rb_nil s) y" "b \<noteq> rb_nil s" using pos_fields [OF q] by blast+
qed

lemma red_brother_pos:
  assumes "node_at s t (Fr d c a (bin d RED x b y) # k)"
  defines "s' \<equiv> red_brother d (tptr (rb_nil s) t) s"
  shows "node_at s' t (Fr d RED a x # Fr d BLACK b y # k)"
    "same_outside (nodes (plug t (Fr d c a (bin d RED x b y) # k))) s s'"
proof -
  note f = node_fields [OF assms(1)] brother_fields [OF assms(1)]
  define v where "v = set_col a RED (set_col b BLACK s)"
  have s': "s' = rotate d a v" using f by (simp add: s'_def red_brother_def Let_def v_def)
  have "pos_at v t (Fr d RED a (bin d BLACK x b y) # k)"
    unfolding v_def by (rule pos_col_parent, rule pos_col_sibling, rule f(7))
  then have "pos_at v (bin d RED t a (bin d BLACK x b y)) k" by (simp only: pos_up)
  note rot = rotate_pos [OF this] rotate_outside [OF this]
  have "same_outside (nodes (plug t (Fr d c a (bin d RED x b y) # k))) s v"
    unfolding v_def by (intro same_outside_upd) auto
  then show out: "same_outside (nodes (plug t (Fr d c a (bin d RED x b y) # k))) s s'"
    using rot(2) unfolding s' by (auto simp: insert_commute Un_ac elim!: same_outside_trans)
  show "node_at s' t (Fr d RED a x # Fr d BLACK b y # k)"
    by (rule node_atI [OF _ out assms(1)]) (use rot(1) s' in \<open>simp_all add: pos_up [of _ t] pos_up [of _ "bin d RED t a x"]\<close>)
qed

lemma near_red_pos:
  assumes "node_at s t (Fr d c a (bin d BLACK (bin d RED u e v) b y) # k)" "tcol y = BLACK"
  defines "s' \<equiv> near_red d (tptr (rb_nil s) t) s"
  shows "node_at s' t (Fr d c a (bin d BLACK u e (bin d RED v b y)) # k)"
    "same_outside (nodes (plug t (Fr d c a (bin d BLACK (bin d RED u e v) b y) # k))) s s'"
proof -
  note f = node_fields [OF assms(1)] brother_fields [OF assms(1)]
  define w where "w = set_col b RED (set_col e BLACK s)"
  have s': "s' = rotate (opp d) b w" using f assms(2) by (simp add: s'_def near_red_def Let_def w_def)
  have "pos_at s (bin d BLACK (bin d RED u e v) b y) (Fr (opp d) c a t # k)"
    using assms(1) pos_flip by (simp add: node_at_def)
  then have "pos_at (set_col e BLACK s) (bin d BLACK u e v) (Fr d BLACK b y # Fr (opp d) c a t # k)"
    unfolding pos_up [of _ "bin d RED u e v", symmetric] by (rule pos_col)
  from pos_col_parent [OF this, of RED]
  have "pos_at w (bin (opp d) RED y b (bin (opp d) BLACK v e u)) (Fr (opp d) c a t # k)"
    by (simp only: w_def pos_up [of _ "bin d BLACK u e v"] bin_opp)
  note rot = rotate_pos [OF this] rotate_outside [OF this]
  have "same_outside (nodes (plug t (Fr d c a (bin d BLACK (bin d RED u e v) b y) # k))) s w"
    unfolding w_def by (intro same_outside_upd) auto
  then show out: "same_outside (nodes (plug t (Fr d c a (bin d BLACK (bin d RED u e v) b y) # k))) s s'"
    using rot(2) unfolding s' by (auto simp: insert_commute Un_ac elim!: same_outside_trans)
  show "node_at s' t (Fr d c a (bin d BLACK u e (bin d RED v b y)) # k)"
    by (rule node_atI [OF _ out assms(1)]) (use rot(1) s' in \<open>simp_all add: pos_flip [of _ t] bin_opp\<close>)
qed

lemma far_red_pos:
  assumes "node_at s t (Fr d c a (bin d BLACK x b (bin d RED u e v)) # k)"
  defines "s' \<equiv> far_red d (tptr (rb_nil s) t) s"
  shows "pos_at s' (bin d c (bin d BLACK t a x) b (bin d BLACK u e v)) k"
    "same_outside (nodes (plug t (Fr d c a (bin d BLACK x b (bin d RED u e v)) # k))) s s'"
proof -
  note f = node_fields [OF assms(1)] brother_fields [OF assms(1)]
  define w where "w = set_col e BLACK (set_col a BLACK (set_col b c s))"
  have s': "s' = rotate d a w" using f by (simp add: s'_def far_red_def Let_def w_def)
  have "pos_at (set_col a BLACK (set_col b c s)) t (Fr d BLACK a (bin d c x b (bin d RED u e v)) # k)"
    by (rule pos_col_parent, rule pos_col_sibling, rule f(7))
  then have "pos_at (set_col a BLACK (set_col b c s)) (bin d RED u e v) (Fr (opp d) c b x # Fr (opp d) BLACK a t # k)"
    by (simp add: pos_flip [of _ t] pos_up [of _ "bin d RED u e v"] bin_opp)
  from pos_col [OF this, of BLACK]
  have "pos_at w (bin d BLACK t a (bin d c x b (bin d BLACK u e v))) k"
    by (simp add: w_def pos_up [of _ "bin d BLACK u e v"] pos_up [of _ "bin d c x b (bin d BLACK u e v)"] bin_opp)
  note rot = rotate_pos [OF this] rotate_outside [OF this]
  show "pos_at s' (bin d c (bin d BLACK t a x) b (bin d BLACK u e v)) k" using rot(1) s' by simp
  have "same_outside (nodes (plug t (Fr d c a (bin d BLACK x b (bin d RED u e v)) # k))) s w"
    unfolding w_def by (intro same_outside_upd) auto
  then show "same_outside (nodes (plug t (Fr d c a (bin d BLACK x b (bin d RED u e v)) # k))) s s'"
    using rot(2) unfolding s' by (auto simp: insert_commute Un_ac elim!: same_outside_trans)
qed

text \<open>A tree that is balanced but for the colour of its root, one black node short of what its context expects.\<close>

fun nearly :: "rbt \<Rightarrow> bool" where
  "nearly Tip = True"
| "nearly (Bin c l a r) \<longleftrightarrow> balanced l \<and> balanced r \<and> bh l = bh r"

definition short :: "rbstore \<Rightarrow> rbt \<Rightarrow> ctx \<Rightarrow> bool" where
  "short s t k \<longleftrightarrow> node_at s t k \<and> nearly t \<and> ctx_ok (bh t + 1) BLACK k \<and> top_black k"

definition restored :: "rbstore \<Rightarrow> rbt \<Rightarrow> rbstore \<Rightarrow> bool" where
  "restored s t s' \<longleftrightarrow> (\<exists>t'. tree_at s' t' \<and> redblack t' \<and> inorder t' = inorder t \<and> same_outside (nodes t) s s')"

lemma nearly_black: "tcol t = BLACK \<Longrightarrow> nearly t \<longleftrightarrow> balanced t"
  by (cases t) auto

lemma nearly_bin [simp]: "nearly (bin d c x a y) \<longleftrightarrow> balanced x \<and> balanced y \<and> bh x = bh y"
  by (cases d) auto

lemma set_col_same: "rb_col s a = c \<Longrightarrow> set_col a c s = s"
  by (simp add: set_col_def fun_upd_idem)

lemma restoredI:
  assumes "pos_at s' t' k'" "balanced t'" "ctx_ok (bh t') (tcol t') k'" "if k' = [] then tcol t' = BLACK else top_black k'"
    "inorder (plug t' k') = inorder t" "same_outside (nodes t) s s'"
  shows "restored s t s'"
  unfolding restored_def redblack_def
  by (intro exI [of _ "plug t' k'"]) (use assms in \<open>simp add: tree_at_plug balanced_plug tcol_plug\<close>)

lemma delete_fixup_red:
  assumes "short s t k" "tcol t = RED"
  shows "\<exists>s'. delete_fixup (tptr (rb_nil s) t) s = Some s' \<and> restored s (plug t k) s'"
proof -
  obtain l a r where t: "t = Bin RED l a r" using assms(2) by (cases t) auto
  have pos: "pos_at s t k" using assms(1) by (simp add: short_def node_at_def)
  have "delete_fixup a s = Some (set_col a BLACK s)"
    using pos_tcol [OF pos] t by (subst delete_fixup.simps) simp
  moreover have "restored s (plug t k) (set_col a BLACK s)"
  proof (rule restoredI)
    show "pos_at (set_col a BLACK s) (Bin BLACK l a r) k" using pos_col [of s L RED l a r k BLACK] pos t by simp
    show "same_outside (nodes (plug t k)) s (set_col a BLACK s)" by (rule same_outside_upd) (simp_all add: t)
  qed (use assms t in \<open>auto simp: short_def inorder_plug\<close>)
  ultimately show ?thesis using t by simp
qed

lemma delete_fixup_root:
  assumes "short s t []" "tcol t = BLACK"
  shows "\<exists>s'. delete_fixup (tptr (rb_nil s) t) s = Some s' \<and> restored s t s'"
proof -
  have pos: "pos_at s t []" using assms(1) by (simp add: short_def node_at_def)
  then have "delete_fixup (tptr (rb_nil s) t) s = Some s"
    using set_col_same [OF pos_tcol [OF pos]] assms(2) by (subst delete_fixup.simps) (simp add: pos_at_def)
  moreover have "restored s t s"
    by (rule restoredI [OF pos]) (use assms in \<open>auto simp: short_def nearly_black\<close>)
  ultimately show ?thesis by blast
qed

lemma black_brother_ok:
  assumes node: "node_at s t (Fr d c a y # k)" and y: "tcol y = BLACK" "y \<noteq> Tip"
    and ok: "balanced t" "tcol t = BLACK" "ctx_ok (bh t + 1) BLACK (Fr d c a y # k)"
  defines "W \<equiv> nodes (plug t (Fr d c a y # k))"
  shows "(\<exists>s' u. black_brother d (tptr (rb_nil s) t) s = Inl (a, s') \<and> node_at s' u k \<and> tptr (rb_nil s) u = a \<and> tcol u = c \<and> nearly u \<and>
      bh u = bh t + blk c \<and> inorder (plug u k) = inorder (plug t (Fr d c a y # k)) \<and> same_outside W s s') \<or>
    (\<exists>s' u. black_brother d (tptr (rb_nil s) t) s = Inr s' \<and> pos_at s' u k \<and> tcol u = c \<and> balanced u \<and> bh u = bh t + 1 + blk c \<and>
      rb_col s' (tptr (rb_nil s) t) = BLACK \<and> inorder (plug u k) = inorder (plug t (Fr d c a y # k)) \<and> same_outside W s s')"
proof -
  obtain b y1 y2 where b: "y = bin d BLACK y1 b y2" using as_bin y by (metis tcol.elims)
  note f = node_fields [OF node [unfolded b]] brother_fields [OF node [unfolded b]]
  show ?thesis
  proof (cases "tcol y1 = BLACK \<and> tcol y2 = BLACK")
    case True
    define u where "u = bin d c t a (bin d RED y1 b y2)"
    have "black_brother d (tptr (rb_nil s) t) s = Inl (a, set_col b RED s)"
      using f True by (simp add: black_brother_def Let_def)
    moreover have "pos_at (set_col b RED s) u k"
      unfolding u_def pos_up [symmetric] by (rule pos_col_sibling, rule f(7))
    moreover have "same_outside W s (set_col b RED s)" by (rule same_outside_upd) (simp_all add: W_def b)
    ultimately show ?thesis
      using ok True by (intro disjI1 exI [of _ "set_col b RED s"] exI [of _ u])
        (auto simp: u_def b inorder_plug inorder_bin node_at_bin)
  next
    case False
    have step: "black_brother d (tptr (rb_nil s) t) s = Inr (far_red d (tptr (rb_nil s) t) (near_red d (tptr (rb_nil s) t) s))"
      using f False by (auto simp: black_brother_def Let_def)
    define s1 where "s1 = near_red d (tptr (rb_nil s) t) s"
    have "\<exists>x e u v w. node_at s1 t (Fr d c a (bin d BLACK x e (bin d RED u w v)) # k) \<and>
        inorder (bin d BLACK x e (bin d RED u w v)) = inorder y \<and> balanced x \<and> balanced u \<and> balanced v \<and> tcol u = BLACK \<and> tcol v = BLACK \<and>
        bh x = bh t \<and> bh u = bh t \<and> bh v = bh t \<and> same_outside W s s1"
    proof (cases "tcol y2")
      case RED
      then obtain u w v where r: "y2 = bin d RED u w v" using as_bin by (metis tcol.elims color.distinct(1))
      have "s1 = s" using f RED by (simp add: s1_def near_red_def Let_def)
      then show ?thesis using node ok b r by (intro exI [of _ y1] exI [of _ b] exI [of _ u] exI [of _ v] exI [of _ w]) auto
    next
      case BLACK
      then have "tcol y1 = RED" using False by simp
      then obtain u e v where r: "y1 = bin d RED u e v" using as_bin by (metis tcol.elims color.distinct(1))
      note nr = near_red_pos [OF node [unfolded b r] BLACK, folded s1_def]
      have "inorder (bin d BLACK u e (bin d RED v b y2)) = inorder y" by (simp add: b r inorder_bin)
      then show ?thesis using nr ok b r BLACK
        by (intro exI [of _ u] exI [of _ e] exI [of _ v] exI [of _ y2] exI [of _ b]) (auto simp: W_def)
    qed
    then obtain x e u v w where n1: "node_at s1 t (Fr d c a (bin d BLACK x e (bin d RED u w v)) # k)"
        "inorder (bin d BLACK x e (bin d RED u w v)) = inorder y" "balanced x" "balanced u" "balanced v" "tcol u = BLACK" "tcol v = BLACK"
        "bh x = bh t" "bh u = bh t" "bh v = bh t" "same_outside W s s1"
      by blast
    define z where "z = bin d c (bin d BLACK t a x) e (bin d BLACK u w v)"
    have nil: "rb_nil s1 = rb_nil s" using n1(11) by (simp add: same_outside_def)
    note fr = far_red_pos [OF n1(1), unfolded nil, folded z_def]
    have i: "inorder (plug z k) = inorder (plug t (Fr d c a y # k))"
      using n1(2) by (auto simp: z_def inorder_plug inorder_bin)
    have "W = nodes (plug t (Fr d c a (bin d BLACK x e (bin d RED u w v)) # k))"
      using arg_cong [OF n1(2), of set] by (auto simp: W_def)
    then have "same_outside W s (far_red d (tptr (rb_nil s) t) s1)"
      using same_outside_trans [OF n1(11)] fr(2) by simp
    moreover have "rb_col (far_red d (tptr (rb_nil s) t) s1) (tptr (rb_nil s) t) = BLACK"
      using pos_tcol [of "far_red d (tptr (rb_nil s) t) s1" t "Fr d BLACK a x # Fr d c e (bin d BLACK u w v) # k"] fr ok(2) nil
      by (simp add: z_def pos_up [of _ t] pos_up [of _ "bin d BLACK t a x"] same_outside_def)
    ultimately show ?thesis
      using fr(1) step i ok n1(3-10)
      by (intro disjI2 exI [of _ "far_red d (tptr (rb_nil s) t) s1"] exI [of _ z]) (auto simp: s1_def z_def)
  qed
qed

lemma tptr_in: "tptr n t \<in> insert n (nodes t)"
  by (cases t) auto

lemma top_in: "ctop n k \<in> insert n (ctx_nodes k)"
  by (induction n k rule: ctop.induct) auto

lemma below_root: "pos_at s t (Fr d c a y # k) \<Longrightarrow> tptr (rb_nil s) t \<noteq> rb_root s"
  using tptr_in [of "rb_nil s" t] top_in [of a k] by (auto simp: pos_at_def)

lemma which_side: "pos_at s t (Fr d c a y # k) \<Longrightarrow> y \<noteq> Tip \<Longrightarrow> tptr (rb_nil s) t = child s L a \<longleftrightarrow> d = L"
  using tptr_in [of "rb_nil s" t] tptr_nil(2) [of y "rb_nil s"] by (cases d) (auto simp: pos_at_def)

lemma restored_trans:
  "same_outside (nodes t) s s' \<Longrightarrow> inorder u = inorder t \<Longrightarrow> restored s' u s'' \<Longrightarrow> restored s t s''"
  unfolding restored_def by (metis same_outside_trans set_inorder)

text \<open>One round of the loop with a black brother, the rest of the loop given.\<close>

lemma brother_round:
  assumes node: "node_at s t (Fr d c a y # k)" and y: "tcol y = BLACK" "y \<noteq> Tip"
    and ok: "balanced t" "tcol t = BLACK" "ctx_ok (bh t + 1) BLACK (Fr d c a y # k)" "top_black (Fr d c a y # k)"
    and rest: "\<And>s' u. short s' u k \<Longrightarrow> tcol u = c \<Longrightarrow> \<exists>s''. delete_fixup (tptr (rb_nil s') u) s' = Some s'' \<and> restored s' (plug u k) s''"
  shows "\<exists>s''. (case black_brother d (tptr (rb_nil s) t) s of
      Inl (n, s) \<Rightarrow> delete_fixup n s | Inr s' \<Rightarrow> Some (set_col (tptr (rb_nil s) t) BLACK s')) = Some s'' \<and>
    restored s (plug t (Fr d c a y # k)) s''"
proof -
  have kb: "if k = [] then c = BLACK else top_black k" using ok(4) by (cases k) auto
  consider (go) s' u where "black_brother d (tptr (rb_nil s) t) s = Inl (a, s')" "node_at s' u k" "tptr (rb_nil s) u = a" "tcol u = c"
      "nearly u" "bh u = bh t + blk c" "inorder (plug u k) = inorder (plug t (Fr d c a y # k))"
      "same_outside (nodes (plug t (Fr d c a y # k))) s s'"
    | (ready) s' u where "black_brother d (tptr (rb_nil s) t) s = Inr s'" "pos_at s' u k" "tcol u = c" "balanced u"
      "bh u = bh t + 1 + blk c" "rb_col s' (tptr (rb_nil s) t) = BLACK" "inorder (plug u k) = inorder (plug t (Fr d c a y # k))"
      "same_outside (nodes (plug t (Fr d c a y # k))) s s'"
    using black_brother_ok [OF node y ok(1-3)] by blast
  then show ?thesis
  proof cases
    case go
    have nil: "rb_nil s' = rb_nil s" using go(8) by (simp add: same_outside_def)
    have "short s' u k" using go ok(3) kb by (auto simp: short_def dest: ctx_ok_black split: if_splits)
    from rest [OF this go(4)] obtain s'' where "delete_fixup a s' = Some s''" "restored s' (plug u k) s''"
      using go(3) nil by auto
    then show ?thesis using go(1) restored_trans [OF go(8,7)] by auto
  next
    case ready
    have "restored s (plug t (Fr d c a y # k)) s'"
      by (rule restoredI [OF ready(2,4) _ _ ready(7,8)]) (use ready ok(3) kb in auto)
    then show ?thesis using ready(1) set_col_same [OF ready(6)] by simp
  qed
qed

lemma delete_fixup_ok:
  "short s t k \<Longrightarrow> \<exists>s'. delete_fixup (tptr (rb_nil s) t) s = Some s' \<and> restored s (plug t k) s'"
proof (induction "length k" arbitrary: s t k rule: less_induct)
  case less
  note sh = less.prems [unfolded short_def]
  consider "tcol t = RED" | "k = []" "tcol t = BLACK" | d c a y k1 where "tcol t = BLACK" "k = Fr d c a y # k1"
    by (metis not_red(2) ctx_nodes.cases)
  then show ?case
  proof cases
    case 1
    then show ?thesis using delete_fixup_red less.prems by blast
  next
    case 2
    then show ?thesis using delete_fixup_root less.prems by simp
  next
    case (3 d c a y k1)
    have bt: "balanced t" using sh 3(1) nearly_black by blast
    have y: "balanced y" "bh y = bh t + 1" "y \<noteq> Tip" using sh 3 by auto
    have node: "node_at s t (Fr d c a y # k1)" using sh 3 by simp
    note f = node_fields [OF node]
    have step: "delete_fixup (tptr (rb_nil s) t) s =
        (case black_brother d (tptr (rb_nil s) t) (red_brother d (tptr (rb_nil s) t) s) of
           Inl (n, s) \<Rightarrow> delete_fixup n s | Inr s' \<Rightarrow> Some (set_col (tptr (rb_nil s) t) BLACK s'))"
      using f 3(1) below_root [OF f(7)] which_side [OF f(7) y(3)]
      by (subst delete_fixup.simps) (cases d; simp add: get_side delete_sides)
    show ?thesis
    proof (cases "tcol y")
      case BLACK
      have "red_brother d (tptr (rb_nil s) t) s = s" using f BLACK by (simp add: red_brother_def Let_def)
      then show ?thesis
        using brother_round [OF node BLACK y(3) bt 3(1)] sh 3(2) less.hyps [of k1] step by simp
    next
      case RED
      then obtain b y1 y2 where b: "y = bin d RED y1 b y2" using as_bin by (metis tcol.elims color.distinct(1))
      note rb = red_brother_pos [OF node [unfolded b]]
      define s1 where "s1 = red_brother d (tptr (rb_nil s) t) s"
      define k2 where "k2 = Fr d BLACK b y2 # k1"
      have c: "c = BLACK" using sh 3(2) RED by auto
      have nil: "rb_nil s1 = rb_nil s" using rb(2) by (simp add: s1_def same_outside_def)
      have "\<exists>s''. (case black_brother d (tptr (rb_nil s1) t) s1 of
          Inl (n, s) \<Rightarrow> delete_fixup n s | Inr s' \<Rightarrow> Some (set_col (tptr (rb_nil s1) t) BLACK s')) = Some s'' \<and>
          restored s1 (plug t (Fr d RED a y1 # k2)) s''"
      proof (rule brother_round)
        show "node_at s1 t (Fr d RED a y1 # k2)" using rb(1) by (simp add: s1_def k2_def)
        show "y1 \<noteq> Tip" using y b by auto
        show "top_black (Fr d RED a y1 # k2)" using sh 3(2) c by (cases k1) (auto simp: k2_def)
        show "\<exists>s''. delete_fixup (tptr (rb_nil s') u) s' = Some s'' \<and> restored s' (plug u k2) s''"
          if "short s' u k2" "tcol u = RED" for s' u using delete_fixup_red that by blast
      qed (use bt 3 y b sh c in \<open>auto simp: k2_def\<close>)
      then obtain s'' where s'': "delete_fixup (tptr (rb_nil s) t) s = Some s''" "restored s1 (plug t (Fr d RED a y1 # k2)) s''"
        unfolding nil step [folded s1_def] by blast
      have "inorder (plug t (Fr d RED a y1 # k2)) = inorder (plug t k)"
        by (simp add: 3(2) b k2_def inorder_plug inorder_bin)
      then show ?thesis
        using s'' restored_trans [OF rb(2) [folded s1_def]] 3(2) b c by auto
    qed
  qed
qed

section \<open>Taking a node out\<close>

lemma same_outside_mono: "same_outside A s s' \<Longrightarrow> A \<subseteq> B \<Longrightarrow> same_outside B s s'"
  by (auto simp: same_outside_def)

lemma replace_eq: "rbtree_replace_node a b s = set_parent b (rb_parent s a) (relink (rb_parent s a) a b s)"
  by (auto simp: rbtree_replace_node_def relink_def Let_def get_side set_side)

lemma replace_pos:
  assumes "pos_at s t k" "t \<noteq> Tip" "rep s q u" "tapart u" "nodes u \<subseteq> nodes t"
  shows "node_at (rbtree_replace_node (tptr (rb_nil s) t) (tptr (rb_nil s) u) s) u k"
    "same_outside (insert (rb_nil s) (nodes (plug t k))) s (rbtree_replace_node (tptr (rb_nil s) t) (tptr (rb_nil s) u) s)"
proof -
  define n where "n = rb_nil s"
  define p where "p = cpar n k"
  define a b where "a = tptr n t" and "b = tptr n u"
  define v where "v = relink p a b s"
  have par: "rb_parent s a = p" using assms(1,2) by (cases t) (auto simp: pos_at_def a_def p_def n_def)
  have a: "a \<in> nodes t" using tptr_nil(2) assms(2) by (simp add: a_def)
  have ctx: "rep_ctx s n a k" "rb_root s = ctop a k" "ctx_apart k" "n \<notin> ctx_nodes k" "n \<notin> nodes t" "nodes t \<inter> ctx_nodes k = {}" "rb_col s n = BLACK"
    using assms(1) by (auto simp: pos_at_def a_def n_def)
  have v: "rep_ctx v n b k" "rb_root v = ctop b k" "rb_nil v = n" "rb_col v = rb_col s"
    using relink_ctx [of s a k b] ctx a by (auto simp: v_def p_def n_def)
  have "p = n \<or> p \<notin> nodes u" using cpar_cases [of n k] assms(5) ctx(6) by (auto simp: p_def)
  then have "rep v q u" using relink_rep assms(3) by (simp add: v_def n_def)
  then have u: "rep (set_parent b p v) p u" using rep_reparent [of v q u p] assms(4,5) ctx(5) v(3) by (auto simp: b_def)
  have bk: "b \<notin> ctx_nodes k" using tptr_in [of n u] assms(5) ctx(4,6) by (auto simp: b_def)
  have r: "rbtree_replace_node (tptr (rb_nil s) t) (tptr (rb_nil s) u) s = set_parent b p v"
    by (simp add: replace_eq v_def par flip: n_def a_def b_def)
  show "node_at (rbtree_replace_node (tptr (rb_nil s) t) (tptr (rb_nil s) u) s) u k"
    unfolding r node_at_def pos_at_def using u v ctx assms(4,5) bk by (auto simp: b_def p_def)
  have "p = rb_nil s \<or> p \<in> insert (rb_nil s) (nodes (plug t k))" using cpar_cases [of n k] by (auto simp: p_def n_def)
  moreover have "b \<in> insert (rb_nil s) (nodes (plug t k))" using tptr_in [of n u] assms(5) by (auto simp: b_def n_def)
  ultimately show "same_outside (insert (rb_nil s) (nodes (plug t k))) s (rbtree_replace_node (tptr (rb_nil s) t) (tptr (rb_nil s) u) s)"
    unfolding r v_def by (intro same_outside_upd relink_outside) auto
qed

lemma leftmost_ok:
  assumes "rep s p t" "t \<noteq> Tip" "rb_nil s \<notin> nodes t"
  shows "\<exists>c b r k. leftmost (tptr (rb_nil s) t) s = Some b \<and> t = plug (Bin c Tip b r) k \<and> before k = []"
  using assms
proof (induction t arbitrary: p)
  case (Bin c l a r)
  show ?case
  proof (cases l)
    case Tip
    then have "leftmost a s = Some a" using Bin.prems by (subst leftmost.simps) (simp add: get_side)
    then show ?thesis using Tip by (intro exI [of _ c] exI [of _ a] exI [of _ r] exI [of _ "[]"]) simp
  next
    case l: (Bin c' x b y)
    then obtain d e z k where k: "leftmost (tptr (rb_nil s) l) s = Some e" "l = plug (Bin d Tip e z) k" "before k = []"
      using Bin.IH(1) [of a] Bin.prems by auto
    moreover have "leftmost a s = leftmost (tptr (rb_nil s) l) s"
      using Bin.prems l by (subst leftmost.simps) (auto simp: get_side)
    ultimately show ?thesis
      by (intro exI [of _ d] exI [of _ e] exI [of _ z] exI [of _ "k @ [Fr L c a r]"]) (simp add: plug_append)
  qed
qed simp

lemma finish_delete:
  assumes "node_at s x k" "balanced x" "ctx_ok (bh x + blk c) c k" "c = RED \<Longrightarrow> tcol x = BLACK \<and> k \<noteq> []" "top_black k"
  shows "\<exists>s'. (if c = BLACK then delete_fixup (tptr (rb_nil s) x) s else Some s) = Some s' \<and> restored s (plug x k) s'"
proof (cases c)
  case BLACK
  then have "short s x k" using assms by (cases x) (auto simp: short_def)
  then show ?thesis using delete_fixup_ok BLACK by simp
next
  case RED
  then have "restored s (plug x k) s"
    by (intro restoredI [of s x k]) (use assms in \<open>auto simp: node_at_def dest: ctx_ok_black\<close>)
  then show ?thesis using RED by simp
qed

text \<open>The second half of \<open>replace_by_next\<close>: \<open>b\<close>, which already has its right subtree, takes the place of \<open>a\<close>.\<close>

lemma take_place:
  assumes ctx: "rep_ctx s n a k" "rb_root s = ctop a k" "rb_parent s a = cpar n k" "rb_col s a = c" "child s L a = tptr n l" "rb_nil s = n"
    and sub: "rep s q l" "rep s b r" "child s R b = tptr n r" "rb_col s n = BLACK" "l \<noteq> Tip"
    and ap: "tapart (Bin c l b r)" "ctx_apart k" "nodes (Bin c l b r) \<inter> ctx_nodes k = {}" "n \<notin> nodes (Bin c l b r)" "n \<notin> ctx_nodes k"
      "a \<notin> nodes (Bin c l b r)" "a \<notin> ctx_nodes k" "a \<noteq> n"
  defines "s1 \<equiv> rbtree_replace_node a b s"
  defines "s' \<equiv> set_col b (rb_col s1 a) (set_parent (child (set_left b (child s1 L a) s1) L b) b (set_left b (child s1 L a) s1))"
  shows "pos_at s' (Bin c l b r) k" "x \<notin> {b, tptr n l} \<Longrightarrow> rb_parent s' x = rb_parent s x"
    "same_outside (insert a (nodes (Bin c l b r)) \<union> ctx_nodes k) s s'"
proof -
  define p where "p = cpar n k"
  define v where "v = set_parent b p (relink p a b s)"
  have pn: "p = n \<or> p \<notin> insert a (nodes (Bin c l b r))" using cpar_cases [of n k] ap by (auto simp: p_def)
  have s1: "s1 = v" by (simp add: s1_def replace_eq ctx v_def p_def)
  have v: "rb_nil v = n" "rb_col v = rb_col s" "child v L a = tptr n l" "child v R b = tptr n r" "rb_parent v b = p"
    using pn ctx sub by (auto simp: v_def)
  have s': "s' = set_col b c (set_parent (tptr n l) b (set_child L b (tptr n l) v))"
    using v ctx by (simp add: s'_def s1 set_side)
  have k: "rep_ctx v n b k" "rb_root v = ctop b k"
    using relink_ctx [of s a k b] ctx ap by (auto simp: v_def p_def)
  have l: "rep v q l" "rep v b r" using sub pn ap ctx(6) by (auto simp: v_def relink_rep)
  have lb: "tptr n l \<in> nodes l" using tptr_nil(2) sub(5) by simp
  then have lo: "tptr n l \<notin> nodes r" "tptr n l \<notin> ctx_nodes k" "b \<notin> nodes r" "b \<notin> ctx_nodes k" using ap by auto
  define w where "w = set_child L b (tptr n l) v"
  have "rep (set_parent (tptr n l) b w) b l" using rep_reparent [of w q l b] l(1) ap v(1) by (auto simp: w_def)
  moreover have "rep (set_parent (tptr n l) b w) b r" using l(2) lo by (simp add: w_def)
  moreover have "rep_ctx (set_parent (tptr n l) b w) n b k" using k(1) lo by (simp add: w_def)
  moreover have "b \<noteq> tptr n l" "b \<noteq> n" using ap lb by auto
  ultimately show "pos_at s' (Bin c l b r) k"
    unfolding s' w_def [symmetric] pos_at_def using v k(2) ap sub(4) by (auto simp: w_def p_def)
  show "x \<notin> {b, tptr n l} \<Longrightarrow> rb_parent s' x = rb_parent s x" by (simp add: s' v_def)
  have "p = rb_nil s \<or> p \<in> insert a (nodes (Bin c l b r)) \<union> ctx_nodes k" using cpar_cases [of n k] ctx(6) by (auto simp: p_def)
  then show "same_outside (insert a (nodes (Bin c l b r)) \<union> ctx_nodes k) s s'"
    unfolding s' v_def by (intro same_outside_upd relink_outside) (use lb in auto)
qed

text \<open>The first half: \<open>b\<close> gets the rest of the right subtree of \<open>a\<close>.\<close>

definition take_subtree :: "ptr \<Rightarrow> ptr \<Rightarrow> rbstore \<Rightarrow> rbstore" where
  "take_subtree a b s =
     (if rb_parent s b = a then set_parent (child s R b) b (set_child L b (child s L a) (set_parent (child s L a) b s))
      else let s = rbtree_replace_node b (child s R b) s; s = set_child R b (child s R a) s in set_parent (child s R b) b s)"

lemma replace_by_next_eq:
  "child s R a \<noteq> a \<Longrightarrow> replace_by_next a b s =
     (let s = rbtree_replace_node a b (take_subtree a b s); u = set_left b (child s L a) s
      in set_col b (rb_col s a) (set_parent (child u L b) b u))"
  by (simp add: replace_by_next_def take_subtree_def Let_def get_side set_side)

definition taken :: "rbstore \<Rightarrow> ptr \<Rightarrow> ptr \<Rightarrow> rbt \<Rightarrow> rbt \<Rightarrow> ctx \<Rightarrow> ctx \<Rightarrow> bool" where
  "taken s a b l r2 kk k \<longleftrightarrow> rep_ctx s (rb_nil s) a k \<and> rb_root s = ctop a k \<and> rb_parent s a = cpar (rb_nil s) k \<and>
     child s L a = tptr (rb_nil s) l \<and> (\<exists>q. rep s q l) \<and> rep s b (plug r2 kk) \<and> child s R b = tptr (rb_nil s) (plug r2 kk) \<and>
     rb_parent s (tptr (rb_nil s) r2) = cpar b kk"

lemma take_subtree_near:
  assumes pos: "pos_at s (Bin c l a (Bin cb Tip b r2)) k" "l \<noteq> Tip"
  shows "taken (take_subtree a b s) a b l r2 [] k" "rb_col (take_subtree a b s) = rb_col s" "rb_nil (take_subtree a b s) = rb_nil s"
    "same_outside (insert (rb_nil s) (nodes (plug (Bin c l a (Bin cb Tip b r2)) k))) s (take_subtree a b s)"
proof -
  define n where "n = rb_nil s"
  have f: "rb_parent s a = cpar n k" "child s L a = tptr n l" "rep s a l" "rb_parent s b = a" "child s R b = tptr n r2" "rep s b r2"
      "rep_ctx s n a k" "rb_root s = ctop a k"
    and ap: "tapart l" "tapart r2" "a \<notin> nodes l \<union> nodes r2" "b \<notin> nodes l \<union> nodes r2" "a \<noteq> b" "nodes l \<inter> nodes r2 = {}"
      "insert a (insert b (nodes l \<union> nodes r2)) \<inter> ctx_nodes k = {}" "n \<notin> insert a (insert b (nodes l \<union> nodes r2)) \<union> ctx_nodes k"
    using pos(1) by (auto simp: pos_at_def n_def)
  have l: "tptr n l \<in> nodes l" using tptr_nil(2) pos(2) by simp
  have r: "tptr n r2 \<in> insert n (nodes r2)" by (rule tptr_in)
  have no: "tptr n r2 \<notin> ctx_nodes k" "tptr n l \<notin> ctx_nodes k" "b \<notin> ctx_nodes k" "tptr n r2 \<noteq> a" "tptr n l \<noteq> a"
    "tptr n l \<notin> nodes r2" "b \<notin> nodes r2" using l r ap by auto
  define u where "u = set_child L b (tptr n l) (set_parent (tptr n l) b s)"
  have t: "take_subtree a b s = set_parent (tptr n r2) b u" using f by (simp add: take_subtree_def u_def)
  have nil: "rb_nil u = n" "rb_nil s = n" by (simp_all add: u_def n_def)
  have "rep (set_parent (tptr n l) b s) b l" using rep_reparent [of s a l b] f(3) ap nil by auto
  then have "rep u b l" using ap by (auto simp: u_def)
  then have 1: "rep (set_parent (tptr n r2) b u) b l" using r ap by (subst rep_frame) auto
  have "rep u b r2" using f(6) no by (simp add: u_def)
  then have 2: "rep (set_parent (tptr n r2) b u) b r2" using rep_reparent [of u b r2 b] ap nil by auto
  have 3: "rep_ctx (set_parent (tptr n r2) b u) n a k" using f(7) no by (simp add: u_def)
  show "taken (take_subtree a b s) a b l r2 [] k"
    unfolding taken_def t using 1 2 3 no f ap by (auto simp: u_def simp flip: n_def)
  show "rb_col (take_subtree a b s) = rb_col s" "rb_nil (take_subtree a b s) = rb_nil s" by (simp_all add: t u_def)
  show "same_outside (insert (rb_nil s) (nodes (plug (Bin c l a (Bin cb Tip b r2)) k))) s (take_subtree a b s)"
    unfolding t u_def by (intro same_outside_upd) (use l r nil in auto)
qed

lemma take_subtree_far:
  assumes pos: "pos_at s (Bin c l a (plug (Bin cb Tip b r2) kk)) k" "kk \<noteq> []"
  shows "taken (take_subtree a b s) a b l r2 kk k" "rb_col (take_subtree a b s) = rb_col s" "rb_nil (take_subtree a b s) = rb_nil s"
    "same_outside (insert (rb_nil s) (nodes (plug (Bin c l a (plug (Bin cb Tip b r2) kk)) k))) s (take_subtree a b s)"
proof -
  define n where "n = rb_nil s"
  define r' where "r' = plug r2 kk"
  define v where "v = rbtree_replace_node b (tptr n r2) s"
  have p1: "pos_at s (Bin cb Tip b r2) (kk @ Fr R c a l # k)"
    using pos(1) by (simp add: plug_append flip: tree_at_plug)
  have f: "rb_parent s b = cpar a kk" "child s R b = tptr n r2" "rep s b r2"
    using p1 pos(2) by (cases kk rule: ctx_nodes.cases; auto simp: pos_at_def n_def)+
  have ap: "tapart r2" "a \<notin> ctx_nodes kk" "b \<notin> nodes r'" "b \<notin> nodes l" "b \<notin> ctx_nodes k" "b \<noteq> a" "b \<noteq> n" "n \<notin> nodes r'"
    "nodes r2 \<inter> ctx_nodes kk = {}" "nodes r' \<inter> nodes l = {}" "nodes r' \<inter> ctx_nodes k = {}" "a \<notin> nodes r'"
    using pos(1) by (auto simp: pos_at_def n_def r'_def)
  note rp = replace_pos [OF p1, of b r2, simplified, folded n_def, folded v_def]
  have v1: "node_at v r2 (kk @ Fr R c a l # k)" using rp(1) f(3) ap by auto
  then have v2: "pos_at v (Bin c l a r') k" by (simp add: node_at_def r'_def plug_append flip: tree_at_plug)
  have vf: "rb_nil v = n" "rb_col v = rb_col s" by (simp_all add: v_def n_def replace_eq)
  have ne: "rb_parent s b \<noteq> a" using f(1) pos(2) ap(2) cpar_cases [of a kk] by auto
  have vr: "child v R a = tptr n r'" "child v L a = tptr n l" "rep v a r'" "rep v a l" "rep_ctx v n a k" "rb_root v = ctop a k" "rb_parent v a = cpar n k"
    using v2 vf by (auto simp: pos_at_def)
  have t: "take_subtree a b s = set_parent (tptr n r') b (set_child R b (tptr n r') v)"
    using ne f vr by (simp add: take_subtree_def Let_def flip: v_def)
  have top: "tptr n r' \<in> ctx_nodes kk"
    using pos(2) top_in by (cases kk rule: ctx_nodes.cases) (auto simp: r'_def tptr_plug)
  then have no: "tptr n r' \<in> nodes r'" "tptr n r' \<notin> nodes l" "tptr n r' \<notin> ctx_nodes k" "tptr n r' \<noteq> a" "tptr n r' \<noteq> b"
      "tptr n r' \<noteq> tptr n r2" "b \<noteq> tptr n r2"
    using ap tptr_in [of n r2] by (auto simp: r'_def)
  have par: "rb_parent v (tptr n r2) = cpar b kk"
    using v1 pos(2) vf by (cases kk rule: ctx_nodes.cases) (auto simp: node_at_def)
  have "rep (set_child R b (tptr n r') v) a r'" using vr(3) ap(3) by simp
  from rep_reparent [OF this, of b] have "rep (take_subtree a b s) b r'" using ap vf v2 by (simp add: t pos_at_def)
  then show "taken (take_subtree a b s) a b l r2 kk k"
    unfolding taken_def t using vr no ap par vf by (auto simp flip: r'_def)
  show "rb_col (take_subtree a b s) = rb_col s" "rb_nil (take_subtree a b s) = rb_nil s" using vf by (simp_all add: t n_def)
  have "same_outside (insert (rb_nil s) (nodes (plug (Bin c l a (plug (Bin cb Tip b r2) kk)) k))) s v"
    using rp(2) f(3) ap(1) by (rule_tac same_outside_mono) (auto simp: n_def)
  then show "same_outside (insert (rb_nil s) (nodes (plug (Bin c l a (plug (Bin cb Tip b r2) kk)) k))) s (take_subtree a b s)"
    unfolding t by (intro same_outside_upd) (use top in auto)
qed

lemma replace_by_next_pos:
  assumes pos: "pos_at s (Bin c l a (plug (Bin cb Tip b r2) kk)) k" "l \<noteq> Tip"
  defines "s' \<equiv> replace_by_next a b s" and "t \<equiv> plug (Bin c l a (plug (Bin cb Tip b r2) kk)) k"
  shows "node_at s' r2 (kk @ Fr R c b l # k)" "same_outside (insert (rb_nil s) (nodes t)) s s'"
proof -
  define n where "n = rb_nil s"
  define r' where "r' = plug r2 kk"
  define u where "u = take_subtree a b s"
  have u: "taken u a b l r2 kk k" "rb_col u = rb_col s" "rb_nil u = n" "same_outside (insert n (nodes t)) s u"
    using take_subtree_near [of s c l a cb b r2 k] take_subtree_far [of s c l a cb b r2 kk k] pos
    by (cases "kk = []"; simp add: u_def n_def t_def)+
  have ap: "tapart (Bin c l b r')" "ctx_apart k" "nodes (Bin c l b r') \<inter> ctx_nodes k = {}" "n \<notin> nodes (Bin c l b r')" "n \<notin> ctx_nodes k"
      "a \<notin> nodes (Bin c l b r')" "a \<notin> ctx_nodes k" "a \<noteq> n" "rb_col s n = BLACK" "rb_col s a = c"
      "nodes t = insert a (nodes (Bin c l b r') \<union> ctx_nodes k)"
    and ra: "child s R a \<noteq> a"
    using pos(1) top_in [of b kk] by (auto simp: pos_at_def n_def r'_def t_def tptr_plug)
  obtain q where q: "rep u q l" using u(1) by (auto simp: taken_def)
  note tp = take_place [of u n a k c l q b r', OF _ _ _ _ _ u(3) q _ _ _ pos(2) ap(1-8)]
  have s': "s' = (let s = rbtree_replace_node a b u; u = set_left b (child s L a) s
      in set_col b (rb_col s a) (set_parent (child u L b) b u))"
    unfolding s'_def u_def by (rule replace_by_next_eq [OF ra])
  have p': "pos_at s' (Bin c l b r') k"
    using tp(1) u ap(9,10) by (simp add: s' Let_def taken_def r'_def)
  have out: "same_outside (insert a (nodes (Bin c l b r')) \<union> ctx_nodes k) u s'"
    using tp(3) u ap(9,10) by (simp add: s' Let_def taken_def r'_def)
  show "same_outside (insert (rb_nil s) (nodes t)) s s'"
    using same_outside_trans [OF u(4) same_outside_mono [OF out]] ap(11) by (auto simp: n_def)
  have "tptr n r2 \<notin> {b, tptr n l}" using tptr_in [of n r2] tptr_nil(2) [of l n] pos(2) ap by (auto simp: r'_def)
  then have "rb_parent s' (tptr n r2) = rb_parent u (tptr n r2)"
    using tp(2) u ap(9,10) by (simp add: s' Let_def taken_def r'_def)
  moreover have "rb_nil s' = n" using out u(3) by (simp add: same_outside_def)
  moreover have "pos_at s' r2 (kk @ Fr R c b l # k)" using p' by (simp add: r'_def plug_append flip: tree_at_plug)
  moreover have "cpar n (kk @ Fr R c b l # k) = cpar b kk" by (cases kk rule: ctx_nodes.cases) auto
  ultimately show "node_at s' r2 (kk @ Fr R c b l # k)" using u(1,3) by (simp add: node_at_def taken_def)
qed

lemma ctx_ok_address: "ctx_ok h c (kk @ Fr d c' a y # k) \<longleftrightarrow> ctx_ok h c (kk @ Fr d c' b y # k)"
  by (induction kk arbitrary: h c rule: ctx_nodes.induct) auto

lemma top_black_address: "top_black (kk @ Fr d c' a y # k) \<longleftrightarrow> top_black (Fr d c' b y # k)"
proof (induction kk)
  case Nil
  then show ?case by (cases k) auto
next
  case (Cons f kk)
  then show ?case by (cases "kk @ Fr d c' a y # k") (auto simp: neq_Nil_conv)
qed

text \<open>Deletion of a node with at most one child, and of one with two.\<close>

lemma delete_one:
  assumes tree: "tree_at s (plug (bin d c Tip a x) k)" and rb: "redblack (plug (bin d c Tip a x) k)"
  defines "s1 \<equiv> rbtree_replace_node a (tptr (rb_nil s) x) s"
  shows "\<exists>s'. (if c = BLACK then delete_fixup (tptr (rb_nil s) x) s1 else Some s1) = Some s' \<and> restored s1 (plug x k) s' \<and>
    same_outside (insert (rb_nil s) (nodes (plug (bin d c Tip a x) k))) s s1"
proof -
  have pos: "pos_at s (bin d c Tip a x) k" using tree by (simp only: tree_at_plug)
  have x: "rep s a x" "tapart x" using pos by (auto simp: pos_at_def)
  note rp = replace_pos [OF pos _ x, simplified, OF subset_insertI, folded s1_def]
  have nil: "rb_nil s1 = rb_nil s" using rp(2) by (auto simp: same_outside_def)
  have ok: "balanced (bin d c Tip a x)" "ctx_ok (bh (bin d c Tip a x)) c k" "tcol (plug (bin d c Tip a x) k) = BLACK"
    using rb by (auto simp: redblack_def balanced_plug)
  then have kb: "if k = [] then c = BLACK else top_black k" by (simp add: tcol_plug split: if_splits)
  have "\<exists>s'. (if c = BLACK then delete_fixup (tptr (rb_nil s1) x) s1 else Some s1) = Some s' \<and> restored s1 (plug x k) s'"
    by (rule finish_delete) (use rp(1) ok kb in \<open>auto split: if_splits\<close>)
  then show ?thesis using rp(2) nil by auto
qed

lemma delete_two:
  assumes tree: "tree_at s t" and rb: "redblack t" and t: "t = plug (Bin c l a (plug (Bin cb Tip b r2) kk)) k" and l: "l \<noteq> Tip"
  defines "s1 \<equiv> replace_by_next a b s"
  shows "\<exists>s'. (if cb = BLACK then delete_fixup (tptr (rb_nil s) r2) s1 else Some s1) = Some s' \<and> restored s1 (plug (Bin c l b (plug r2 kk)) k) s' \<and>
    same_outside (insert (rb_nil s) (nodes t)) s s1"
proof -
  have pos: "pos_at s (Bin c l a (plug (Bin cb Tip b r2) kk)) k" using tree t by (simp only: tree_at_plug)
  note rn = replace_by_next_pos [OF pos l, folded s1_def t]
  have nil: "rb_nil s1 = rb_nil s" using rn(2) by (simp add: same_outside_def)
  have t': "t = plug (Bin cb Tip b r2) (kk @ Fr R c a l # k)" by (simp add: t plug_append)
  have ok: "balanced (Bin cb Tip b r2)" "ctx_ok (bh (Bin cb Tip b r2)) cb (kk @ Fr R c b l # k)" "top_black (kk @ Fr R c b l # k)"
    using rb balanced_plug [of "Bin cb Tip b r2" "kk @ Fr R c a l # k"] tcol_plug [of "Bin cb Tip b r2" "kk @ Fr R c a l # k"]
      ctx_ok_address [of _ _ kk R c a l k b] top_black_address [of kk R c a l k b] top_black_address [of kk R c b l k b]
    by (auto simp: redblack_def t' simp del: plug.simps balanced.simps)
  have "\<exists>s'. (if cb = BLACK then delete_fixup (tptr (rb_nil s1) r2) s1 else Some s1) = Some s' \<and>
      restored s1 (plug r2 (kk @ Fr R c b l # k)) s'"
    by (rule finish_delete [OF rn(1)]) (use ok in auto)
  then show ?thesis using rn(2) nil by (auto simp: plug_append)
qed

lemma before_nodes: "set (before k) \<subseteq> ctx_nodes k" "set (after k) \<subseteq> ctx_nodes k"
  by (induction k rule: ctx_nodes.induct) auto

lemma remove_plug:
  assumes "tapart (plug (Bin c l a r) k)"
  shows "remove1 a (inorder (plug (Bin c l a r) k)) = before k @ inorder l @ inorder r @ after k"
  using assms before_nodes [of k] by (auto simp: inorder_plug remove1_append)

lemma restored_tree:
  assumes "restored s1 u s'" "same_outside A s s1" "nodes u \<subseteq> A"
  shows "\<exists>t'. tree_at s' t' \<and> redblack t' \<and> inorder t' = inorder u \<and> same_outside A s s'"
  using assms unfolding restored_def by (meson same_outside_trans same_outside_mono)

lemma delete_tree:
  assumes tree: "tree_at s t" and rb: "redblack t" and a: "a \<in> nodes t"
  shows "\<exists>s' t'. rbtree_delete (Some a) s = Some s' \<and> tree_at s' t' \<and> redblack t' \<and>
    inorder t' = remove1 a (inorder t) \<and> same_outside (insert (rb_nil s) (nodes t)) s s'"
proof -
  obtain c l r k where t: "t = plug (Bin c l a r) k" using node_position [OF a] by blast
  have pos: "pos_at s (Bin c l a r) k" using tree t by (simp only: tree_at_plug)
  have f: "rb_left s a = tptr (rb_nil s) l" "rb_right s a = tptr (rb_nil s) r" "rb_col s a = c" "rb_nil s \<notin> nodes l" "rb_nil s \<notin> nodes r" "rep s a r"
    using pos by (auto simp: pos_at_def get_side)
  have rm: "remove1 a (inorder t) = before k @ inorder l @ inorder r @ after k"
    using tree remove_plug by (simp add: t tree_at_def)
  have fin: ?thesis
    if "rbtree_delete (Some a) s = Some s'" "restored s1 u s'" "same_outside (insert (rb_nil s) (nodes t)) s s1"
      "inorder u = before k @ inorder l @ inorder r @ after k" for s1 u s'
  proof -
    have "nodes u \<subseteq> nodes t" using arg_cong [OF that(4), of set] before_nodes [of k] by (auto simp: t)
    then show ?thesis using restored_tree [OF that(2,3)] that(1,4) rm by fastforce
  qed
  consider "l = Tip" | "l \<noteq> Tip" "r = Tip" | "l \<noteq> Tip" "r \<noteq> Tip" by blast
  then show ?thesis
  proof cases
    case 1
    then obtain s' where d: "(if c = BLACK then delete_fixup (tptr (rb_nil s) r) (rbtree_replace_node a (tptr (rb_nil s) r) s)
        else Some (rbtree_replace_node a (tptr (rb_nil s) r) s)) = Some s'" "restored (rbtree_replace_node a (tptr (rb_nil s) r) s) (plug r k) s'"
        "same_outside (insert (rb_nil s) (nodes t)) s (rbtree_replace_node a (tptr (rb_nil s) r) s)"
      using delete_one [of s L c a r k] tree rb t by auto
    show ?thesis
      by (rule fin [OF _ d(2,3)]) (use d(1) f 1 in \<open>simp_all add: rbtree_delete_def Let_def inorder_plug\<close>)
  next
    case 2
    then obtain s' where d: "(if c = BLACK then delete_fixup (tptr (rb_nil s) l) (rbtree_replace_node a (tptr (rb_nil s) l) s)
        else Some (rbtree_replace_node a (tptr (rb_nil s) l) s)) = Some s'" "restored (rbtree_replace_node a (tptr (rb_nil s) l) s) (plug l k) s'"
        "same_outside (insert (rb_nil s) (nodes t)) s (rbtree_replace_node a (tptr (rb_nil s) l) s)"
      using delete_one [of s R c a l k] tree rb t by auto
    show ?thesis
      by (rule fin [OF _ d(2,3)]) (use d(1) f 2 tptr_nil(1) in \<open>simp_all add: rbtree_delete_def Let_def inorder_plug\<close>)
  next
    case 3
    obtain cb b r2 kk where b: "leftmost (tptr (rb_nil s) r) s = Some b" "r = plug (Bin cb Tip b r2) kk" "before kk = []"
      using leftmost_ok [OF f(6) 3(2) f(5)] by blast
    have g: "rb_col s b = cb" "rb_right s b = tptr (rb_nil s) r2" using f(6) b(2) by (simp_all add: rep_plug get_side)
    obtain s' where d: "(if cb = BLACK then delete_fixup (tptr (rb_nil s) r2) (replace_by_next a b s) else Some (replace_by_next a b s)) = Some s'"
        "restored (replace_by_next a b s) (plug (Bin c l b (plug r2 kk)) k) s'" "same_outside (insert (rb_nil s) (nodes t)) s (replace_by_next a b s)"
      using delete_two [OF tree rb _ 3(1)] t b(2) by blast
    have "tptr (rb_nil s) l \<noteq> rb_nil s" "tptr (rb_nil s) r \<noteq> rb_nil s" using 3 f(4,5) tptr_nil(1) by blast+
    then show ?thesis
      by (intro fin [OF _ d(2,3)]) (use d(1) f(1-3) g b(1) in \<open>auto simp: rbtree_delete_def Let_def inorder_plug b(2,3) split: if_splits\<close>)
  qed
qed

text \<open>
  Property C7: \<^verbatim>\<open>rbtree_delete\<close> returns, and takes exactly the given node out of the red-black tree a store holds: the
  others keep their order, the tree stays a red-black tree and only its nodes and the sentinel are written.
\<close>

theorem rbtree_delete_correct:
  assumes "tree_at s t" "redblack t" "a \<in> nodes t"
  shows "\<exists>s' t'. rbtree_delete (Some a) s = Some s' \<and> tree_at s' t' \<and> redblack t' \<and>
    inorder t' = remove1 a (inorder t) \<and> same_outside (insert (rb_nil s) (nodes t)) s s'"
  by (rule delete_tree [OF assms])

section \<open>Search and traversal follow the order\<close>

definition first_of :: "ptr list \<Rightarrow> ptr option" where
  "first_of xs = (case xs of [] \<Rightarrow> None | x # _ \<Rightarrow> Some x)"

lemma leftmost_hd:
  "rep s p t \<Longrightarrow> t \<noteq> Tip \<Longrightarrow> rb_nil s \<notin> nodes t \<Longrightarrow> leftmost (tptr (rb_nil s) t) s = Some (hd (inorder t))"
proof (induction t arbitrary: p)
  case (Bin c l a r)
  then show ?case by (subst leftmost.simps) (cases l; auto simp: get_side hd_append)
qed simp

lemma rightmost_last:
  "rep s p t \<Longrightarrow> t \<noteq> Tip \<Longrightarrow> rb_nil s \<notin> nodes t \<Longrightarrow> rightmost (tptr (rb_nil s) t) s = Some (last (inorder t))"
proof (induction t arbitrary: p)
  case (Bin c l a r)
  then show ?case by (subst rightmost.simps) (cases r; auto simp: get_side)
qed simp

lemma climb_ok:
  assumes "pos_at s t k" "t \<noteq> Tip"
  shows "climb_right (tptr (rb_nil s) t) (cpar (rb_nil s) k) s = Some (case after k of [] \<Rightarrow> rb_nil s | x # _ \<Rightarrow> x)"
    "climb_left (tptr (rb_nil s) t) (cpar (rb_nil s) k) s = Some (case rev (before k) of [] \<Rightarrow> rb_nil s | x # _ \<Rightarrow> x)"
proof -
  have "climb_right (tptr (rb_nil s) t) (cpar (rb_nil s) k) s = Some (case after k of [] \<Rightarrow> rb_nil s | x # _ \<Rightarrow> x) \<and>
      climb_left (tptr (rb_nil s) t) (cpar (rb_nil s) k) s = Some (case rev (before k) of [] \<Rightarrow> rb_nil s | x # _ \<Rightarrow> x)"
    using assms
  proof (induction k arbitrary: t)
    case Nil
    then show ?case by (simp add: climb_right.simps climb_left.simps)
  next
    case (Cons f k)
    obtain d c p y where f: "f = Fr d c p y" by (cases f)
    note pf = pos_fields [OF Cons.prems(1) [unfolded f]] sibling_other [OF Cons.prems(1) [unfolded f] Cons.prems(2)]
    have "pos_at s (bin d c t p y) k" using Cons.prems(1) by (simp only: f pos_up)
    from Cons.IH [OF this] show ?case
      using pf by (cases d; subst climb_right.simps; subst climb_left.simps) (auto simp: f get_side)
  qed
  then show "climb_right (tptr (rb_nil s) t) (cpar (rb_nil s) k) s = Some (case after k of [] \<Rightarrow> rb_nil s | x # _ \<Rightarrow> x)"
    "climb_left (tptr (rb_nil s) t) (cpar (rb_nil s) k) s = Some (case rev (before k) of [] \<Rightarrow> rb_nil s | x # _ \<Rightarrow> x)"
    by auto
qed

lemma split_unique: "distinct (xs @ a # ys) \<Longrightarrow> xs @ a # ys = us @ a # vs \<Longrightarrow> xs = us \<and> ys = vs"
  by (auto simp: append_eq_append_conv2 append_eq_Cons_conv Cons_eq_append_conv)

lemma node_split:
  assumes "tree_at s t" "inorder t = xs @ a # ys"
  shows "\<exists>c l r k. pos_at s (Bin c l a r) k \<and> xs = before k @ inorder l \<and> ys = inorder r @ after k"
proof -
  have "a \<in> nodes t" using arg_cong [OF assms(2), of set] by simp
  then obtain c l r k where t: "t = plug (Bin c l a r) k" using node_position by blast
  have d: "distinct (xs @ a # ys)" using assms by (simp add: tree_at_def flip: distinct_inorder)
  have e: "xs @ a # ys = (before k @ inorder l) @ a # (inorder r @ after k)" using assms(2) by (simp add: t inorder_plug)
  have "pos_at s (Bin c l a r) k" using assms(1) by (simp only: t tree_at_plug)
  then show ?thesis using split_unique [OF d e] by blast
qed

lemma next_ok:
  assumes "tree_at s t" "inorder t = xs @ a # ys"
  shows "rbtree_next a s = Some (first_of ys)" "rbtree_prev a s = Some (first_of (rev xs))"
proof -
  obtain c l r k where n: "pos_at s (Bin c l a r) k" "xs = before k @ inorder l" "ys = inorder r @ after k"
    using node_split [OF assms] by blast
  have f: "rb_left s a = tptr (rb_nil s) l" "rb_right s a = tptr (rb_nil s) r" "rb_parent s a = cpar (rb_nil s) k"
    "rb_nil s \<notin> nodes l" "rb_nil s \<notin> nodes r" "rep s a l" "rep s a r" "rb_nil s \<notin> ctx_nodes k"
    using n(1) by (auto simp: pos_at_def get_side)
  note cl = climb_ok [OF n(1), simplified]
  have e: "inorder r = hd (inorder r) # tl (inorder r)" if "r \<noteq> Tip" using that by (cases r) auto
  show "rbtree_next a s = Some (first_of ys)"
  proof (cases "r = Tip")
    case True
    then show ?thesis using f cl(1) before_nodes(2) [of k] n(3)
      by (auto simp: rbtree_next_def first_of_def split: list.splits)
  next
    case False
    then have "first_of ys = Some (hd (inorder r))" unfolding n(3) first_of_def by (subst e) auto
    then show ?thesis using f False leftmost_hd [OF f(7)] tptr_nil(1) by (simp add: rbtree_next_def)
  qed
  have e': "rev (inorder l) = last (inorder l) # tl (rev (inorder l))" if "l \<noteq> Tip"
    using that by (cases l) (auto simp: last_rev hd_rev simp flip: hd_rev)
  show "rbtree_prev a s = Some (first_of (rev xs))"
  proof (cases "l = Tip")
    case True
    then show ?thesis using f cl(2) before_nodes(1) [of k] n(2) set_rev [of "before k"]
      by (auto simp: rbtree_prev_def first_of_def split: list.splits)
  next
    case False
    then have "first_of (rev xs) = Some (last (inorder l))" unfolding n(2) first_of_def rev_append by (subst e') auto
    then show ?thesis using f False rightmost_last [OF f(6)] tptr_nil(1) by (simp add: rbtree_prev_def)
  qed
qed

lemma for_each_from_ok: "tree_at s t \<Longrightarrow> inorder t = xs @ ys \<Longrightarrow> for_each_from (first_of ys) s = Some ys"
proof (induction ys arbitrary: xs)
  case Nil
  then show ?case by (subst for_each_from.simps) (simp add: first_of_def)
next
  case (Cons y ys)
  then have "for_each_from (first_of ys) s = Some ys" using Cons.IH [of "xs @ [y]"] by simp
  then show ?case using next_ok(1) [OF Cons.prems]
    by (subst for_each_from.simps) (simp add: first_of_def [of "y # ys"])
qed

lemma first_ok: "tree_at s t \<Longrightarrow> rbtree_first s = Some (first_of (inorder t))"
  using leftmost_hd [of s "rb_nil s" t] by (cases t) (auto simp: rbtree_first_def tree_at_def first_of_def split: list.splits)

lemma last_ok: "tree_at s t \<Longrightarrow> rbtree_last s = Some (first_of (rev (inorder t)))"
  using rightmost_last [of s "rb_nil s" t] hd_rev [of "inorder t"]
  by (cases t) (auto simp: rbtree_last_def tree_at_def first_of_def split: list.splits)

lemma search_loop_ok:
  assumes "rep s p t" "rb_nil s \<notin> nodes t" "sorted_wrt (\<lambda>x y. sgn (cmp y) \<le> sgn (cmp x)) (inorder t)"
  shows "\<exists>r. search_loop cmp (tptr (rb_nil s) t) s = Some r \<and> (case r of Some n \<Rightarrow> n \<in> nodes t \<and> cmp n = 0 | None \<Rightarrow> \<forall>n\<in>nodes t. cmp n \<noteq> 0)"
  using assms
proof (induction t arbitrary: p)
  case Tip
  then show ?case by (simp add: search_loop.simps)
next
  case (Bin c l a r)
  have f: "rb_left s a = tptr (rb_nil s) l" "rb_right s a = tptr (rb_nil s) r" "a \<noteq> rb_nil s" using Bin.prems by (auto simp: get_side)
  have le: "\<forall>x\<in>nodes l. sgn (cmp a) \<le> sgn (cmp x)" and ge: "\<forall>x\<in>nodes r. sgn (cmp x) \<le> sgn (cmp a)"
    using Bin.prems(3) by (auto simp: sorted_wrt_append)
  consider "cmp a < 0" | "cmp a > 0" | "cmp a = 0" by linarith
  then show ?case
  proof cases
    case 1
    then have "\<forall>x\<in>nodes r. cmp x \<noteq> 0" using ge by (force simp: sgn_if split: if_splits)
    then show ?thesis using Bin.IH(1) [of a] Bin.prems f 1
      by (subst search_loop.simps) (fastforce simp: sorted_wrt_append split: option.splits)
  next
    case 2
    then have "\<forall>x\<in>nodes l. cmp x \<noteq> 0" using le by (force simp: sgn_if split: if_splits)
    then show ?thesis using Bin.IH(2) [of a] Bin.prems f 2
      by (subst search_loop.simps) (fastforce simp: sorted_wrt_append split: option.splits)
  next
    case 3
    then show ?thesis using f by (subst search_loop.simps) simp
  qed
qed

lemma for_each_ok: "tree_at s t \<Longrightarrow> rbtree_for_each s = Some (inorder t)"
  using for_each_from_ok [of s t "[]" "inorder t"] first_ok [of s t] by (simp add: rbtree_for_each_def)

lemma search_ok:
  assumes "tree_at s t" "sorted_wrt (\<lambda>x y. sgn (cmp y) \<le> sgn (cmp x)) (inorder t)"
  shows "\<exists>r. rbtree_search cmp s = Some r \<and> (case r of Some n \<Rightarrow> n \<in> nodes t \<and> cmp n = 0 | None \<Rightarrow> \<forall>n\<in>nodes t. cmp n \<noteq> 0)"
proof (cases "t = Tip")
  case True
  then show ?thesis using assms(1) by (simp add: rbtree_search_def tree_at_def)
next
  case False
  then have "rbtree_search cmp s = search_loop cmp (tptr (rb_nil s) t) s"
    using assms(1) tptr_nil(1) by (auto simp: rbtree_search_def tree_at_def)
  then show ?thesis using search_loop_ok [of s "rb_nil s" t cmp] assms by (simp add: tree_at_def)
qed

lemma first_of_rev: "xs \<noteq> [] \<Longrightarrow> first_of (rev xs) = Some (last xs)"
  by (cases xs rule: rev_cases) (auto simp: first_of_def)

text \<open>
  Traversal follows the order of the tree.  \<^verbatim>\<open>rbtree_for_each\<close> ends and visits every node once, in order;
  from any node \<^verbatim>\<open>rbtree_next\<close> and \<^verbatim>\<open>rbtree_prev\<close> give its neighbours, and \<^verbatim>\<open>rbtree_last\<close> the last node.
\<close>

theorem rbtree_traversal:
  assumes "tree_at s t" and "inorder t = xs @ a # ys"
  shows "rbtree_for_each s = Some (xs @ a # ys) \<and> rbtree_next a s = Some (first_of ys) \<and> rbtree_prev a s = Some (first_of (rev xs)) \<and>
    rbtree_last s = Some (Some (last (a # ys)))"
  using for_each_ok [OF assms(1)] next_ok [OF assms] last_ok [OF assms(1)] first_of_rev [of "inorder t"] assms(2) by simp

section \<open>An example\<close>

text \<open>Three nodes, the root black and its children red; the sentinel is at address 8.\<close>

definition demo_rb :: rbstore where
  "demo_rb = \<lparr>rb_col = (\<lambda>a. if a = 0x20 \<or> a = 8 then BLACK else RED), rb_parent = (\<lambda>a. if a = 0x10 \<or> a = 0x30 then 0x20 else 8),
     rb_left = (\<lambda>a. if a = 0x20 then 0x10 else 8), rb_right = (\<lambda>a. if a = 0x20 then 0x30 else 8), rb_root = 0x20, rb_nil = 8\<rparr>"

definition demo_tree :: rbt where
  "demo_tree = Bin BLACK (Bin RED Tip 0x10 Tip) 0x20 (Bin RED Tip 0x30 Tip)"

definition by_address :: "ptr \<Rightarrow> ptr \<Rightarrow> int" where
  "by_address x y = (if x < y then -1 else if x > y then 1 else 0)"

lemma demo_rb_ok: "tree_at demo_rb demo_tree" "redblack demo_tree" "inorder demo_tree = [0x10, 0x20, 0x30]" "nodes demo_tree = {0x10, 0x20, 0x30}"
  "rb_nil demo_rb = 8"
  by (auto simp: tree_at_def demo_rb_def demo_tree_def redblack_def child.simps)

theorem rbtree_insert_correct_witness:
  "\<exists>s' t'. rbtree_insert (Some 0x28) (Some by_address) demo_rb = Some s' \<and> tree_at s' t' \<and> redblack t' \<and> inorder t' = [0x10, 0x20, 0x28, 0x30]"
proof -
  have "consistent (by_address 0x28) (inorder demo_tree)" by (simp add: consistent_def demo_rb_ok by_address_def)
  with rbtree_insert_correct [OF demo_rb_ok(1,2), of "0x28" by_address]
  show ?thesis by (simp add: demo_rb_ok by_address_def) blast
qed

theorem rbtree_delete_correct_witness:
  "\<exists>s' t'. rbtree_delete (Some 0x20) demo_rb = Some s' \<and> tree_at s' t' \<and> redblack t' \<and> inorder t' = [0x10, 0x30]"
  using rbtree_delete_correct [OF demo_rb_ok(1,2), of "0x20"] by (simp add: demo_rb_ok) blast

theorem rbtree_traversal_witness:
  "rbtree_for_each demo_rb = Some [0x10, 0x20, 0x30] \<and> rbtree_next 0x20 demo_rb = Some (Some 0x30) \<and> rbtree_prev 0x20 demo_rb = Some (Some 0x10) \<and>
    rbtree_last demo_rb = Some (Some 0x30)"
  using rbtree_traversal [OF demo_rb_ok(1), of "[0x10]" "0x20" "[0x30]"] by (simp add: demo_rb_ok first_of_def)

end
