(* ===== verification/Regions.thy ===== *)
theory Regions
  imports Redblack Vmm
begin

text \<open>
  The tree of regions (\<^verbatim>\<open>kernel/mm/vmm.c\<close>): the list of regions that \<open>Vmm\<close> works on is what the red-black tree of
  \<open>Redblack\<close> holds, under the comparisons by start address that the address-space code passes to it.  The node
  of a region is its first member, so node and region have one address.
\<close>

section \<open>The comparison of regions\<close>

text \<open>\<open>region\<close> gives the region stored at an address.\<close>

definition vmm_rbtree_node_cmp :: "(ptr \<Rightarrow> vmm_region) \<Rightarrow> ptr \<Rightarrow> ptr \<Rightarrow> int" where
  "vmm_rbtree_node_cmp region left right =
     (if left = 0 \<or> right = 0 then -1
      else let l = region left; r = region right in
      if start_va l < start_va r then -1
      else if start_va l > start_va r then 1
      else 0)"

section \<open>The tree holds the list\<close>

definition region_tree :: "rbstore \<Rightarrow> vmm_region list \<Rightarrow> bool" where
  "region_tree s rs \<longleftrightarrow> (\<exists>t. tree_at s t \<and> redblack t \<and> inorder t = map rg_node rs)"

lemma size_pos: "region_ok r \<Longrightarrow> 0 < unat (rg_size r)"
  by (simp add: region_ok_def unat_gt_0)

lemma start_sorted:
  assumes "regions_ok rs"
  shows "sorted_wrt (\<lambda>x y. start_va x < start_va y) rs"
proof (rule sorted_wrt_mono_rel)
  show "sorted_wrt (\<lambda>r x. rg_end r \<le> unat (start_va x)) rs" using assms by (simp add: regions_ok_def)
  show "start_va x < start_va y" if "x \<in> set rs" "rg_end x \<le> unat (start_va y)" for x y
    using that assms size_pos [of x] by (simp add: regions_ok_def word_less_nat_alt)
qed

lemma region_insert_split:
  "sorted_wrt (\<lambda>x y. start_va x < start_va y) rs \<Longrightarrow>
   region_insert r rs = takeWhile (\<lambda>x. \<not> start_va r < start_va x) rs @ r # dropWhile (\<lambda>x. \<not> start_va r < start_va x) rs"
  by (induction r rs rule: region_insert.induct) auto

lemma region_tree_insert:
  assumes "region_tree s rs" "regions_ok rs" "rg_node r \<notin> rg_node ` set rs" "rg_node r \<noteq> rb_nil s"
    and nn: "0 \<notin> rg_node ` set (r # rs)" and at: "\<forall>x\<in>set (r # rs). region (rg_node x) = x"
  shows "\<exists>s'. rbtree_insert (Some (rg_node r)) (Some (vmm_rbtree_node_cmp region)) s = Some s' \<and> region_tree s' (region_insert r rs)"
proof -
  obtain t where t: "tree_at s t" "redblack t" "inorder t = map rg_node rs" using assms(1) by (auto simp: region_tree_def)
  have nt: "nodes t = rg_node ` set rs" using arg_cong [OF t(3), of set] by simp
  let ?c = "vmm_rbtree_node_cmp region (rg_node r)"
  have c: "?c (rg_node x) < 0 \<longleftrightarrow> start_va r < start_va x" "?c (rg_node x) \<ge> 0 \<longleftrightarrow> \<not> start_va r < start_va x" if "x \<in> set rs" for x
    using that nn at by (auto simp: vmm_rbtree_node_cmp_def image_iff)
  have srt: "sorted_wrt (\<lambda>x y. start_va x < start_va y) rs" using assms(2) by (rule start_sorted)
  have "sorted_wrt (\<lambda>x y. ?c (rg_node x) < 0 \<longrightarrow> ?c (rg_node y) < 0) rs"
    by (rule sorted_wrt_mono_rel [OF _ srt]) (use c in \<open>auto intro: order.strict_trans\<close>)
  then have con: "consistent ?c (inorder t)" by (simp add: consistent_def t(3) sorted_wrt_map)
  have tw: "takeWhile (\<lambda>x. ?c x \<ge> 0) (map rg_node rs) = map rg_node (takeWhile (\<lambda>x. \<not> start_va r < start_va x) rs)"
    "dropWhile (\<lambda>x. ?c x \<ge> 0) (map rg_node rs) = map rg_node (dropWhile (\<lambda>x. \<not> start_va r < start_va x) rs)"
    by (simp_all add: takeWhile_map dropWhile_map comp_def c(2) cong: takeWhile_cong dropWhile_cong)
  show ?thesis
    using insert_tree [OF t(1,2), of "rg_node r" "vmm_rbtree_node_cmp region"] assms(3,4) nt con tw
    by (auto simp: region_tree_def t(3) region_insert_split [OF srt])
qed

lemma region_tree_delete:
  assumes "region_tree s rs" "x \<in> set rs"
  shows "\<exists>s'. rbtree_delete (Some (rg_node x)) s = Some s' \<and> region_tree s' (region_delete (rg_node x) rs)"
proof -
  obtain t where t: "tree_at s t" "redblack t" "inorder t = map rg_node rs" using assms(1) by (auto simp: region_tree_def)
  have nt: "nodes t = rg_node ` set rs" using arg_cong [OF t(3), of set] by simp
  have "distinct (map rg_node rs)" using t(1,3) distinct_inorder [of t] by (simp add: tree_at_def)
  then have "remove1 (rg_node x) (map rg_node rs) = map rg_node (region_delete (rg_node x) rs)"
    by (auto simp: distinct_remove1_removeAll removeAll_filter_not_eq region_delete_def filter_map comp_def
        intro!: arg_cong [where f = "map rg_node"] filter_cong)
  then show ?thesis using delete_tree [OF t(1,2), of "rg_node x"] assms(2) nt t(3) by (auto simp: region_tree_def)
qed

lemma key_cmp_cases:
  assumes "region_ok r"
  shows "vmm_rbtree_key_cmp k r = (if k = 0 \<or> k < start_va r then -1 else if unat k < rg_end r then 0 else 1)"
  using assms by (auto simp: vmm_rbtree_key_cmp_def region_ok_def word_less_nat_alt word_le_nat_alt unat_word_ariths)

lemma key_cmp_sorted:
  assumes "regions_ok rs"
  shows "sorted_wrt (\<lambda>x y. sgn (vmm_rbtree_key_cmp k y) \<le> sgn (vmm_rbtree_key_cmp k x)) rs"
    "sorted_wrt (\<lambda>x y. \<not> (vmm_rbtree_key_cmp k x = 0 \<and> vmm_rbtree_key_cmp k y = 0)) rs"
proof -
  have srt: "sorted_wrt (\<lambda>r x. rg_end r \<le> unat (start_va x)) rs" and ok: "\<forall>x\<in>set rs. region_ok x"
    using assms by (simp_all add: regions_ok_def)
  have "sgn (vmm_rbtree_key_cmp k y) \<le> sgn (vmm_rbtree_key_cmp k x)" "\<not> (vmm_rbtree_key_cmp k x = 0 \<and> vmm_rbtree_key_cmp k y = 0)"
    if "x \<in> set rs" "y \<in> set rs" "rg_end x \<le> unat (start_va y)" for x y
    using that ok size_pos [of y] by (auto simp: key_cmp_cases word_less_nat_alt)
  then show "sorted_wrt (\<lambda>x y. sgn (vmm_rbtree_key_cmp k y) \<le> sgn (vmm_rbtree_key_cmp k x)) rs"
    "sorted_wrt (\<lambda>x y. \<not> (vmm_rbtree_key_cmp k x = 0 \<and> vmm_rbtree_key_cmp k y = 0)) rs"
    by (auto intro: sorted_wrt_mono_rel [OF _ srt])
qed

lemma region_tree_search:
  assumes "region_tree s rs" "regions_ok rs" and at: "\<forall>x\<in>set rs. region (rg_node x) = x"
  shows "rbtree_search (\<lambda>p. vmm_rbtree_key_cmp k (region p)) s = Some (map_option rg_node (find (\<lambda>r. vmm_rbtree_key_cmp k r = 0) rs))"
proof -
  obtain t where t: "tree_at s t" "inorder t = map rg_node rs" using assms(1) by (auto simp: region_tree_def)
  have nt: "nodes t = rg_node ` set rs" using arg_cong [OF t(2), of set] by simp
  let ?c = "\<lambda>p. vmm_rbtree_key_cmp k (region p)"
  have "sorted_wrt (\<lambda>x y. sgn (?c (rg_node y)) \<le> sgn (?c (rg_node x))) rs"
    by (rule sorted_wrt_mono_rel [OF _ key_cmp_sorted(1) [OF assms(2), of k]]) (use at in auto)
  then have "sorted_wrt (\<lambda>x y. sgn (?c y) \<le> sgn (?c x)) (inorder t)" by (simp add: t(2) sorted_wrt_map)
  from search_ok [OF t(1) this] obtain r where r: "rbtree_search ?c s = Some r"
    "case r of Some n \<Rightarrow> n \<in> nodes t \<and> ?c n = 0 | None \<Rightarrow> \<forall>n\<in>nodes t. ?c n \<noteq> 0" by blast
  show ?thesis
  proof (cases r)
    case None
    then have "find (\<lambda>r. vmm_rbtree_key_cmp k r = 0) rs = None" using r(2) nt at by (auto simp: find_None_iff)
    then show ?thesis using r(1) None by simp
  next
    case (Some n)
    then obtain x where x: "n = rg_node x" "x \<in> set rs" "vmm_rbtree_key_cmp k x = 0" using r(2) nt at by auto
    have "find (\<lambda>r. vmm_rbtree_key_cmp k r = 0) rs = Some x"
      using key_cmp_sorted(2) [OF assms(2), of k] x(2,3) by (induction rs) auto
    then show ?thesis using r(1) Some x(1) by simp
  qed
qed

text \<open>
  Property C21: the red-black tree of an address space implements the list of regions the rest of the kernel is described
  with.  Insertion with the comparison by start address is the ordered insertion, deletion by node the removal, the
  traversal visits the regions in the order of the list, and the search by address finds the region that contains it.
\<close>

theorem region_tree_refines:
  assumes "region_tree s rs" "regions_ok rs"
    and "\<forall>x\<in>set (r # rs). region (rg_node x) = x \<and> rg_node x \<noteq> 0" "rg_node r \<notin> rg_node ` set rs" "rg_node r \<noteq> rb_nil s"
  shows "(\<exists>s'. rbtree_insert (Some (rg_node r)) (Some (vmm_rbtree_node_cmp region)) s = Some s' \<and> region_tree s' (region_insert r rs)) \<and>
    (\<forall>x\<in>set rs. \<exists>s'. rbtree_delete (Some (rg_node x)) s = Some s' \<and> region_tree s' (region_delete (rg_node x) rs)) \<and>
    rbtree_for_each s = Some (map rg_node rs) \<and>
    (\<forall>k. rbtree_search (\<lambda>p. vmm_rbtree_key_cmp k (region p)) s = Some (map_option rg_node (find (\<lambda>x. vmm_rbtree_key_cmp k x = 0) rs)))"
proof -
  have "rbtree_for_each s = Some (map rg_node rs)" using assms(1) for_each_ok by (auto simp: region_tree_def)
  moreover have "0 \<notin> rg_node ` set (r # rs)" using assms(3) by auto
  ultimately show ?thesis
    using region_tree_insert [OF assms(1,2,4,5)] region_tree_delete [OF assms(1)] region_tree_search [OF assms(1,2)] assms(3) by auto
qed

definition demo_region :: "ptr \<Rightarrow> vmm_region" where
  "demo_region p = \<lparr>rg_node = p, start_va = p * 4096, rg_size = 4096, rg_flags = 7, rg_pa = 0, own_phys = False\<rparr>"

theorem region_tree_refines_witness:
  "\<exists>s'. rbtree_insert (Some 0x28) (Some (vmm_rbtree_node_cmp demo_region)) demo_rb = Some s' \<and>
     region_tree s' (map demo_region [0x10, 0x20, 0x28, 0x30])"
proof -
  have tree: "region_tree demo_rb (map demo_region [0x10, 0x20, 0x30])"
    using demo_rb_ok by (auto simp: region_tree_def demo_region_def)
  have ok: "regions_ok (map demo_region [0x10, 0x20, 0x30])" by (simp add: demo_region_def region_ok_def aligned_def)
  show ?thesis
    using region_tree_refines [OF tree ok, of "demo_region 0x28" demo_region] demo_rb_ok(5) by (simp add: demo_region_def)
qed

end
