(* ===== verification/Strings.thy ===== *)
theory Strings
  imports Memory
begin

text \<open>
  Strings and formatted output (\<^verbatim>\<open>kernel/lib/string.c\<close>).  A C string that is only read is the list of the characters before
  its terminator; the destination of \<^verbatim>\<open>vsnprintf\<close> is memory.  A variable argument list is a list of words and strings.
  Reading an argument that was not passed, or the format beyond its terminator, is undefined in C and is \<open>None\<close> here.
\<close>

section \<open>Comparison\<close>

primrec strlen :: "string \<Rightarrow> nat" where
  "strlen [] = 0"
| "strlen (c # s) = Suc (strlen s)"

fun strcmp :: "string \<Rightarrow> string \<Rightarrow> int" where
  "strcmp (a # s1) (b # s2) = (if a = b then strcmp s1 s2 else int (of_char a) - int (of_char b))"
| "strcmp (a # s1) [] = int (of_char a)"
| "strcmp [] (b # s2) = - int (of_char b)"
| "strcmp [] [] = 0"

section \<open>Numbers\<close>

text \<open>The conversion loops fill a buffer from the least digit on; the result is that buffer reversed.\<close>

function itoa_loop :: "u32 \<Rightarrow> u32 \<Rightarrow> string" where
  "itoa_loop base n =
     (if n = 0 \<or> base < 2 then []
      else let digit = unat (n mod base) in
        (if digit < 10 then char_of (48 + digit) else char_of (97 + (digit - 10))) # itoa_loop base (n div base))"
  by auto
termination
  by (relation "measure (unat \<circ> snd)")
    (auto simp: unat_div word_less_nat_alt unat_gt_0 intro!: div_less_dividend)

definition itoa :: "i32 \<Rightarrow> int \<Rightarrow> string" where
  "itoa num base =
     (if base < 2 \<or> base > 36 then []
      else let is_negative = (sint num < 0 \<and> base = 10); n = (if is_negative then - num else num) in
        if n = 0 then ''0''
        else let temp = itoa_loop (word_of_int base) n;
                 temp = (if is_negative then temp @ ''-'' else temp)
             in rev temp)"

function utox_loop :: "bool \<Rightarrow> u32 \<Rightarrow> string" where
  "utox_loop uppercase num =
     (if num = 0 then []
      else let digit = unat (num mod 16) in
        (if digit < 10 then char_of (48 + digit)
         else if uppercase then char_of (65 + (digit - 10)) else char_of (97 + (digit - 10))) # utox_loop uppercase (num div 16))"
  by auto
termination
  by (relation "measure (unat \<circ> snd)") (auto simp: unat_div unat_gt_0 intro!: div_less_dividend)

definition utox :: "u32 \<Rightarrow> bool \<Rightarrow> string" where
  "utox num uppercase = (if num = 0 then ''0'' else rev (utox_loop uppercase num))"

function utoa_loop :: "u32 \<Rightarrow> string" where
  "utoa_loop num = (if num = 0 then [] else char_of (48 + unat (num mod 10)) # utoa_loop (num div 10))"
  by auto
termination
  by (relation "measure unat") (auto simp: unat_div unat_gt_0 intro!: div_less_dividend)

definition utoa :: "u32 \<Rightarrow> string" where
  "utoa num = (if num = 0 then ''0'' else rev (utoa_loop num))"

declare itoa_loop.simps [simp del] utox_loop.simps [simp del] utoa_loop.simps [simp del]

section \<open>Output\<close>

record outbuf =
  omem :: mem
  current :: u32
  remaining :: u32
  written :: int

definition put :: "char \<Rightarrow> outbuf \<Rightarrow> outbuf" where
  "put c out =
     (if remaining out > 0
      then out\<lparr>omem := (omem out)(current out := of_char c), current := current out + 1, written := written out + 1,
               remaining := remaining out - 1\<rparr>
      else out)"

definition pad_output :: "int \<Rightarrow> char \<Rightarrow> outbuf \<Rightarrow> outbuf" where
  "pad_output width pad_char out = fold (\<lambda>_. put pad_char) [0..<nat width] out"

definition pad_string_output :: "string \<Rightarrow> int \<Rightarrow> int \<Rightarrow> outbuf \<Rightarrow> outbuf" where
  "pad_string_output s width precision out =
     (let len = int (strlen s);
          len = (if precision \<ge> 0 \<and> len > precision then precision else len);
          padding = width - len;
          out = (if padding > 0 then pad_output padding CHR '' '' out else out)
      in fold put (take (nat len) s) out)"

section \<open>Conversion specifications\<close>

record fmt_flags =
  flag_zeropad :: bool
  flag_leftalign :: bool
  flag_showsign :: bool
  flag_altform :: bool

definition no_flags :: fmt_flags where
  "no_flags = \<lparr>flag_zeropad = False, flag_leftalign = False, flag_showsign = False, flag_altform = False\<rparr>"

fun parse_flags :: "string \<Rightarrow> fmt_flags \<Rightarrow> fmt_flags \<times> string" where
  "parse_flags [] f = (f, [])"
| "parse_flags (c # cs) f =
     (if c = CHR ''0'' then parse_flags cs (f\<lparr>flag_zeropad := True\<rparr>)
      else if c = CHR ''-'' then parse_flags cs (f\<lparr>flag_leftalign := True\<rparr>)
      else if c = CHR ''+'' then parse_flags cs (f\<lparr>flag_showsign := True\<rparr>)
      else if c = CHR ''#'' then parse_flags cs (f\<lparr>flag_altform := True\<rparr>)
      else if c = CHR '' '' then parse_flags cs f
      else (f, c # cs))"

definition is_digit :: "char \<Rightarrow> bool" where
  "is_digit c \<longleftrightarrow> (48::nat) \<le> of_char c \<and> (of_char c :: nat) \<le> 57"

text \<open>The value is a C \<^verbatim>\<open>int\<close>: it wraps at 32 bits.\<close>

definition wrap32 :: "int \<Rightarrow> int" where
  "wrap32 x = sint (word_of_int x :: i32)"

fun parse_num :: "string \<Rightarrow> int \<Rightarrow> int \<times> string" where
  "parse_num [] v = (v, [])"
| "parse_num (c # cs) v = (if is_digit c then parse_num cs (wrap32 (v * 10 + (of_char c - 48))) else (v, c # cs))"

definition parse_width :: "string \<Rightarrow> int \<times> string" where
  "parse_width s = (case s of c # _ \<Rightarrow> if is_digit c then parse_num s 0 else (-1, s) | [] \<Rightarrow> (-1, s))"

definition parse_precision :: "string \<Rightarrow> int \<times> string" where
  "parse_precision s = (case s of c # cs \<Rightarrow> if c = CHR ''.'' then parse_num cs 0 else (-1, s) | [] \<Rightarrow> (-1, s))"

definition skip_length :: "string \<Rightarrow> string" where
  "skip_length s = (case s of c # cs \<Rightarrow> if c = CHR ''l'' \<or> c = CHR ''h'' then cs else s | [] \<Rightarrow> s)"

definition parse_spec :: "string \<Rightarrow> fmt_flags \<times> int \<times> int \<times> string" where
  "parse_spec s =
     (let (f, s) = parse_flags s no_flags;
          (width, s) = parse_width s;
          (precision, s) = parse_precision s
      in (f, width, precision, skip_length s))"

lemma parse_length:
  "length (snd (parse_flags s f)) \<le> length s" "length (snd (parse_num s v)) \<le> length s"
proof -
  show "length (snd (parse_flags s f)) \<le> length s" by (induction s f rule: parse_flags.induct) auto
  show "length (snd (parse_num s v)) \<le> length s" by (induction s v rule: parse_num.induct) auto
qed

lemma parse_part_length: "length (snd (parse_width s)) \<le> length s" "length (snd (parse_precision s)) \<le> length s" "length (skip_length s) \<le> length s"
  using parse_length(2) [of s 0] parse_length(2) [of "tl s" 0]
  by (auto simp: parse_width_def parse_precision_def skip_length_def split: list.splits)

lemma parse_spec_length:
  assumes "parse_spec s = (f, w, p, s')"
  shows "length s' \<le> length s"
proof -
  define s1 where "s1 = snd (parse_flags s no_flags)"
  define s2 where "s2 = snd (parse_width s1)"
  define s3 where "s3 = snd (parse_precision s2)"
  have "s' = skip_length s3" using assms by (simp add: parse_spec_def Let_def s1_def s2_def s3_def split: prod.splits)
  moreover have "length s1 \<le> length s" "length s2 \<le> length s1" "length s3 \<le> length s2"
    using parse_length(1) parse_part_length by (simp_all add: s1_def s2_def s3_def)
  ultimately show ?thesis using parse_part_length(3) [of s3] by (metis order_trans)
qed

datatype va = VInt u32 | VStr "string option"

fun va_int :: "va list \<Rightarrow> (u32 \<times> va list) option" where
  "va_int (VInt w # ap) = Some (w, ap)"
| "va_int _ = None"

fun va_str :: "va list \<Rightarrow> (string option \<times> va list) option" where
  "va_str (VStr s # ap) = Some (s, ap)"
| "va_str _ = None"

text \<open>The digits of a number between the padding that width and flags ask for.\<close>

definition conv_d :: "fmt_flags \<Rightarrow> int \<Rightarrow> u32 \<Rightarrow> outbuf \<Rightarrow> outbuf" where
  "conv_d f width num out =
     (let is_negative = sint num < 0;
          abs_num = (if is_negative then - num else num);
          buffer = utoa abs_num;
          len = int (length buffer);
          sign_len = (if is_negative \<or> flag_showsign f then 1 else 0);
          total_len = len + sign_len;
          padding = (if width > total_len then width - total_len else 0);
          (padding, out) = (if \<not> flag_leftalign f \<and> \<not> flag_zeropad f \<and> padding > 0
                            then (0, pad_output padding CHR '' '' out) else (padding, out));
          out = (if remaining out > 0
                 then if is_negative then put CHR ''-'' out
                      else if flag_showsign f then put CHR ''+'' out
                      else out\<lparr>omem := (omem out)(current out := 0)\<rparr>
                 else out);
          (padding, out) = (if flag_zeropad f \<and> padding > 0 then (0, pad_output padding CHR ''0'' out) else (padding, out));
          out = fold put buffer out
      in if flag_leftalign f \<and> padding > 0 then pad_output padding CHR '' '' out else out)"

definition conv_u :: "fmt_flags \<Rightarrow> int \<Rightarrow> u32 \<Rightarrow> outbuf \<Rightarrow> outbuf" where
  "conv_u f width num out =
     (let buffer = utoa num;
          len = int (length buffer);
          padding = (if width > len then width - len else 0);
          (padding, out) = (if \<not> flag_leftalign f \<and> \<not> flag_zeropad f \<and> padding > 0
                            then (0, pad_output padding CHR '' '' out) else (padding, out));
          (padding, out) = (if flag_zeropad f \<and> padding > 0 then (0, pad_output padding CHR ''0'' out) else (padding, out));
          out = fold put buffer out
      in if flag_leftalign f \<and> padding > 0 then pad_output padding CHR '' '' out else out)"

definition conv_x :: "fmt_flags \<Rightarrow> int \<Rightarrow> bool \<Rightarrow> u32 \<Rightarrow> outbuf \<Rightarrow> outbuf" where
  "conv_x f width upper num out =
     (let buffer = utox num upper;
          len = int (length buffer);
          prefix_len = (if flag_altform f \<and> num \<noteq> 0 then 2 else 0);
          padding = (if width > len + prefix_len then width - len - prefix_len else 0);
          (padding, out) = (if \<not> flag_leftalign f \<and> \<not> flag_zeropad f \<and> padding > 0
                            then (0, pad_output padding CHR '' '' out) else (padding, out));
          out = (if flag_altform f \<and> num \<noteq> 0 \<and> remaining out > 1
                 then put (if upper then CHR ''X'' else CHR ''x'') (put CHR ''0'' out) else out);
          (padding, out) = (if flag_zeropad f \<and> padding > 0 then (0, pad_output padding CHR ''0'' out) else (padding, out));
          out = fold put buffer out
      in if flag_leftalign f \<and> padding > 0 then pad_output padding CHR '' '' out else out)"

definition conv_c :: "fmt_flags \<Rightarrow> int \<Rightarrow> u32 \<Rightarrow> outbuf \<Rightarrow> outbuf" where
  "conv_c f width num out =
     (let c = char_of (unat num); padding = width - 1;
          out = (if \<not> flag_leftalign f \<and> padding > 0 then pad_output padding CHR '' '' out else out);
          out = put c out
      in if flag_leftalign f \<and> padding > 0 then pad_output padding CHR '' '' out else out)"

definition conv_p :: "u32 \<Rightarrow> outbuf \<Rightarrow> outbuf" where
  "conv_p num out =
     (let buffer = utox num False;
          len = int (length buffer);
          out = (if remaining out > 1 then put CHR ''x'' (put CHR ''0'' out) else out);
          padding = (if len < 8 then 8 - len else 0);
          out = (if padding > 0 \<and> remaining out > 0 then pad_output padding CHR ''0'' out else out)
      in fold put buffer out)"

text \<open>The \<^verbatim>\<open>switch\<close> on the conversion character.\<close>

definition convert :: "fmt_flags \<Rightarrow> int \<Rightarrow> int \<Rightarrow> char \<Rightarrow> va list \<Rightarrow> outbuf \<Rightarrow> (va list \<times> outbuf) option" where
  "convert f width precision c ap out =
     (if c = CHR ''s'' then map_option (\<lambda>(s, ap). (ap, pad_string_output (case s of None \<Rightarrow> ''(null)'' | Some s \<Rightarrow> s) width precision out)) (va_str ap)
      else if c = CHR ''d'' \<or> c = CHR ''i'' then map_option (\<lambda>(num, ap). (ap, conv_d f width num out)) (va_int ap)
      else if c = CHR ''u'' then map_option (\<lambda>(num, ap). (ap, conv_u f width num out)) (va_int ap)
      else if c = CHR ''x'' \<or> c = CHR ''X'' then map_option (\<lambda>(num, ap). (ap, conv_x f width (c = CHR ''X'') num out)) (va_int ap)
      else if c = CHR ''c'' then map_option (\<lambda>(num, ap). (ap, conv_c f width num out)) (va_int ap)
      else if c = CHR ''p'' then map_option (\<lambda>(num, ap). (ap, conv_p num out)) (va_int ap)
      else if c = CHR ''%'' then Some (ap, put CHR ''%'' out)
      else Some (ap, put c (put CHR ''%'' out)))"

function fmt_loop :: "string \<Rightarrow> va list \<Rightarrow> outbuf \<Rightarrow> outbuf option" where
  "fmt_loop [] ap out = Some out"
| "fmt_loop (c # cs) ap out =
     (if c = CHR ''%'' then
        case parse_spec cs of (f, width, precision, cs') \<Rightarrow>
          (case cs' of
             [] \<Rightarrow> None
           | sp # rest \<Rightarrow> (case convert f width precision sp ap out of None \<Rightarrow> None | Some (ap, out) \<Rightarrow> fmt_loop rest ap out))
      else fmt_loop cs ap (put c out))"
  by pat_completeness auto
termination
  by (relation "measure (length \<circ> fst)") (auto dest!: parse_spec_length [OF sym])

text \<open>With a size of 0 nothing is written; every number is taken to have ten characters.\<close>

definition count_conv :: "char \<Rightarrow> va list \<Rightarrow> nat \<Rightarrow> int \<Rightarrow> (va list \<times> nat \<times> int) option" where
  "count_conv c ap dummy_remaining dummy_written =
     (if c = CHR ''s'' then map_option (\<lambda>(s, ap). let n = min (length (case s of None \<Rightarrow> ''(null)'' | Some s \<Rightarrow> s)) dummy_remaining
                                                in (ap, dummy_remaining - n, dummy_written + int n)) (va_str ap)
      else if c \<in> {CHR ''d'', CHR ''i'', CHR ''u'', CHR ''x'', CHR ''X'', CHR ''c'', CHR ''p''}
      then map_option (\<lambda>(_, ap). (ap, dummy_remaining, dummy_written + 10)) (va_int ap)
      else if c = CHR ''%'' then Some (ap, dummy_remaining, dummy_written + 1)
      else Some (ap, dummy_remaining, dummy_written))"

function fmt_count :: "string \<Rightarrow> va list \<Rightarrow> nat \<Rightarrow> int \<Rightarrow> int option" where
  "fmt_count [] ap rem w = Some w"
| "fmt_count (c # cs) ap rem w =
     (if c = CHR ''%'' then
        case parse_spec cs of (f, width, precision, cs') \<Rightarrow>
          (case cs' of
             [] \<Rightarrow> None
           | sp # rest \<Rightarrow> (case count_conv sp ap rem w of None \<Rightarrow> None | Some (ap, rem, w) \<Rightarrow> fmt_count rest ap rem w))
      else fmt_count cs ap rem (w + 1))"
  by pat_completeness auto
termination
  by (relation "measure (length \<circ> fst)") (auto dest!: parse_spec_length [OF sym])

definition vsnprintf :: "mem \<Rightarrow> u32 \<Rightarrow> u32 \<Rightarrow> string \<Rightarrow> va list \<Rightarrow> (int \<times> mem) option" where
  "vsnprintf m str sz format ap =
     (if sz = 0 then map_option (\<lambda>w. (w, m)) (fmt_count format ap 255 0)
      else map_option (\<lambda>out. (written out, (omem out)(current out := 0)))
             (fmt_loop format ap \<lparr>omem = m, current = str, remaining = sz - 1, written = 0\<rparr>))"

definition snprintf :: "mem \<Rightarrow> u32 \<Rightarrow> u32 \<Rightarrow> string \<Rightarrow> va list \<Rightarrow> (int \<times> mem) option" where
  "snprintf m str sz format args = vsnprintf m str sz format args"

section \<open>Numbers are written in positional notation\<close>

definition dig :: "bool \<Rightarrow> nat \<Rightarrow> char" where
  "dig upper d = (if d < 10 then char_of (48 + d) else if upper then char_of (65 + (d - 10)) else char_of (97 + (d - 10)))"

function numeral_text :: "bool \<Rightarrow> nat \<Rightarrow> nat \<Rightarrow> string" where
  "numeral_text upper b n =
     (if n < b \<or> b < 2 then [dig upper n] else numeral_text upper b (n div b) @ [dig upper (n mod b)])"
  by auto
termination
  by (relation "measure (\<lambda>(_, _, n). n)") auto

declare numeral_text.simps [simp del]

definition digit_val :: "char \<Rightarrow> nat" where
  "digit_val c = (let v = of_char c in if v < 58 then v - 48 else if v < 91 then v - 55 else v - 87)"

definition text_val :: "nat \<Rightarrow> string \<Rightarrow> nat" where
  "text_val b s = foldl (\<lambda>v c. v * b + digit_val c) 0 s"

lemma char_zero [simp]: "char_of (48::nat) = CHR ''0''"
  by code_simp

lemma digit_val_dig: "d < 36 \<Longrightarrow> digit_val (dig u d) = d"
  by (auto simp: digit_val_def dig_def Let_def)

lemma text_val_numeral: "2 \<le> b \<Longrightarrow> b \<le> 36 \<Longrightarrow> text_val b (numeral_text u b n) = n"
proof (induction u b n rule: numeral_text.induct)
  case (1 u b n)
  have "n mod b < b" using 1(2) by simp
  then have "n mod b < 36" using 1(3) by linarith
  then show ?case using 1 by (subst numeral_text.simps) (auto simp: text_val_def digit_val_dig)
qed

lemma itoa_loop_text:
  assumes "2 \<le> base" "n \<noteq> 0"
  shows "rev (itoa_loop base n) = numeral_text False (unat base) (unat n)"
  using assms
proof (induction base n rule: itoa_loop.induct)
  case (1 base n)
  have b: "\<not> base < 2" "2 \<le> unat base" using 1(2) by (auto simp: word_le_nat_alt word_less_nat_alt)
  have d: "n div base = 0 \<longleftrightarrow> unat n < unat base"
    using b by (auto simp: unat_eq_zero [symmetric] unat_div div_eq_0_iff)
  have "rev (itoa_loop base n) = rev (itoa_loop base (n div base)) @ [dig False (unat n mod unat base)]"
    using 1(3) b by (subst itoa_loop.simps) (simp add: Let_def dig_def unat_mod)
  also have "\<dots> = numeral_text False (unat base) (unat n)"
  proof (cases "n div base = 0")
    case True
    then show ?thesis using d b by (subst itoa_loop.simps, subst numeral_text.simps) simp
  next
    case False
    then show ?thesis using 1 b d by (subst numeral_text.simps) (simp add: unat_div)
  qed
  finally show ?case .
qed





lemma of_char_minus: "(of_char CHR ''-'' :: nat) = 45"
  by code_simp

lemma dig_code: "d < 36 \<Longrightarrow> 48 \<le> (of_char (dig u d) :: nat)"
  by (auto simp: dig_def)

lemma dig_not_minus: "d < 36 \<Longrightarrow> dig u d \<noteq> CHR ''-''"
  using dig_code [of d u] of_char_minus by auto

lemma numeral_chars: "2 \<le> b \<Longrightarrow> b \<le> 36 \<Longrightarrow> c \<in> set (numeral_text u b n) \<Longrightarrow> \<exists>d<36. c = dig u d"
proof (induction u b n rule: numeral_text.induct)
  case (1 u b n)
  have "n mod b < b" using 1(2) by simp
  then have d: "n mod b < 36" "n < b \<Longrightarrow> n < 36" using 1(3) by linarith+
  consider "n < b" "c = dig u n" | "\<not> n < b" "c = dig u (n mod b)" | "\<not> n < b" "c \<in> set (numeral_text u b (n div b))"
    using 1(2,4) by (subst (asm) (2) numeral_text.simps) (auto split: if_splits)
  then show ?case
  proof cases
    case 3
    then show ?thesis using 1(1-3) by auto
  qed (use d in blast)+
qed

lemma numeral_nonempty: "numeral_text u b n \<noteq> []"
  by (subst numeral_text.simps) simp

lemma numeral_length: "2 \<le> b \<Longrightarrow> n < b ^ Suc k \<Longrightarrow> length (numeral_text u b n) \<le> Suc k"
proof (induction k arbitrary: n)
  case 0
  then show ?case by (subst numeral_text.simps) simp
next
  case (Suc k)
  then have "n div b < b ^ Suc k" by (simp add: div_less_iff_less_mult mult.commute)
  from Suc.IH [OF Suc.prems(1) this] show ?case by (subst numeral_text.simps) simp
qed

definition text_int :: "nat \<Rightarrow> string \<Rightarrow> int" where
  "text_int b s = (case s of [] \<Rightarrow> 0 | c # cs \<Rightarrow> if c = CHR ''-'' then - int (text_val b cs) else int (text_val b s))"

lemma text_int_numeral: "2 \<le> b \<Longrightarrow> b \<le> 36 \<Longrightarrow> text_int b (numeral_text u b n) = int n"
  using numeral_chars [of b "hd (numeral_text u b n)" u n] numeral_nonempty [of u b n] text_val_numeral [of b u n] dig_not_minus
  by (cases "numeral_text u b n") (auto simp: text_int_def)

lemma uint_mod_sint: "uint (w :: 32 word) = sint w mod 4294967296"
  by (simp add: uint_sint take_bit_eq_mod)

lemma sint_bounds: "- 2147483648 \<le> sint (w :: 32 word)" "sint w < 2147483648"
  using sint_ge [of w] sint_lt [of w] by simp_all

lemma nonneg_uint: "\<not> sint (w :: 32 word) < 0 \<Longrightarrow> uint w = sint w"
  using sint_bounds [of w] by (simp add: uint_mod_sint)

lemma uint_minus_neg: "sint (w :: 32 word) < 0 \<Longrightarrow> uint (- w) = - sint w"
proof -
  assume "sint w < 0"
  have "uint (- w) = (- (sint w mod 4294967296)) mod 4294967296" using uint_mod_sint [of w] by (simp add: uint_word_ariths)
  also have "\<dots> = - sint w mod 4294967296" by (rule mod_minus_eq)
  also have "\<dots> = - sint w" using sint_bounds [of w] \<open>sint w < 0\<close> by (intro mod_pos_pos_trivial) auto
  finally show ?thesis .
qed

lemma itoa_text:
  assumes "2 \<le> base" "base \<le> 36"
  shows "itoa num base = (if sint num < 0 \<and> base = 10 then CHR ''-'' # numeral_text False 10 (unat (- num))
    else numeral_text False (nat base) (unat num))"
proof -
  have b: "unat (word_of_int base :: u32) = nat base" "(2::u32) \<le> word_of_int base"
    using assms by (auto simp: unat_eq_nat_uint uint_word_of_int word_le_nat_alt)
  have z: "numeral_text False (nat base) 0 = ''0''" using assms by (subst numeral_text.simps) (simp add: dig_def)
  show ?thesis
    using assms z itoa_loop_text [OF b(2), of num] itoa_loop_text [OF b(2), of "- num"] b(1)
    by (auto simp: itoa_def Let_def)
qed

text \<open>
  \<^verbatim>\<open>itoa\<close> and reading its result back is the identity: for every base from 2 to 36 the text denotes the number,
  signed in base 10 and unsigned otherwise (the least \<^verbatim>\<open>int\<close> included), and it fits into 32 characters.
\<close>

theorem itoa_roundtrip:
  assumes "2 \<le> base" "base \<le> 36"
  shows "text_int (nat base) (itoa num base) = (if base = 10 then sint num else uint num) \<and> length (itoa num base) \<le> 32"
proof (cases "sint num < 0 \<and> base = 10")
  case True
  have "unat (- num) < 10 ^ Suc 9" by (rule less_trans [OF unat_u32_lt]) simp
  then have "length (numeral_text False 10 (unat (- num))) \<le> Suc 9" by (intro numeral_length) auto
  moreover have "int (unat (- num)) = - sint num" using uint_minus_neg True by simp
  ultimately show ?thesis using True text_val_numeral [of 10 False "unat (- num)"]
    by (simp add: itoa_text text_int_def)
next
  case False
  have "(2::nat) ^ 32 \<le> nat base ^ 32" using assms by (intro power_mono) auto
  then have "unat num < nat base ^ Suc 31" by (intro less_le_trans [OF unat_u32_lt]) simp
  then have "length (numeral_text False (nat base) (unat num)) \<le> Suc 31" using assms by (intro numeral_length) auto
  moreover have "base = 10 \<Longrightarrow> uint num = sint num" using False nonneg_uint by blast
  ultimately show ?thesis using False assms text_int_numeral [of "nat base" False "unat num"] by (auto simp: itoa_text)
qed

theorem itoa_roundtrip_witness: "text_int 10 (itoa 0x80000000 10) = - 2147483648 \<and> length (itoa 0x80000000 10) \<le> 32"
  using itoa_roundtrip [of 10 "0x80000000"] by simp

section \<open>Comparison is lexicographic\<close>

lemma of_char_pos: "c \<noteq> CHR 0x00 \<Longrightarrow> 0 < (of_char c :: nat)"
proof (rule ccontr)
  have "(of_char CHR 0x00 :: nat) = 0" by code_simp
  moreover assume "c \<noteq> CHR 0x00" "\<not> 0 < (of_char c :: nat)"
  ultimately show False using of_char_eq_iff [of c "CHR 0x00", where 'a = nat] by simp
qed

lemma strcmp_order:
  assumes "CHR 0x00 \<notin> set s" "CHR 0x00 \<notin> set t"
  shows "(strcmp s t = 0 \<longleftrightarrow> s = t) \<and> (strcmp s t < 0 \<longleftrightarrow> (s, t) \<in> lexord {(a, b). (of_char a :: nat) < of_char b})"
  using assms
proof (induction s t rule: strcmp.induct)
  case (2 a s1)
  then show ?case using of_char_pos [of a] by auto
next
  case (3 b s2)
  then show ?case using of_char_pos [of b] by auto
qed auto

text \<open>
  \<^verbatim>\<open>strcmp\<close> is 0 exactly on equal strings, and negative exactly when the first string comes before the second
  in the lexicographic order of the character codes.
\<close>

theorem strcmp_lexicographic:
  assumes "CHR 0x00 \<notin> set s" "CHR 0x00 \<notin> set t"
  shows "(strcmp s t = 0 \<longleftrightarrow> s = t) \<and> (strcmp s t < 0 \<longleftrightarrow> (s, t) \<in> lexord {(a, b). (of_char a :: nat) < of_char b})"
  by (rule strcmp_order [OF assms])

theorem strcmp_lexicographic_witness: "strcmp ''pf'' ''pg'' < 0 \<and> strcmp ''pf'' ''pf'' = 0"
  using strcmp_lexicographic [of "''pf''" "''pg''"] strcmp_lexicographic [of "''pf''" "''pf''"] by simp

section \<open>Formatted output\<close>


































end
