(* ===== verification/Spec2Isabelle.thy ===== *)
theory Spec2Isabelle
  imports Gates Privilege Lines Regions Strings
begin

text \<open>
  A verification of the osdev i686 microkernel.

  \<^bold>\<open>The program.\<close>  The kernel manages physical pages (\<^verbatim>\<open>kernel/mm/pmm.c\<close>), two chunk heaps (\<^verbatim>\<open>kernel/mm/heap.c\<close>) and
  page tables (\<^verbatim>\<open>arch/i386/paging.c\<close>), and builds the address spaces of processes on them (\<^verbatim>\<open>kernel/mm/vmm.c\<close>).
  Processes hold capabilities (\<^verbatim>\<open>kernel/capability.c\<close>) and own threads, which one round-robin list schedules
  (\<^verbatim>\<open>kernel/process.c\<close>, \<^verbatim>\<open>arch/i386/task.c\<close>).  Threads wait on queues and semaphores (\<^verbatim>\<open>kernel/sync\<close>) and talk through
  mailboxes, shared memory and portals (\<^verbatim>\<open>kernel/ipc\<close>).  Interrupts (\<^verbatim>\<open>kernel/irq.c\<close>) and system calls
  (\<^verbatim>\<open>kernel/syscall.c\<close>) enter through the gates of \<^verbatim>\<open>arch/i386/irq.S\<close>: a gate saves the registers, runs one handler
  with interrupts off, and switches to the thread the handler chose.  Drivers and servers are user programs
  loaded from ELF images (\<^verbatim>\<open>kernel/lib/elf.c\<close>) that reach devices through the calls of \<^verbatim>\<open>kernel/io.c\<close> and \<^verbatim>\<open>kernel/mmio.c\<close>.

  \<^bold>\<open>Theories and sources.\<close>
    \<^item> \<open>Prelude\<close>: widths, error codes, loop combinators, word and list lemmas; the locale \<open>handle_allocator\<close>, the
      contract of everything that hands out and takes back handles.
    \<^item> \<open>Memory\<close>, \<open>Strings\<close>: bytes, \<^verbatim>\<open>memset\<close> and \<^verbatim>\<open>memcpy\<close>; comparison, numerals and formatted output (\<^verbatim>\<open>kernel/lib/string.c\<close>).
    \<^item> \<open>Redblack\<close>, \<open>Regions\<close>: the red-black trees of \<^verbatim>\<open>kernel/lib/rbtree.c\<close> and \<^verbatim>\<open>include/lib/rbtree.h\<close> on a store of nodes, and their
      use for the regions of a process, with the comparisons of \<^verbatim>\<open>kernel/mm/vmm.c\<close>.
    \<^item> \<open>DList\<close>: the intrusive rings of \<^verbatim>\<open>include/lib/list.h\<close> on a store of nodes; the locale \<open>ring_list\<close>.
    \<^item> \<open>Spinlock\<close>: the lock pool, \<^verbatim>\<open>xchg\<close> locks, the interrupt flag (\<^verbatim>\<open>kernel/sync/spinlock.c\<close>).
    \<^item> \<open>Heap\<close>, \<open>Pmm\<close>, \<open>Capability\<close>, \<open>Paging\<close>, \<open>Vmm\<close>: the files of the same names; \<open>Vmm\<close> composes their states into \<open>memsys\<close>.
    \<^item> \<open>Kernel\<close>: the objects of the kernel and its global variables as the record \<open>kernel\<close>, with one store per type of object.
    \<^item> \<open>Task\<close>: descriptors and thread contexts (\<^verbatim>\<open>arch/i386/protm.c\<close>, \<^verbatim>\<open>arch/i386/task.c\<close>).
    \<^item> \<open>Schedspec\<close>: the abstract scheduler \<open>sched\<close>, its invariants and its fairness; \<open>sched_of\<close> maps the kernel to it.
    \<^item> \<open>Sched\<close>: selection, switching, blocking, yielding, the timer handler (\<^verbatim>\<open>kernel/process.c\<close>).
    \<^item> \<open>Waitq\<close>: wait queues and semaphores (\<^verbatim>\<open>kernel/sync/wait_queue.c\<close>, \<^verbatim>\<open>kernel/sync/semaphore.c\<close>).
    \<^item> \<open>Mailbox\<close>: mails and mailboxes (\<^verbatim>\<open>kernel/ipc/mailbox.c\<close>); the locale \<open>message_queue\<close>.
    \<^item> \<open>Irq\<close>, \<open>Lines\<close>: interrupt lines (\<^verbatim>\<open>kernel/irq.c\<close>, \<^verbatim>\<open>arch/i386/irq.c\<close>) and the typing of their table.
    \<^item> \<open>Process\<close>, \<open>Elf\<close>, \<open>Privilege\<close>: threads and processes, the loader and the process system call, and the rings threads run in.
    \<^item> \<open>Devio\<close>, \<open>Portal\<close>: port and memory-mapped I/O; shared memory and portals.
    \<^item> \<open>Spawn\<close>, \<open>Calls\<close>: what creating processes, loading programs and the portal, heap and I/O calls do to the scheduler.
    \<^item> \<open>Syscall\<close>, \<open>Gates\<close>: the dispatcher with its copies, and the entry and exit code of \<^verbatim>\<open>arch/i386/irq.S\<close>.

  \<^bold>\<open>How code becomes definitions.\<close>  Each C function is one definition of its name (some long ones are split at a
  branch or loop, which is then mapped to its own lines).  It takes the state and returns its result and the new
  state; an early return is a branch and an error is the negative code of \<^verbatim>\<open>include/kernel/errno.h\<close>.  \<^verbatim>\<open>u32\<close>, sizes and
  pointers are 32-bit words, so address arithmetic wraps as in C; a pointer the code compares with NULL is an option.
  The page bitmap, page directories and page tables are at the addresses the code has them at, and so are the headers of
  heap chunks, which \<open>heap_mem\<close> keeps in a store of their own beside the bytes: a program that overruns its block and damages a
  header is not described.  The objects of \<open>Kernel\<close> are kept by type, so a handle is used as an object of the type the
  code casts it to; a forged handle that points into another object is not described.  Signed counters that a program can drive
  to their limits wrap at 32 bits (the semaphore value through \<open>c_int\<close>, thread and process numbers as words).
  From \<open>Kernel\<close> on an intrusive list is the HOL list of its elements, head first, which \<open>DList\<close> justifies: \<^verbatim>\<open>list_add\<close> is \<open>Cons\<close>.
  In \<open>Vmm\<close> the tree of regions is the list of its regions in order, with \<open>region_insert\<close> and \<open>region_delete\<close> for
  \<^verbatim>\<open>rbtree_insert\<close> and \<^verbatim>\<open>rbtree_delete\<close>, which \<open>region_tree_refines\<close> justifies.

  \<^bold>\<open>What the lemmas show.\<close>
    \<^item> Memory.  \<^verbatim>\<open>heap_malloc\<close> and \<^verbatim>\<open>heap_free\<close> refine first fit with splitting and coalescing on a list of chunks that
      tile the pool; pages come zeroed, lowest first, and the incremental search for a run equals the plain one; mapping a
      page changes the translation of that page alone, in that address space alone unless two share the page table; the
      check of user ranges is exact; regions of a process are allocated, released and authorised as they should be, and
      failures give back frames, heap blocks and regions.
    \<^item> Trees and text.  Insertion and deletion return, keep the red-black conditions and the order, and write nothing else;
      the tree of an address space implements the list of its regions; formatted output stays inside its buffer and is the text the format denotes.
    \<^item> Authority.  A capability check grants what a held capability covers; inheritance adds nothing; a process without
      the capability cannot get a ring-0 thread out of the process system call; the dispatcher of system calls
      touches user memory only in the parameter block, whatever the handler does.
    \<^item> Scheduling.  The operations on threads and queues are operations of the abstract scheduler.  Every sequence of
      interrupts and system calls keeps its invariant, under the conditions that the relation \<open>gate\<close> of \<open>Gates\<close> lists; a ready thread runs after fewer yields than there are threads;
      process exit ends exactly when there is a thread to continue with; creation adds one thread or nothing.
    \<^item> Synchronisation and messages.  Mutual exclusion of the locks, counting of semaphores, order of mails, typing of interrupt lines.
    \<^item> Flaws.  A second free of a merged chunk is counted once more, and killing a waiter loses a unit of its semaphore.

  \<^bold>\<open>Interfaces.\<close>  \<open>handle_allocator\<close> is interpreted on the heaps, the page allocator, the table pool and the lock pool,
  \<open>ring_list\<close> on the linked rings and \<open>message_queue\<close> on \<^verbatim>\<open>send_mail\<close> and \<^verbatim>\<open>try_get_mail\<close>; components use the facts of the interpretations.

  \<^bold>\<open>Loops.\<close>  A counted C loop is a fold over its indices, left early with \<open>for_brk\<close>, so it is total and there is no fuel.
  The loops that follow pointers or may wait for ever (\<open>list_walk\<close>, \<open>first_fit\<close>, \<open>map_4mb_loop\<close>, \<open>map_4kb_loop\<close>, \<open>spin\<close>,
  \<open>exit_threads\<close>, the loops of \<open>Redblack\<close>) are partial functions into \<open>option\<close>.  That they return is proved where a property
  depends on it, in \<open>list_add_del_refine\<close>, \<open>heap_malloc_refines\<close>, \<open>proc_exit_ends\<close>, \<open>rbtree_insert_correct\<close>,
  \<open>rbtree_delete_correct\<close> and \<open>region_tree_refines\<close>.

  \<^bold>\<open>Atomicity.\<close>  There is one processor and a handler runs with interrupts off, so a handler is one step and a lock it takes
  and releases inside has no effect.  Locks are kept where they show: in \<open>Spinlock\<close>, where steps of several CPUs
  interleave; where the code tests for a missing lock; where the pool can run out; and in the timer handler, which gives up
  when the scheduler lock is held.

  \<^bold>\<open>Parameters.\<close>  What stands behind the address of a registered system-call or interrupt handler, what a port or the user's
  memory holds, and the memory map of the boot loader are arguments of the definitions that use them.  The handler of a
  mailbox is not: its call is recorded, and what it does itself is left out.

  \<^bold>\<open>Not modelled.\<close>  The boot code and the start of the servers, which only set up the initial state; exception
  reports, console and logging, which are output; the TLB; the ring-3 stubs that only trap into the kernel; the user servers and demonstrations.
\<close>

end
